(* ===== verification/Prelude.thy ===== *)
theory Prelude
  imports Main "HOL-Library.Word" "HOL-Library.Sublist"
begin

text \<open>
  Shared vocabulary of the development: the exceptions the library throws, the type of
  computations that change a state and may throw, the simplification collections the
  component theories fill, and the few facts on lists that several components use.

  A C++ member function that mutates its object and may throw is a function from the state
  to a pair of a result and the state left behind.  The result is \<open>Inl e\<close> when the
  exception \<open>e\<close> leaves the function and \<open>Inr x\<close> when it returns \<open>x\<close>.  The state is part of
  both outcomes, because whatever was changed before a throw stays changed.
\<close>

section \<open>Machine integers\<close>

type_synonym u8 = "8 word"
type_synonym u64 = "64 word"

section \<open>Exceptions\<close>

text \<open>
  \<open>InvalidArgument\<close> and \<open>RuntimeError\<close> are the two standard exceptions the library throws;
  \<open>OtherStdException\<close> is any other exception derived from \<open>std::exception\<close> and
  \<open>NonStdException\<close> any other thrown value: a sink written by a user may throw either.
\<close>

datatype exn =
    InvalidArgument string
  | RuntimeError string
  | OtherStdException string
  | NonStdException

section \<open>Computations with state and exceptions\<close>

type_synonym ('st, 'a) exec = "'st \<Rightarrow> (exn + 'a) \<times> 'st"

named_theorems exec_simps \<open>rules that run a computation\<close>

definition ret :: "'a \<Rightarrow> ('st, 'a) exec" where
  "ret x = (\<lambda>st. (Inr x, st))"

definition throw :: "exn \<Rightarrow> ('st, 'a) exec" where
  "throw e = (\<lambda>st. (Inl e, st))"

definition andthen :: "('st, 'a) exec \<Rightarrow> ('a \<Rightarrow> ('st, 'b) exec) \<Rightarrow> ('st, 'b) exec" where
  "andthen m f = (\<lambda>st. case m st of (Inl e, st') \<Rightarrow> (Inl e, st') | (Inr x, st') \<Rightarrow> f x st')"

definition reads :: "('st \<Rightarrow> 'a) \<Rightarrow> ('st, 'a) exec" where
  "reads f = (\<lambda>st. (Inr (f st), st))"

definition updates :: "('st \<Rightarrow> 'st) \<Rightarrow> ('st, unit) exec" where
  "updates f = (\<lambda>st. (Inr (), f st))"

definition when_do :: "bool \<Rightarrow> ('st, unit) exec \<Rightarrow> ('st, unit) exec" where
  "when_do b m = (if b then m else ret ())"

text \<open>A range-based \<open>for\<close> loop: the first exception leaves the loop.\<close>

fun for_each :: "'a list \<Rightarrow> ('a \<Rightarrow> ('st, unit) exec) \<Rightarrow> ('st, unit) exec" where
  "for_each [] f = ret ()"
| "for_each (x # xs) f = andthen (f x) (\<lambda>_. for_each xs f)"

lemma ret_run [simp, exec_simps]: "ret x st = (Inr x, st)"
  by (simp add: ret_def)

lemma throw_run [simp, exec_simps]: "throw e st = (Inl e, st)"
  by (simp add: throw_def)

lemma reads_run [simp, exec_simps]: "reads f st = (Inr (f st), st)"
  by (simp add: reads_def)

lemma updates_run [simp, exec_simps]: "updates f st = (Inr (), f st)"
  by (simp add: updates_def)

lemma when_do_True [simp, exec_simps]: "when_do True m = m"
  by (simp add: when_do_def)

lemma when_do_False [simp, exec_simps]: "when_do False m = ret ()"
  by (simp add: when_do_def)

lemma andthen_run [simp, exec_simps]:
  "andthen m f st = (case m st of (Inl e, st') \<Rightarrow> (Inl e, st') | (Inr x, st') \<Rightarrow> f x st')"
  by (simp add: andthen_def)

section \<open>Lists\<close>

lemma takeWhile_id [simp]: "(\<forall>x \<in> set xs. P x) \<Longrightarrow> takeWhile P xs = xs"
  by (induction xs) auto

lemma take_drop_joined:
  "take n (xs @ ys) @ drop n (xs @ ys) = xs @ ys"
  by (rule append_take_drop_id)

lemma take_drop_joined2: "as @ take n bs @ drop n bs = as @ bs"
  by simp

lemma filter_update_count:
  "t < length cs \<Longrightarrow> length (filter P (cs[t := c'])) + (if P (cs ! t) then 1 else 0) = length (filter P cs) + (if P c' then 1 else 0)"
proof (induction cs arbitrary: t)
  case (Cons c cs)
  then show ?case by (cases t) (auto simp: nth_Cons')
qed simp

lemma list_all_update: "list_all P xs \<Longrightarrow> P x \<Longrightarrow> list_all P (xs[t := x])"
  using set_update_subset_insert [of xs t x] by (auto simp: list_all_iff)

section \<open>Words\<close>

lemma unat_of_nat_fits: "n < 2 ^ LENGTH('w) \<Longrightarrow> unat (of_nat n :: 'w::len word) = n"
  by (simp add: unat_of_nat)

end
