(* ===== verification/Ring_Buffer.thy ===== *)
theory Ring_Buffer
  imports Prelude "HOL-Library.Log_Nat"
begin

unbundle bit_operations_syntax

text \<open>
  \<open>LockFreeRingBuffer\<close> of \<open>include/hlog/detail/lock_free_ring_buffer.h\<close>.  The type \<open>std::size_t\<close>
  is a word of any width \<open>'w\<close>, so the 64 and the 32 bit builds are both instances.  \<open>TryEnqueue\<close>
  and \<open>TryDequeue\<close> are modelled one access to shared memory at a time: the constructors of
  \<open>enq_pc\<close> and \<open>deq_pc\<close> are the points between two accesses.  What C++ leaves undefined, an
  access outside the buffer or an overflow of the signed subtraction, ends in a point of its own.
\<close>

section \<open>The capacity\<close>

definition RoundUpPowerOfTwo :: "'w::len word \<Rightarrow> 'w word" where
  "RoundUpPowerOfTwo v =
     (let n0 = (if v < 2 then 2 else v) - 1;
          n1 = n0 OR drop_bit 1 n0;
          n2 = n1 OR drop_bit 2 n1;
          n3 = n2 OR drop_bit 4 n2;
          n4 = n3 OR drop_bit 8 n3;
          n5 = n4 OR drop_bit 16 n4;
          n6 = (if LENGTH('w) = 64 then n5 OR drop_bit 32 n5 else n5)
      in n6 + 1)"

text \<open>Each step doubles the length of the run of bits below every set bit.\<close>

lemma smear_step:
  assumes "\<And>i. bit (y :: 'w::len word) i \<longleftrightarrow> (\<exists>j < m. bit x (i + j))" and "0 < m"
  shows "bit (y OR drop_bit m y) i \<longleftrightarrow> (\<exists>j < 2 * m. bit x (i + j))"
proof -
  have "bit (y OR drop_bit m y) i \<longleftrightarrow> (\<exists>j < m. bit x (i + j)) \<or> (\<exists>j < m. bit x (i + m + j))"
    by (simp add: bit_or_iff bit_drop_bit_eq assms(1) ac_simps)
  also have "\<dots> \<longleftrightarrow> (\<exists>j < 2 * m. bit x (i + j))"
  proof
    assume "\<exists>j < 2 * m. bit x (i + j)"
    then obtain j where j: "j < 2 * m" "bit x (i + j)" by blast
    show "(\<exists>j < m. bit x (i + j)) \<or> (\<exists>j < m. bit x (i + m + j))"
    proof (cases "j < m")
      case False
      with j have "j - m < m" "bit x (i + m + (j - m))" by simp_all
      then show ?thesis by blast
    qed (use j in blast)
  next
    assume "(\<exists>j < m. bit x (i + j)) \<or> (\<exists>j < m. bit x (i + m + j))"
    then show "\<exists>j < 2 * m. bit x (i + j)"
    proof
      assume "\<exists>j < m. bit x (i + m + j)"
      then obtain j where "j < m" "bit x (i + (m + j))" by (auto simp: add.assoc)
      then show ?thesis by (intro exI [of _ "m + j"]) simp
    next
      assume "\<exists>j < m. bit x (i + j)"
      then show ?thesis using \<open>0 < m\<close> by (metis add_lessD1 less_imp_add_positive mult_2 trans_less_add1)
    qed
  qed
  finally show ?thesis .
qed

lemma bit_unat: "bit (x :: 'w::len word) i \<longleftrightarrow> odd (unat x div 2 ^ i)"
  by (simp add: bit_unsigned_iff flip: bit_iff_odd)

lemma highest_bit:
  assumes "2 ^ h \<le> unat (x :: 'w::len word)" and "unat x < 2 ^ Suc h"
  shows "bit x h" and "bit x i \<Longrightarrow> i \<le> h"
proof -
  have "unat x div 2 ^ h = 1" using assms by (intro div_nat_eqI) simp_all
  then show "bit x h" unfolding bit_unat by simp
  assume "bit x i"
  then have "odd (unat x div 2 ^ i)" unfolding bit_unat .
  then have "2 ^ i \<le> unat x" by (rule contrapos_pp) simp
  then have "(2::nat) ^ i < 2 ^ Suc h" using assms(2) by (rule le_less_trans)
  then have "i < Suc h" by (rule power_less_imp_less_exp [rotated]) simp
  then show "i \<le> h" by simp
qed

lemma smeared_mask:
  assumes "\<And>i. bit (y :: 'w::len word) i \<longleftrightarrow> (\<exists>j < m. bit (x :: 'w word) (i + j))" and m: "LENGTH('w) \<le> m"
    and h: "2 ^ h \<le> unat x" "unat x < 2 ^ Suc h"
  shows "y = mask (Suc h)"
proof (rule bit_word_eqI)
  fix i assume "i < LENGTH('w)"
  show "bit y i \<longleftrightarrow> bit (mask (Suc h) :: 'w word) i"
  proof
    assume "bit y i"
    then obtain j where "bit x (i + j)" using assms(1) by blast
    then show "bit (mask (Suc h) :: 'w word) i"
      using highest_bit(2) [OF h] \<open>i < LENGTH('w)\<close> by (fastforce simp: bit_mask_iff)
  next
    assume "bit (mask (Suc h) :: 'w word) i"
    then have "i \<le> h" by (simp add: bit_mask_iff)
    have "h < LENGTH('w)" using highest_bit(1) [OF h] by (rule bit_imp_le_length)
    then have "h - i < m" "bit x (i + (h - i))" using \<open>i \<le> h\<close> m highest_bit(1) [OF h] by auto
    then show "bit y i" using assms(1) by blast
  qed
qed

lemma RoundUp_smeared:
  assumes "LENGTH('w::len) = 64 \<or> LENGTH('w) = 32"
  shows "\<exists>y :: 'w word. RoundUpPowerOfTwo v = y + 1 \<and>
    (\<forall>i. bit y i \<longleftrightarrow> (\<exists>j < LENGTH('w). bit ((if v < 2 then 2 else v) - 1) (i + j)))"
proof -
  let ?n0 = "(if v < 2 then 2 else v) - 1"
  define n1 where "n1 = ?n0 OR drop_bit 1 ?n0"
  define n2 where "n2 = n1 OR drop_bit 2 n1"
  define n3 where "n3 = n2 OR drop_bit 4 n2"
  define n4 where "n4 = n3 OR drop_bit 8 n3"
  define n5 where "n5 = n4 OR drop_bit 16 n4"
  define n6 where "n6 = n5 OR drop_bit 32 n5"
  have 0: "bit ?n0 i \<longleftrightarrow> (\<exists>j < 1. bit ?n0 (i + j))" for i by simp
  have 1: "bit n1 i \<longleftrightarrow> (\<exists>j < 2. bit ?n0 (i + j))" for i using smear_step [OF 0] by (simp add: n1_def)
  have 2: "bit n2 i \<longleftrightarrow> (\<exists>j < 4. bit ?n0 (i + j))" for i using smear_step [OF 1] by (simp add: n2_def)
  have 3: "bit n3 i \<longleftrightarrow> (\<exists>j < 8. bit ?n0 (i + j))" for i using smear_step [OF 2] by (simp add: n3_def)
  have 4: "bit n4 i \<longleftrightarrow> (\<exists>j < 16. bit ?n0 (i + j))" for i using smear_step [OF 3] by (simp add: n4_def)
  have 5: "bit n5 i \<longleftrightarrow> (\<exists>j < 32. bit ?n0 (i + j))" for i using smear_step [OF 4] by (simp add: n5_def)
  have 6: "bit n6 i \<longleftrightarrow> (\<exists>j < 64. bit ?n0 (i + j))" for i using smear_step [OF 5] by (simp add: n6_def)
  have "RoundUpPowerOfTwo v = (if LENGTH('w) = 64 then n6 else n5) + 1"
    by (simp add: RoundUpPowerOfTwo_def Let_def n1_def n2_def n3_def n4_def n5_def n6_def)
  with 5 6 assms show ?thesis by auto
qed

lemma RoundUp_value:
  fixes v :: "'w::len word"
  assumes w: "LENGTH('w) = 64 \<or> LENGTH('w) = 32"
  shows "\<exists>k \<ge> 1. k \<le> LENGTH('w) \<and> 2 ^ (k - 1) < max 2 (unat v) \<and> max 2 (unat v) \<le> 2 ^ k \<and>
    RoundUpPowerOfTwo v = 2 ^ k"
proof -
  let ?n0 = "(if v < 2 then 2 else v) - 1"
  have two: "unat (2 :: 'w word) = 2" using w by auto
  have base: "unat (if v < 2 then 2 else v) = max 2 (unat v)"
    using two w by (auto simp: word_less_nat_alt)
  have n0: "unat ?n0 = max 2 (unat v) - 1"
    unfolding base [symmetric] by (rule unat_minus_one) (use two in \<open>auto simp: word_less_nat_alt\<close>)
  have "1 \<le> unat ?n0" using n0 by simp
  then obtain h where h: "2 ^ h \<le> unat ?n0" "unat ?n0 < 2 ^ Suc h"
    using ex_power_ivl1 [of 2 "unat ?n0"] by auto
  obtain y :: "'w word" where y: "RoundUpPowerOfTwo v = y + 1"
    "\<And>i. bit y i \<longleftrightarrow> (\<exists>j < LENGTH('w). bit ?n0 (i + j))" using RoundUp_smeared [OF w, of v] by blast
  have "y = mask (Suc h)" using smeared_mask [OF y(2) order_refl h] .
  then have "RoundUpPowerOfTwo v = 2 ^ Suc h" using y(1) by (simp add: mask_eq_exp_minus_1)
  moreover have "h < LENGTH('w)" using highest_bit(1) [OF h] bit_imp_le_length by blast
  ultimately show ?thesis using h n0 by (intro exI [of _ "Suc h"]) auto
qed

text \<open>
  C23. The capacity of the 64 bit build.  A requested size of at most 2 to the 63 is rounded up to
  the least power of two that is not below it, at least 2.  A larger request wraps to a capacity
  of zero.
\<close>

theorem RoundUpPowerOfTwo_least:
  fixes v :: u64
  shows "if unat v \<le> 2 ^ 63
    then \<exists>k \<in> {1..63}. unat (RoundUpPowerOfTwo v) = 2 ^ k \<and> max 2 (unat v) \<le> 2 ^ k \<and> 2 ^ (k - 1) < max 2 (unat v)
    else RoundUpPowerOfTwo v = 0"
proof -
  obtain k where k: "1 \<le> k" "k \<le> 64" "2 ^ (k - 1) < max 2 (unat v)" "max 2 (unat v) \<le> 2 ^ k"
    "RoundUpPowerOfTwo v = 2 ^ k" using RoundUp_value [of v] by auto
  show ?thesis
  proof (cases "k = 64")
    case True
    then have "2 ^ 63 < unat v" "RoundUpPowerOfTwo v = 0" using k by (simp_all add: max_def split: if_splits)
    then show ?thesis by simp
  next
    case False
    then have "k \<le> 63" using k by simp
    then have "(2::nat) ^ k < 2 ^ 64" using \<open>k \<le> 63\<close> by (intro power_strict_increasing) auto
    then have "unat (of_nat (2 ^ k) :: u64) = 2 ^ k" by (intro unat_of_nat_fits) simp
    then have "unat (2 ^ k :: u64) = 2 ^ k" by simp
    moreover have "(2::nat) ^ k \<le> 2 ^ 63" using \<open>k \<le> 63\<close> by (intro power_increasing) auto
    then have "unat v \<le> 2 ^ 63" using k(4) by simp
    ultimately show ?thesis using k \<open>k \<le> 63\<close> by (auto intro!: bexI [of _ k])
  qed
qed

section \<open>The buffer\<close>

record ('a, 'p) Cell =
  cell_sequence :: 'p
  cell_value :: 'a

text \<open>\<open>r_moved\<close> is what a value is after it has been moved out of; C++ leaves this to the type.\<close>

record ('a, 'p) ring =
  r_capacity :: 'p
  r_mask :: 'p
  r_buffer :: "('a, 'p) Cell list"
  r_enqueue_pos :: 'p
  r_dequeue_pos :: 'p
  r_moved :: "'a \<Rightarrow> 'a"

definition ring_new :: "'a \<Rightarrow> ('a \<Rightarrow> 'a) \<Rightarrow> 'w::len word \<Rightarrow> ('a, 'w word) ring" where
  "ring_new empty_value moved requested_capacity =
     (let c = RoundUpPowerOfTwo requested_capacity in
      \<lparr>r_capacity = c, r_mask = c - 1,
       r_buffer = map (\<lambda>i. \<lparr>cell_sequence = of_nat i, cell_value = empty_value\<rparr>) [0..<unat c],
       r_enqueue_pos = 0, r_dequeue_pos = 0, r_moved = moved\<rparr>)"

definition cell_index :: "('a, 'w::len word) ring \<Rightarrow> 'w word \<Rightarrow> nat" where
  "cell_index r position = unat (position AND r_mask r)"

definition cell_at :: "('a, 'w::len word) ring \<Rightarrow> 'w word \<Rightarrow> ('a, 'w word) Cell option" where
  "cell_at r position =
     (if cell_index r position < length (r_buffer r) then Some (r_buffer r ! cell_index r position) else None)"

definition update_cell :: "'w::len word \<Rightarrow> (('a, 'w word) Cell \<Rightarrow> ('a, 'w word) Cell) \<Rightarrow> ('a, 'w word) ring \<Rightarrow> ('a, 'w word) ring" where
  "update_cell position f r =
     r\<lparr>r_buffer := (r_buffer r)[cell_index r position := f (r_buffer r ! cell_index r position)]\<rparr>"

text \<open>The subtraction of two values converted to \<open>std::intptr_t\<close>; its overflow is undefined.\<close>

definition signed_diff :: "'w::len word \<Rightarrow> 'w word \<Rightarrow> int option" where
  "signed_diff a b =
     (let d = sint a - sint b in if - (2 ^ (LENGTH('w) - 1)) \<le> d \<and> d < 2 ^ (LENGTH('w) - 1) then Some d else None)"

datatype ('a, 'p) enq_pc =
    EnqLoad 'a
  | EnqSeq 'a 'p
  | EnqCas 'a 'p
  | EnqWrite 'a 'p
  | EnqPublish 'p
  | EnqDone bool
  | EnqUndefined

text \<open>
  One access of \<open>TryEnqueue\<close>.  The flag is the spurious failure that \<open>compare_exchange_weak\<close> may
  have; a failed exchange leaves the current value in \<open>position\<close>.
\<close>

fun enq_step :: "bool \<Rightarrow> ('a, 'w::len word) enq_pc \<Rightarrow> ('a, 'w word) ring \<Rightarrow> ('a, 'w word) enq_pc \<times> ('a, 'w word) ring" where
  "enq_step spurious (EnqLoad v) r = (EnqSeq v (r_enqueue_pos r), r)"
| "enq_step spurious (EnqSeq v position) r =
     (case cell_at r position of
        None \<Rightarrow> (EnqUndefined, r)
      | Some cell \<Rightarrow>
          (case signed_diff (cell_sequence cell) position of
             None \<Rightarrow> (EnqUndefined, r)
           | Some d \<Rightarrow> if d = 0 then (EnqCas v position, r)
               else if d < 0 then (EnqDone False, r)
               else (EnqLoad v, r)))"
| "enq_step spurious (EnqCas v position) r =
     (if r_enqueue_pos r = position \<and> \<not> spurious
      then (EnqWrite v position, r\<lparr>r_enqueue_pos := position + 1\<rparr>)
      else (EnqSeq v (r_enqueue_pos r), r))"
| "enq_step spurious (EnqWrite v position) r =
     (EnqPublish position, update_cell position (\<lambda>c. c\<lparr>cell_value := v\<rparr>) r)"
| "enq_step spurious (EnqPublish position) r =
     (EnqDone True, update_cell position (\<lambda>c. c\<lparr>cell_sequence := position + 1\<rparr>) r)"
| "enq_step spurious pc r = (pc, r)"

datatype ('a, 'p) deq_pc =
    DeqLoad
  | DeqSeq 'p
  | DeqCas 'p
  | DeqRead 'p
  | DeqRelease 'a 'p
  | DeqDone "'a option"
  | DeqUndefined

fun deq_step :: "bool \<Rightarrow> ('a, 'w::len word) deq_pc \<Rightarrow> ('a, 'w word) ring \<Rightarrow> ('a, 'w word) deq_pc \<times> ('a, 'w word) ring" where
  "deq_step spurious DeqLoad r = (DeqSeq (r_dequeue_pos r), r)"
| "deq_step spurious (DeqSeq position) r =
     (case cell_at r position of
        None \<Rightarrow> (DeqUndefined, r)
      | Some cell \<Rightarrow>
          (case signed_diff (cell_sequence cell) (position + 1) of
             None \<Rightarrow> (DeqUndefined, r)
           | Some d \<Rightarrow> if d = 0 then (DeqCas position, r)
               else if d < 0 then (DeqDone None, r)
               else (DeqLoad, r)))"
| "deq_step spurious (DeqCas position) r =
     (if r_dequeue_pos r = position \<and> \<not> spurious
      then (DeqRead position, r\<lparr>r_dequeue_pos := position + 1\<rparr>)
      else (DeqSeq (r_dequeue_pos r), r))"
| "deq_step spurious (DeqRead position) r =
     (DeqRelease (cell_value (r_buffer r ! cell_index r position)) position,
      update_cell position (\<lambda>c. c\<lparr>cell_value := r_moved r (cell_value c)\<rparr>) r)"
| "deq_step spurious (DeqRelease v position) r =
     (DeqDone (Some v), update_cell position (\<lambda>c. c\<lparr>cell_sequence := position + r_capacity r\<rparr>) r)"
| "deq_step spurious pc r = (pc, r)"

text \<open>
  A call that no other thread disturbs.  The list gives, access after access, the flag of the spurious
  failure that \<open>compare_exchange_weak\<close> may have there; it has no effect on the other accesses.  The
  result is \<open>None\<close> when the call has no defined result or has not returned by the end of the list.
\<close>

fun enq_alone :: "bool list \<Rightarrow> ('a, 'w::len word) enq_pc \<Rightarrow> ('a, 'w word) ring \<Rightarrow> (bool \<times> ('a, 'w word) ring) option" where
  "enq_alone bs (EnqDone b) r = Some (b, r)"
| "enq_alone bs EnqUndefined r = None"
| "enq_alone [] pc r = None"
| "enq_alone (spurious # bs) pc r = (case enq_step spurious pc r of (pc', r') \<Rightarrow> enq_alone bs pc' r')"

fun deq_alone :: "bool list \<Rightarrow> ('a, 'w::len word) deq_pc \<Rightarrow> ('a, 'w word) ring \<Rightarrow> ('a option \<times> ('a, 'w word) ring) option" where
  "deq_alone bs (DeqDone x) r = Some (x, r)"
| "deq_alone bs DeqUndefined r = None"
| "deq_alone [] pc r = None"
| "deq_alone (spurious # bs) pc r = (case deq_step spurious pc r of (pc', r') \<Rightarrow> deq_alone bs pc' r')"

definition TryEnqueue :: "bool list \<Rightarrow> 'a \<Rightarrow> ('a, 'w::len word) ring \<Rightarrow> (bool \<times> ('a, 'w word) ring) option" where
  "TryEnqueue bs v r = enq_alone bs (EnqLoad v) r"

definition TryDequeue :: "bool list \<Rightarrow> ('a, 'w::len word) ring \<Rightarrow> ('a option \<times> ('a, 'w word) ring) option" where
  "TryDequeue bs r = deq_alone bs DeqLoad r"

end
