(* ===== verification/Slot_Queue.thy ===== *)
theory Slot_Queue
  imports Prelude
begin

text \<open>
  What the ring buffer is to its users: a queue of slots in the order they were claimed, oldest
  first.  A slot is \<open>None\<close> from the moment an enqueue has claimed it until its value is published.
  A dequeue takes the oldest slot and only once that one is published, even if younger ones are.
\<close>

type_synonym 'a slots = "'a option list"

definition slot_claim :: "'a slots \<Rightarrow> 'a slots" where
  "slot_claim xs = xs @ [None]"

definition slot_publish :: "nat \<Rightarrow> 'a \<Rightarrow> 'a slots \<Rightarrow> 'a slots" where
  "slot_publish i v xs = xs[i := Some v]"

fun slot_take :: "'a slots \<Rightarrow> ('a \<times> 'a slots) option" where
  "slot_take (Some v # xs) = Some (v, xs)"
| "slot_take _ = None"

inductive slot_step :: "nat \<Rightarrow> 'a slots \<Rightarrow> 'a slots \<Rightarrow> bool" for capacity where
  slot_stutter: "slot_step capacity xs xs"
| slot_claims: "length xs < capacity \<Longrightarrow> slot_step capacity xs (slot_claim xs)"
| slot_publishes: "i < length xs \<Longrightarrow> xs ! i = None \<Longrightarrow> slot_step capacity xs (slot_publish i v xs)"
| slot_takes: "slot_take xs = Some (v, ys) \<Longrightarrow> slot_step capacity xs ys"

lemma slot_take_Some: "slot_take xs = Some (v, ys) \<longleftrightarrow> xs = Some v # ys"
  by (cases xs rule: slot_take.cases) auto

lemma slot_take_None: "slot_take xs = None \<longleftrightarrow> xs = [] \<or> hd xs = None"
  by (cases xs rule: slot_take.cases) auto

lemma length_slots [simp]: "length (slot_claim xs) = Suc (length xs)" "length (slot_publish i v xs) = length xs"
  by (simp_all add: slot_claim_def slot_publish_def)

end
