(* ===== verification/Ring_Concurrent.thy ===== *)
theory Ring_Concurrent
  imports Ring_Buffer Slot_Queue
begin

text \<open>
  The ring buffer under any number of threads that enqueue and dequeue at the same time.  A step of
  the system is one access to shared memory by one thread, so every interleaving is a path of the
  step relation; accesses are taken to be sequentially consistent.  Three history variables, which
  no step reads, record the values in the order their positions were claimed, the number of
  positions claimed for reading, and what was read at which position.
\<close>

datatype ('a, 'p) ring_thread =
    RingIdle
  | Enqueuing "('a, 'p) enq_pc"
  | Dequeuing "('a, 'p) deq_pc"

record ('a, 'p) ring_sys =
  sys_ring :: "('a, 'p) ring"
  sys_thread :: "nat \<Rightarrow> ('a, 'p) ring_thread"
  sys_claims :: "'a list"
  sys_taken :: nat
  sys_delivered :: "(nat \<times> 'a) list"

fun claim_of :: "('a, 'p) enq_pc \<Rightarrow> ('a, 'p) enq_pc \<Rightarrow> 'a list" where
  "claim_of (EnqCas v p) (EnqWrite v' p') = [v]"
| "claim_of _ _ = []"

fun take_of :: "('a, 'p) deq_pc \<Rightarrow> ('a, 'p) deq_pc \<Rightarrow> nat" where
  "take_of (DeqCas p) (DeqRead p') = 1"
| "take_of _ _ = 0"

fun delivery_of :: "('a, 'w::len word) deq_pc \<Rightarrow> ('a, 'w word) deq_pc \<Rightarrow> (nat \<times> 'a) list" where
  "delivery_of (DeqRead p) (DeqRelease v p') = [(unat p, v)]"
| "delivery_of _ _ = []"

definition set_thread :: "nat \<Rightarrow> ('a, 'p) ring_thread \<Rightarrow> ('a, 'p) ring_sys \<Rightarrow> ('a, 'p) ring_sys" where
  "set_thread t pc st = st\<lparr>sys_thread := (sys_thread st)(t := pc)\<rparr>"

inductive ring_sys_step :: "('a, 'w::len word) ring_sys \<Rightarrow> ('a, 'w word) ring_sys \<Rightarrow> bool" where
  start_enqueue: "sys_thread st t = RingIdle \<Longrightarrow>
    ring_sys_step st (set_thread t (Enqueuing (EnqLoad v)) st)"
| start_dequeue: "sys_thread st t = RingIdle \<Longrightarrow>
    ring_sys_step st (set_thread t (Dequeuing DeqLoad) st)"
| enqueue_access: "sys_thread st t = Enqueuing pc \<Longrightarrow> enq_step spurious pc (sys_ring st) = (pc', r') \<Longrightarrow>
    ring_sys_step st (set_thread t (Enqueuing pc')
      (st\<lparr>sys_ring := r', sys_claims := sys_claims st @ claim_of pc pc'\<rparr>))"
| dequeue_access: "sys_thread st t = Dequeuing pc \<Longrightarrow> deq_step spurious pc (sys_ring st) = (pc', r') \<Longrightarrow>
    ring_sys_step st (set_thread t (Dequeuing pc')
      (st\<lparr>sys_ring := r', sys_taken := sys_taken st + take_of pc pc',
         sys_delivered := sys_delivered st @ delivery_of pc pc'\<rparr>))"
| finish_enqueue: "sys_thread st t = Enqueuing (EnqDone b) \<Longrightarrow> ring_sys_step st (set_thread t RingIdle st)"
| finish_dequeue: "sys_thread st t = Dequeuing (DeqDone x) \<Longrightarrow> ring_sys_step st (set_thread t RingIdle st)"

definition ring_sys_start :: "'a \<Rightarrow> ('a \<Rightarrow> 'a) \<Rightarrow> 'w::len word \<Rightarrow> ('a, 'w word) ring_sys" where
  "ring_sys_start empty_value moved requested_capacity =
     \<lparr>sys_ring = ring_new empty_value moved requested_capacity, sys_thread = (\<lambda>_. RingIdle),
      sys_claims = [], sys_taken = 0, sys_delivered = []\<rparr>"

text \<open>A scheduler that runs the threads in a given order; each of its runs is a path of the step relation.\<close>

datatype 'a ring_action = CallEnqueue 'a | CallDequeue | RunAccess | SpuriousAccess

definition ring_access :: "bool \<Rightarrow> nat \<Rightarrow> ('a, 'w::len word) ring_sys \<Rightarrow> ('a, 'w word) ring_sys" where
  "ring_access spurious t st = (case sys_thread st t of
     Enqueuing (EnqDone b) \<Rightarrow> set_thread t RingIdle st
   | Dequeuing (DeqDone x) \<Rightarrow> set_thread t RingIdle st
   | Enqueuing pc \<Rightarrow> (case enq_step spurious pc (sys_ring st) of (pc', r') \<Rightarrow>
       set_thread t (Enqueuing pc') (st\<lparr>sys_ring := r', sys_claims := sys_claims st @ claim_of pc pc'\<rparr>))
   | Dequeuing pc \<Rightarrow> (case deq_step spurious pc (sys_ring st) of (pc', r') \<Rightarrow>
       set_thread t (Dequeuing pc') (st\<lparr>sys_ring := r', sys_taken := sys_taken st + take_of pc pc',
         sys_delivered := sys_delivered st @ delivery_of pc pc'\<rparr>))
   | RingIdle \<Rightarrow> st)"

fun ring_run :: "(nat \<times> 'a ring_action) list \<Rightarrow> ('a, 'w::len word) ring_sys \<Rightarrow> ('a, 'w word) ring_sys" where
  "ring_run [] st = st"
| "ring_run ((t, CallEnqueue v) # as) st =
     ring_run as (if sys_thread st t = RingIdle then set_thread t (Enqueuing (EnqLoad v)) st else st)"
| "ring_run ((t, CallDequeue) # as) st =
     ring_run as (if sys_thread st t = RingIdle then set_thread t (Dequeuing DeqLoad) st else st)"
| "ring_run ((t, RunAccess) # as) st = ring_run as (ring_access False t st)"
| "ring_run ((t, SpuriousAccess) # as) st = ring_run as (ring_access True t st)"

lemma ring_access_reach: "rtranclp ring_sys_step st (ring_access spurious t st)"
proof (cases "sys_thread st t")
  case RingIdle
  then show ?thesis by (simp add: ring_access_def)
next
  case (Enqueuing pc)
  then show ?thesis
    using enqueue_access [OF Enqueuing, of spurious] finish_enqueue [of st t]
    by (cases "enq_step spurious pc (sys_ring st)") (auto simp: ring_access_def split: enq_pc.splits)
next
  case (Dequeuing pc)
  then show ?thesis
    using dequeue_access [OF Dequeuing, of spurious] finish_dequeue [of st t]
    by (cases "deq_step spurious pc (sys_ring st)") (auto simp: ring_access_def split: deq_pc.splits)
qed

lemma ring_run_reach: "rtranclp ring_sys_step st (ring_run as st)"
proof (induction as st rule: ring_run.induct)
  case (2 t v as st)
  then show ?case using start_enqueue [of st t v] by (auto intro: converse_rtranclp_into_rtranclp)
next
  case (3 t as st)
  then show ?case using start_dequeue [of st t] by (auto intro: converse_rtranclp_into_rtranclp)
qed (auto intro: rtranclp_trans ring_access_reach)

section \<open>The invariant\<close>

definition ring_cap :: "('a, 'w::len word) ring \<Rightarrow> nat" where
  "ring_cap r = length (r_buffer r)"

definition seq_at :: "('a, 'w::len word) ring \<Rightarrow> nat \<Rightarrow> nat" where
  "seq_at r q = unat (cell_sequence (r_buffer r ! (q mod ring_cap r)))"

definition val_at :: "('a, 'w::len word) ring \<Rightarrow> nat \<Rightarrow> 'a" where
  "val_at r q = cell_value (r_buffer r ! (q mod ring_cap r))"

text \<open>The position a thread has claimed and not yet released, for writing and for reading.\<close>

fun prod_pos :: "('a, 'w::len word) ring_thread \<Rightarrow> nat option" where
  "prod_pos (Enqueuing (EnqWrite v p)) = Some (unat p)"
| "prod_pos (Enqueuing (EnqPublish p)) = Some (unat p)"
| "prod_pos _ = None"

fun cons_pos :: "('a, 'w::len word) ring_thread \<Rightarrow> nat option" where
  "cons_pos (Dequeuing (DeqRead p)) = Some (unat p)"
| "cons_pos (Dequeuing (DeqRelease v p)) = Some (unat p)"
| "cons_pos _ = None"

definition ring_shape :: "('a, 'w::len word) ring \<Rightarrow> bool" where
  "ring_shape r \<longleftrightarrow> (\<exists>k \<ge> 1. k < LENGTH('w) \<and> length (r_buffer r) = 2 ^ k \<and> r_capacity r = 2 ^ k \<and> r_mask r = 2 ^ k - 1)"

text \<open>What a thread at one of its points knows; \<open>cl\<close> are the values claimed, \<open>d\<close> is \<open>sys_taken\<close>.\<close>

fun knows :: "('a, 'w::len word) ring \<Rightarrow> 'a list \<Rightarrow> nat \<Rightarrow> (nat \<times> 'a) list \<Rightarrow> ('a, 'w word) ring_thread \<Rightarrow> bool" where
  "knows r cl d dl (Enqueuing (EnqSeq v p)) \<longleftrightarrow> unat p \<le> length cl"
| "knows r cl d dl (Enqueuing (EnqCas v p)) \<longleftrightarrow>
     unat p \<le> length cl \<and> (unat p = length cl \<longrightarrow> seq_at r (unat p) = unat p)"
| "knows r cl d dl (Enqueuing (EnqWrite v p)) \<longleftrightarrow> cl ! unat p = v"
| "knows r cl d dl (Enqueuing (EnqPublish p)) \<longleftrightarrow> val_at r (unat p) = cl ! unat p"
| "knows r cl d dl (Enqueuing EnqUndefined) \<longleftrightarrow> False"
| "knows r cl d dl (Dequeuing (DeqSeq p)) \<longleftrightarrow> unat p \<le> d"
| "knows r cl d dl (Dequeuing (DeqCas p)) \<longleftrightarrow>
     unat p \<le> d \<and> (unat p = d \<longrightarrow> d < length cl \<and> seq_at r d = Suc d)"
| "knows r cl d dl (Dequeuing (DeqRead p)) \<longleftrightarrow> val_at r (unat p) = cl ! unat p \<and> unat p \<notin> fst ` set dl"
| "knows r cl d dl (Dequeuing (DeqRelease v p)) \<longleftrightarrow> v = cl ! unat p"
| "knows r cl d dl (Dequeuing DeqUndefined) \<longleftrightarrow> False"
| "knows r cl d dl _ \<longleftrightarrow> True"

text \<open>
  The positions claimed for writing and not for reading are live: each is being filled by one
  thread or holds its value.  Every cell without a live position and without a reader is free for
  the next position it will serve.
\<close>

definition ring_inv :: "('a, 'w::len word) ring \<Rightarrow> (nat \<Rightarrow> ('a, 'w word) ring_thread) \<Rightarrow> 'a list \<Rightarrow> nat \<Rightarrow> (nat \<times> 'a) list \<Rightarrow> bool" where
  "ring_inv r th cl d dl \<longleftrightarrow>
     ring_shape r \<and> r_enqueue_pos r = of_nat (length cl) \<and> r_dequeue_pos r = of_nat d \<and>
     d \<le> length cl \<and> length cl \<le> d + ring_cap r \<and>
     (\<forall>q. d \<le> q \<longrightarrow> q < length cl \<longrightarrow>
        (seq_at r q = q \<and> (\<exists>t. prod_pos (th t) = Some q)) \<or> (seq_at r q = Suc q \<and> val_at r q = cl ! q)) \<and>
     (\<forall>i < ring_cap r. (seq_at r i mod ring_cap r = i \<and> length cl \<le> seq_at r i \<and> seq_at r i < length cl + ring_cap r) \<or>
        (\<exists>q. d \<le> q \<and> q < length cl \<and> q mod ring_cap r = i) \<or>
        (\<exists>t q. cons_pos (th t) = Some q \<and> q mod ring_cap r = i)) \<and>
     (\<forall>t q. prod_pos (th t) = Some q \<longrightarrow> d \<le> q \<and> q < length cl \<and> seq_at r q = q) \<and>
     (\<forall>t q. cons_pos (th t) = Some q \<longrightarrow> q < d \<and> seq_at r q = Suc q \<and> length cl \<le> q + ring_cap r) \<and>
     (\<forall>t u q. prod_pos (th t) = Some q \<longrightarrow> prod_pos (th u) = Some q \<longrightarrow> t = u) \<and>
     (\<forall>t u q. cons_pos (th t) = Some q \<longrightarrow> cons_pos (th u) = Some q \<longrightarrow> t = u) \<and>
     (\<forall>t. knows r cl d dl (th t)) \<and>
     (\<forall>(q, v) \<in> set dl. q < d \<and> v = cl ! q) \<and> distinct (map fst dl)"

section \<open>Reading and writing cells\<close>

lemma suc_mod: "1 < c \<Longrightarrow> Suc q mod c \<noteq> q mod (c::nat)"
  by (simp add: mod_Suc)

lemma shape_cap: "ring_shape r \<Longrightarrow> 1 < ring_cap r"
  unfolding ring_shape_def ring_cap_def
  by (metis less_exp one_less_power one_less_numeral_iff semiring_norm(76) Suc_le_eq One_nat_def)

lemma shape_index:
  assumes "ring_shape (r :: ('a, 'w::len word) ring)"
  shows "cell_index r p = unat p mod ring_cap r"
proof -
  obtain k where k: "length (r_buffer r) = 2 ^ k" "r_mask r = 2 ^ k - 1" using assms by (auto simp: ring_shape_def)
  have "p AND r_mask r = take_bit k p" using k by (simp add: take_bit_eq_mask mask_eq_exp_minus_1)
  moreover have "unat (take_bit k p) = take_bit k (unat p)" by (rule unsigned_take_bit_eq)
  then have "unat (take_bit k p) = unat p mod 2 ^ k" unfolding take_bit_eq_mod [of k "unat p"] .
  ultimately show ?thesis using k by (simp add: cell_index_def ring_cap_def)
qed

lemma shape_capacity: "ring_shape (r :: ('a, 'w::len word) ring) \<Longrightarrow> r_capacity r = of_nat (ring_cap r)"
  by (auto simp: ring_shape_def ring_cap_def)

lemma cell_at_shape: "ring_shape r \<Longrightarrow> cell_at r p = Some (r_buffer r ! (unat p mod ring_cap r))"
proof -
  assume "ring_shape r"
  moreover from this have "unat p mod ring_cap r < length (r_buffer r)"
    using shape_cap [of r] by (simp add: ring_cap_def [symmetric])
  ultimately show ?thesis by (simp add: cell_at_def shape_index)
qed

lemma update_cell_fields [simp]:
  "r_capacity (update_cell p f r) = r_capacity r" "r_mask (update_cell p f r) = r_mask r"
  "r_enqueue_pos (update_cell p f r) = r_enqueue_pos r" "r_dequeue_pos (update_cell p f r) = r_dequeue_pos r"
  "ring_cap (update_cell p f r) = ring_cap r" "ring_shape (update_cell p f r) = ring_shape r"
  by (simp_all add: update_cell_def ring_cap_def ring_shape_def)

lemma cell_update:
  assumes "ring_shape r"
  shows "r_buffer (update_cell p f r) ! (q mod ring_cap r) =
    (if q mod ring_cap r = unat p mod ring_cap r then f (r_buffer r ! (q mod ring_cap r))
     else r_buffer r ! (q mod ring_cap r))"
proof -
  have "unat p mod ring_cap r < length (r_buffer r)"
    using shape_cap [OF assms] by (simp add: ring_cap_def [symmetric])
  then show ?thesis by (simp add: update_cell_def shape_index [OF assms] nth_list_update)
qed

lemma seq_update:
  assumes "ring_shape r"
  shows "seq_at (update_cell p (\<lambda>c. c\<lparr>cell_sequence := x\<rparr>) r) q =
      (if q mod ring_cap r = unat p mod ring_cap r then unat x else seq_at r q)"
    "val_at (update_cell p (\<lambda>c. c\<lparr>cell_sequence := x\<rparr>) r) q = val_at r q"
    "seq_at (update_cell p (\<lambda>c. c\<lparr>cell_value := g c\<rparr>) r) q = seq_at r q"
    "val_at (update_cell p (\<lambda>c. c\<lparr>cell_value := g c\<rparr>) r) q =
      (if q mod ring_cap r = unat p mod ring_cap r then g (r_buffer r ! (q mod ring_cap r)) else val_at r q)"
  using assms by (simp_all add: seq_at_def val_at_def cell_update)

lemma pos_fields [simp]:
  "seq_at (r\<lparr>r_enqueue_pos := x\<rparr>) q = seq_at r q" "val_at (r\<lparr>r_enqueue_pos := x\<rparr>) q = val_at r q"
  "seq_at (r\<lparr>r_dequeue_pos := x\<rparr>) q = seq_at r q" "val_at (r\<lparr>r_dequeue_pos := x\<rparr>) q = val_at r q"
  "ring_cap (r\<lparr>r_enqueue_pos := x\<rparr>) = ring_cap r" "ring_cap (r\<lparr>r_dequeue_pos := x\<rparr>) = ring_cap r"
  "ring_shape (r\<lparr>r_enqueue_pos := x\<rparr>) = ring_shape r" "ring_shape (r\<lparr>r_dequeue_pos := x\<rparr>) = ring_shape r"
  by (simp_all add: seq_at_def val_at_def ring_cap_def ring_shape_def)

lemma seq_cong: "q mod ring_cap r = q' mod ring_cap r \<Longrightarrow> seq_at r q = seq_at r q'"
  by (simp add: seq_at_def)

lemma val_cong: "q mod ring_cap r = q' mod ring_cap r \<Longrightarrow> val_at r q = val_at r q'"
  by (simp add: val_at_def)

text \<open>Below half of the word's range positions are themselves and subtraction does not overflow.\<close>

lemma unat_suc_small: "unat (p :: 'w::len word) + 1 < 2 ^ LENGTH('w) \<Longrightarrow> unat (p + 1) = Suc (unat p)"
  by (metis Suc_eq_plus1 unat_add_lem unsigned_1)

lemma half_range: "(n::nat) < 2 ^ (LENGTH('w::len) - 1) \<Longrightarrow> n < 2 ^ LENGTH('w)"
  by (meson diff_le_self less_le_trans one_le_numeral power_increasing)

lemma sint_small:
  assumes "unat (p :: 'w::len word) < 2 ^ (LENGTH('w) - 1)"
  shows "sint p = int (unat p)"
proof -
  have "int (unat p) < int (2 ^ (LENGTH('w) - 1))" using assms by (simp only: of_nat_less_iff)
  then have "uint p < 2 ^ (LENGTH('w) - 1)" by simp
  moreover have "- (2 ^ (LENGTH('w) - 1)) \<le> uint p" by (rule order_trans [of _ 0]) simp_all
  ultimately have "signed_take_bit (LENGTH('w) - Suc 0) (uint p) = uint p"
    by (intro signed_take_bit_int_eq_self) simp_all
  then show ?thesis by (simp add: sint_uint)
qed

lemma signed_diff_small:
  assumes a: "unat (a :: 'w::len word) < 2 ^ (LENGTH('w) - 1)" and b: "unat b < 2 ^ (LENGTH('w) - 1)"
  shows "signed_diff a b = Some (int (unat a) - int (unat b))"
proof -
  have "int (unat a) < int (2 ^ (LENGTH('w) - 1))" "int (unat b) < int (2 ^ (LENGTH('w) - 1))"
    using a b by (simp_all only: of_nat_less_iff)
  then have "int (unat a) < 2 ^ (LENGTH('w) - 1)" "int (unat b) < 2 ^ (LENGTH('w) - 1)"
    by (simp_all only: of_nat_power of_nat_numeral)
  moreover have "0 \<le> int (unat a)" "0 \<le> int (unat b)" by simp_all
  ultimately have "- (2 ^ (LENGTH('w) - 1)) \<le> int (unat a) - int (unat b)"
    "int (unat a) - int (unat b) < 2 ^ (LENGTH('w) - 1)" by linarith+
  then show ?thesis unfolding signed_diff_def sint_small [OF a] sint_small [OF b] Let_def by simp
qed

section \<open>Every step keeps the invariant\<close>

text \<open>The parts of the invariant, by name.\<close>

lemma ring_invD:
  assumes "ring_inv r th cl d dl"
  shows "ring_shape r" "r_enqueue_pos r = of_nat (length cl)" "r_dequeue_pos r = of_nat d"
    "d \<le> length cl" "length cl \<le> d + ring_cap r"
    "d \<le> q \<Longrightarrow> q < length cl \<Longrightarrow>
      (seq_at r q = q \<and> (\<exists>t. prod_pos (th t) = Some q)) \<or> (seq_at r q = Suc q \<and> val_at r q = cl ! q)"
    "i < ring_cap r \<Longrightarrow>
      (seq_at r i mod ring_cap r = i \<and> length cl \<le> seq_at r i \<and> seq_at r i < length cl + ring_cap r) \<or>
      (\<exists>q. d \<le> q \<and> q < length cl \<and> q mod ring_cap r = i) \<or>
      (\<exists>t q. cons_pos (th t) = Some q \<and> q mod ring_cap r = i)"
    "prod_pos (th t) = Some q \<Longrightarrow> d \<le> q \<and> q < length cl \<and> seq_at r q = q"
    "cons_pos (th t) = Some q \<Longrightarrow> q < d \<and> seq_at r q = Suc q \<and> length cl \<le> q + ring_cap r"
    "prod_pos (th t) = Some q \<Longrightarrow> prod_pos (th u) = Some q \<Longrightarrow> t = u"
    "cons_pos (th t) = Some q \<Longrightarrow> cons_pos (th u) = Some q \<Longrightarrow> t = u"
    "knows r cl d dl (th t)"
    "(q, v) \<in> set dl \<Longrightarrow> q < d \<and> v = cl ! q"
    "distinct (map fst dl)"
  using assms unfolding ring_inv_def by (blast | fastforce)+

text \<open>A thread moves between points at which it owns no position.\<close>

lemma inv_move:
  assumes inv: "ring_inv r th cl d dl"
    and own: "prod_pos (th t) = None" "cons_pos (th t) = None" "prod_pos pc = None" "cons_pos pc = None"
    and k: "knows r cl d dl pc"
  shows "ring_inv r (th(t := pc)) cl d dl"
proof -
  have p: "prod_pos ((th(t := pc)) u) = prod_pos (th u)" "cons_pos ((th(t := pc)) u) = cons_pos (th u)" for u
    using own by simp_all
  have "knows r cl d dl ((th(t := pc)) u)" for u using inv k by (simp add: ring_inv_def)
  with inv show ?thesis unfolding ring_inv_def p by blast
qed

text \<open>What another thread knows is not disturbed.\<close>

lemma knows_upto:
  assumes "knows r cl d dl pc"
    and "length cl \<le> length cl'" and "\<And>q. q < length cl \<Longrightarrow> cl' ! q = cl ! q" and "d \<le> d'"
    and "length cl' = length cl \<Longrightarrow> seq_at r (length cl) = length cl \<Longrightarrow> seq_at r' (length cl) = length cl"
    and "d' = d \<Longrightarrow> d < length cl \<Longrightarrow> seq_at r d = Suc d \<Longrightarrow> seq_at r' d = Suc d"
    and "\<And>q. prod_pos pc = Some q \<or> cons_pos pc = Some q \<Longrightarrow> q < length cl \<and> (val_at r q = cl ! q \<longrightarrow> val_at r' q = cl ! q)"
    and "\<And>q. cons_pos pc = Some q \<Longrightarrow> q \<notin> fst ` set dl \<Longrightarrow> q \<notin> fst ` set dl'"
  shows "knows r' cl' d' dl' pc"
  using assms by (cases "(r, cl, d, dl, pc)" rule: knows.cases) (auto 0 3 simp: le_less)

lemma ring_invI:
  assumes "ring_shape r" "r_enqueue_pos r = of_nat (length cl)" "r_dequeue_pos r = of_nat d"
    "d \<le> length cl" "length cl \<le> d + ring_cap r"
    "\<And>q. d \<le> q \<Longrightarrow> q < length cl \<Longrightarrow>
      (seq_at r q = q \<and> (\<exists>t. prod_pos (th t) = Some q)) \<or> (seq_at r q = Suc q \<and> val_at r q = cl ! q)"
    "\<And>i. i < ring_cap r \<Longrightarrow>
      (seq_at r i mod ring_cap r = i \<and> length cl \<le> seq_at r i \<and> seq_at r i < length cl + ring_cap r) \<or>
      (\<exists>q. d \<le> q \<and> q < length cl \<and> q mod ring_cap r = i) \<or>
      (\<exists>t q. cons_pos (th t) = Some q \<and> q mod ring_cap r = i)"
    "\<And>t q. prod_pos (th t) = Some q \<Longrightarrow> d \<le> q \<and> q < length cl \<and> seq_at r q = q"
    "\<And>t q. cons_pos (th t) = Some q \<Longrightarrow> q < d \<and> seq_at r q = Suc q \<and> length cl \<le> q + ring_cap r"
    "\<And>t u q. prod_pos (th t) = Some q \<Longrightarrow> prod_pos (th u) = Some q \<Longrightarrow> t = u"
    "\<And>t u q. cons_pos (th t) = Some q \<Longrightarrow> cons_pos (th u) = Some q \<Longrightarrow> t = u"
    "\<And>t. knows r cl d dl (th t)"
    "\<And>q v. (q, v) \<in> set dl \<Longrightarrow> q < d \<and> v = cl ! q" "distinct (map fst dl)"
  shows "ring_inv r th cl d dl"
  unfolding ring_inv_def using assms by (intro conjI) (assumption | blast | fastforce)+

lemma inv_claim:
  assumes inv: "ring_inv r th cl d dl" and t: "th t = Enqueuing (EnqCas v p)" and p: "r_enqueue_pos r = p"
    and small: "length cl + ring_cap r < 2 ^ (LENGTH('w::len) - 1)"
  shows "ring_inv (r\<lparr>r_enqueue_pos := (p :: 'w word) + 1\<rparr>) (th(t := Enqueuing (EnqWrite v p))) (cl @ [v]) d dl"
proof -
  note I = ring_invD [OF inv]
  let ?E = "length cl" and ?c = "ring_cap r" and ?th = "th(t := Enqueuing (EnqWrite v p))"
  have c: "1 < ?c" using shape_cap I(1) by blast
  have "?E < 2 ^ LENGTH('w)" using small by (intro half_range) simp
  then have pE: "unat p = ?E" unfolding p [symmetric] I(2) by (rule unat_of_nat_fits)
  have sE: "seq_at r ?E = ?E" using I(12) [of t] t pE by simp
  have none: "prod_pos (th t) = None" "cons_pos (th t) = None" using t by simp_all
  have room: "?E < d + ?c"
  proof (rule ccontr)
    assume "\<not> ?E < d + ?c"
    then have E: "?E = d + ?c" using I(5) by simp
    then have "seq_at r d = ?E" using sE seq_cong [of d r ?E] by simp
    then show False using I(6) [of d] E c by auto
  qed
  have prod: "prod_pos (?th u) = (if u = t then Some ?E else prod_pos (th u))" for u using pE by simp
  have cons: "cons_pos (?th u) = cons_pos (th u)" for u using none by simp
  have writers: "d \<le> q \<and> q < Suc ?E \<and> seq_at r q = q" if "prod_pos (th u) = Some q" for u q
    using I(8) [OF that] by simp
  have seen: "q < d \<and> x = (cl @ [v]) ! q" if "(q, x) \<in> set dl" for q x
    using I(13) [OF that] I(4) by (simp add: nth_append)
  have readers: "Suc ?E \<le> q + ?c" if "cons_pos (th u) = Some q" for u q
  proof (rule ccontr)
    assume "\<not> Suc ?E \<le> q + ?c"
    then have "?E = q + ?c" using I(9) [OF that] by simp
    then have "seq_at r q = ?E" using sE seq_cong [of q r ?E] by simp
    then show False using I(9) [OF that] \<open>?E = q + ?c\<close> c by simp
  qed
  show ?thesis
  proof (rule ring_invI, unfold pos_fields length_append prod cons)
    show "(seq_at r q = q \<and> (\<exists>u. (if u = t then Some ?E else prod_pos (th u)) = Some q)) \<or>
        (seq_at r q = Suc q \<and> val_at r q = (cl @ [v]) ! q)" if "d \<le> q" "q < ?E + length [v]" for q
    proof (cases "q = ?E")
      case False
      then have "q < ?E" using that by simp
      have other: "u \<noteq> t" if "prod_pos (th u) = Some q" for u using that none by auto
      from I(6) [OF \<open>d \<le> q\<close> \<open>q < ?E\<close>] show ?thesis
      proof (elim disjE conjE exE)
        fix u assume "seq_at r q = q" "prod_pos (th u) = Some q"
        then show ?thesis using other by (intro disjI1 conjI exI [of _ u]) simp_all
      qed (use \<open>q < ?E\<close> in \<open>simp add: nth_append\<close>)
    qed (use sE in auto)
    show "(seq_at r i mod ?c = i \<and> ?E + length [v] \<le> seq_at r i \<and> seq_at r i < ?E + length [v] + ?c) \<or>
        (\<exists>q. d \<le> q \<and> q < ?E + length [v] \<and> q mod ?c = i) \<or> (\<exists>u q. cons_pos (th u) = Some q \<and> q mod ?c = i)"
      if "i < ?c" for i
    proof (cases "seq_at r i = ?E \<and> seq_at r i mod ?c = i")
      case True
      then have "d \<le> ?E \<and> ?E < ?E + length [v] \<and> ?E mod ?c = i" using I(4) by auto
      then show ?thesis by blast
    next
      case False
      then have "seq_at r i mod ?c = i \<Longrightarrow> ?E \<le> seq_at r i \<Longrightarrow> Suc ?E \<le> seq_at r i"
        by (auto simp: Suc_le_eq le_less)
      with I(7) [OF that] show ?thesis by (auto intro: less_SucI)
    qed
    show "knows (r\<lparr>r_enqueue_pos := p + 1\<rparr>) (cl @ [v]) d dl (?th u)" for u
    proof (cases "u = t")
      case False
      have "q < ?E" if "prod_pos (th u) = Some q \<or> cons_pos (th u) = Some q" for q
        using that I(8) [of u q] I(9) [of u q] I(4) by auto
      then show ?thesis using False by (simp, intro knows_upto [OF I(12)]) (auto simp: nth_append)
    qed (use pE in simp)
  qed (use I(1-5,8-11,14) room readers writers seen sE in \<open>auto simp: p split: if_splits\<close>)
qed

text \<open>The number in a cell decides which position the cell stands for.\<close>

lemma same_cell:
  assumes c: "1 < ring_cap r" and m: "q mod ring_cap r = q' mod ring_cap r"
  shows "seq_at r q = q \<Longrightarrow> seq_at r q' = q' \<Longrightarrow> q = q'"
    and "seq_at r q = Suc q \<Longrightarrow> seq_at r q' = Suc q' \<Longrightarrow> q = q'"
    and "seq_at r q = q \<Longrightarrow> seq_at r q' = Suc q' \<Longrightarrow> False"
proof -
  have s: "seq_at r q = seq_at r q'" by (rule seq_cong [OF m])
  show "q = q'" if "seq_at r q = q" "seq_at r q' = q'"
    using s unfolding that .
  show "q = q'" if "seq_at r q = Suc q" "seq_at r q' = Suc q'"
    using s unfolding that by (rule Suc_inject)
  show False if "seq_at r q = q" "seq_at r q' = Suc q'"
    using s m suc_mod [OF c, of q'] unfolding that by metis
qed

lemma inv_write:
  assumes inv: "ring_inv r th cl d dl" and t: "th t = Enqueuing (EnqWrite v p)"
  shows "ring_inv (update_cell p (\<lambda>c. c\<lparr>cell_value := v\<rparr>) r) (th(t := Enqueuing (EnqPublish p))) cl d dl"
proof -
  note I = ring_invD [OF inv]
  define r' where "r' = update_cell p (\<lambda>c. c\<lparr>cell_value := v\<rparr>) r"
  define th' where "th' = th(t := Enqueuing (EnqPublish p))"
  let ?q = "unat p"
  have c: "1 < ring_cap r" using shape_cap I(1) by blast
  have own: "prod_pos (th t) = Some ?q" and q: "?q < length cl" "seq_at r ?q = ?q" and v: "cl ! ?q = v"
    using t I(8) [of t ?q] I(12) [of t] by simp_all
  have prod: "prod_pos (th' u) = prod_pos (th u)" and cons: "cons_pos (th' u) = cons_pos (th u)" for u
    using t by (simp_all add: th'_def)
  have same: "ring_shape r'" "ring_cap r' = ring_cap r" "r_enqueue_pos r' = r_enqueue_pos r"
    "r_dequeue_pos r' = r_dequeue_pos r" "seq_at r' x = seq_at r x" for x
    by (simp_all add: r'_def seq_update I(1))
  have val: "val_at r' x = (if x mod ring_cap r = ?q mod ring_cap r then v else val_at r x)" for x
    by (simp add: r'_def seq_update I(1))
  have live: "x mod ring_cap r \<noteq> ?q mod ring_cap r" if "seq_at r x = Suc x" for x
    using same_cell(3) [OF c _ q(2) that] by metis
  have mine: "x mod ring_cap r \<noteq> ?q mod ring_cap r" if "prod_pos (th u) = Some x" "u \<noteq> t" for u x
    using same_cell(1) [OF c _ _ q(2), of x] I(8) [OF that(1)] I(10) [OF _ own, of u] that by metis
  have "knows r' cl d dl (th' u)" for u
  proof (cases "u = t")
    case False
    have "x < length cl \<and> (val_at r x = cl ! x \<longrightarrow> val_at r' x = cl ! x)"
      if "prod_pos (th u) = Some x \<or> cons_pos (th u) = Some x" for x
      using that mine [of u x] False live [of x] I(8) [of u x] I(9) [of u x] I(4) by (auto simp: val)
    then show ?thesis using False unfolding th'_def by (simp, intro knows_upto [OF I(12)]) (auto simp: same)
  qed (simp add: th'_def val v)
  moreover have "(seq_at r x = x \<and> (\<exists>u. prod_pos (th u) = Some x)) \<or> (seq_at r x = Suc x \<and> val_at r' x = cl ! x)"
    if "d \<le> x" "x < length cl" for x
    using I(6) [OF that] live [of x] by (auto simp: val)
  ultimately show ?thesis
    unfolding r'_def [symmetric] th'_def [symmetric]
    using I(2-5,7-11,13,14) by (intro ring_invI) (simp_all only: prod cons same)
qed

lemma inv_publish:
  assumes inv: "ring_inv r th cl d dl" and t: "th t = Enqueuing (EnqPublish p)"
    and small: "length cl + ring_cap r < 2 ^ (LENGTH('w::len) - 1)"
  shows "ring_inv (update_cell (p :: 'w word) (\<lambda>c. c\<lparr>cell_sequence := p + 1\<rparr>) r) (th(t := Enqueuing (EnqDone True))) cl d dl"
proof -
  note I = ring_invD [OF inv]
  define r' where "r' = update_cell p (\<lambda>c. c\<lparr>cell_sequence := p + 1\<rparr>) r"
  define th' where "th' = th(t := Enqueuing (EnqDone True))"
  let ?q = "unat p"
  have c: "1 < ring_cap r" using shape_cap I(1) by blast
  have own: "prod_pos (th t) = Some ?q" and q: "d \<le> ?q" "?q < length cl" "seq_at r ?q = ?q" and v: "val_at r ?q = cl ! ?q"
    using t I(8) [of t ?q] I(12) [of t] by simp_all
  have "?q + 1 < 2 ^ LENGTH('w)" using q small by (intro half_range) simp
  then have p1: "unat (p + 1) = Suc ?q" by (rule unat_suc_small)
  have prod: "prod_pos (th' u) = (if u = t then None else prod_pos (th u))" and cons: "cons_pos (th' u) = cons_pos (th u)" for u
    using t by (simp_all add: th'_def)
  have shape: "ring_shape r'" by (simp add: r'_def I(1))
  have same: "ring_cap r' = ring_cap r" "r_enqueue_pos r' = r_enqueue_pos r"
    "r_dequeue_pos r' = r_dequeue_pos r" "val_at r' x = val_at r x" for x
    by (simp_all add: r'_def seq_update I(1))
  have seq: "seq_at r' x = (if x mod ring_cap r = ?q mod ring_cap r then Suc ?q else seq_at r x)" for x
    by (simp add: r'_def seq_update I(1) p1)
  have live: "x mod ring_cap r \<noteq> ?q mod ring_cap r" if "seq_at r x = Suc x" for x
    using same_cell(3) [OF c _ q(3) that] by metis
  have fill: "x mod ring_cap r = ?q mod ring_cap r \<Longrightarrow> x = ?q" if "seq_at r x = x" for x
    using same_cell(1) [OF c _ that q(3)] by metis
  have mine: "x mod ring_cap r \<noteq> ?q mod ring_cap r" if "prod_pos (th u) = Some x" "u \<noteq> t" for u x
    using fill [of x] I(8) [OF that(1)] I(10) [OF _ own, of u] that by metis
  have K: "knows r' cl d dl (th' u)" for u
  proof (cases "u = t")
    case False
    have "x < length cl" if "prod_pos (th u) = Some x \<or> cons_pos (th u) = Some x" for x
      using that I(8) [of u x] I(9) [of u x] I(4) by auto
    then show ?thesis
      using False fill [of "length cl"] q live [of d] unfolding th'_def
      by (simp, intro knows_upto [OF I(12)]) (auto simp: seq same)
  qed (simp add: th'_def)
  have L: "(seq_at r' x = x \<and> (\<exists>u. prod_pos (th' u) = Some x)) \<or> (seq_at r' x = Suc x \<and> val_at r x = cl ! x)"
    if "d \<le> x" "x < length cl" for x
  proof (cases "x = ?q")
    case False
    from I(6) [OF that] show ?thesis
    proof (elim disjE conjE exE)
      fix u assume u: "seq_at r x = x" "prod_pos (th u) = Some x"
      then have "u \<noteq> t" using own False by auto
      with mine [OF u(2)] u show ?thesis by (intro disjI1 conjI exI [of _ u]) (simp_all add: seq prod)
    qed (use live in \<open>simp add: seq same\<close>)
  qed (simp add: seq same v)
  have F: "(seq_at r' i mod ring_cap r = i \<and> length cl \<le> seq_at r' i \<and> seq_at r' i < length cl + ring_cap r) \<or>
      (\<exists>x. d \<le> x \<and> x < length cl \<and> x mod ring_cap r = i) \<or> (\<exists>u x. cons_pos (th u) = Some x \<and> x mod ring_cap r = i)"
    if "i < ring_cap r" for i
  proof (cases "i = ?q mod ring_cap r")
    case False
    then have "seq_at r' i = seq_at r i" using that by (simp add: seq)
    with I(7) [OF that] show ?thesis by (simp only:)
  qed (use q in blast)
  have W: "d \<le> x \<and> x < length cl \<and> seq_at r' x = x" if "prod_pos (th' u) = Some x" for u x
    using that I(8) [of u x] mine [of u x] by (auto simp: prod seq split: if_splits)
  have R: "x < d \<and> seq_at r' x = Suc x \<and> length cl \<le> x + ring_cap r" if "cons_pos (th u) = Some x" for u x
    using I(9) [OF that] live [of x] by (auto simp: seq)
  have U: "prod_pos (th' t1) = Some x \<Longrightarrow> prod_pos (th' t2) = Some x \<Longrightarrow> t1 = t2" for t1 t2 x
    using I(10) by (auto simp: prod split: if_splits)
  show ?thesis
    unfolding r'_def [symmetric] th'_def [symmetric]
    by (rule ring_invI, unfold same cons) (fact shape I(2-5,11,13,14) L F W R U K)+
qed

lemma inv_take:
  assumes inv: "ring_inv r th cl d dl" and t: "th t = Dequeuing (DeqCas p)" and p: "r_dequeue_pos r = p"
    and small: "length cl + ring_cap r < 2 ^ (LENGTH('w::len) - 1)"
  shows "ring_inv (r\<lparr>r_dequeue_pos := (p :: 'w word) + 1\<rparr>) (th(t := Dequeuing (DeqRead p))) cl (Suc d) dl"
proof -
  note I = ring_invD [OF inv]
  define r' where "r' = r\<lparr>r_dequeue_pos := p + 1\<rparr>"
  define th' where "th' = th(t := Dequeuing (DeqRead p))"
  have "d < 2 ^ LENGTH('w)" using small I(4) by (intro half_range) simp
  then have pd: "unat p = d" unfolding p [symmetric] I(3) by (rule unat_of_nat_fits)
  have d: "d < length cl" "seq_at r d = Suc d" using I(12) [of t] t pd by simp_all
  have val: "val_at r d = cl ! d" using I(6) [of d] d by auto
  have none: "prod_pos (th t) = None" "cons_pos (th t) = None" using t by simp_all
  have prod: "prod_pos (th' u) = prod_pos (th u)" and cons: "cons_pos (th' u) = (if u = t then Some d else cons_pos (th u))" for u
    using t pd by (simp_all add: th'_def)
  have same: "ring_cap r' = ring_cap r" "r_enqueue_pos r' = r_enqueue_pos r" "seq_at r' x = seq_at r x" "val_at r' x = val_at r x" for x
    by (simp_all add: r'_def)
  have shape: "ring_shape r'" by (simp add: r'_def I(1))
  have pos: "r_dequeue_pos r' = of_nat (Suc d)" using p I(3) by (simp add: r'_def)
  have cnt: "Suc d \<le> length cl" "length cl \<le> Suc d + ring_cap r" using d I(5) by simp_all
  have L: "(seq_at r x = x \<and> (\<exists>u. prod_pos (th u) = Some x)) \<or> (seq_at r x = Suc x \<and> val_at r x = cl ! x)"
    if "Suc d \<le> x" "x < length cl" for x
    using I(6) [of x] that by simp
  have F: "(seq_at r i mod ring_cap r = i \<and> length cl \<le> seq_at r i \<and> seq_at r i < length cl + ring_cap r) \<or>
      (\<exists>x. Suc d \<le> x \<and> x < length cl \<and> x mod ring_cap r = i) \<or> (\<exists>u x. cons_pos (th' u) = Some x \<and> x mod ring_cap r = i)"
    if "i < ring_cap r" for i
    using I(7) [OF that]
  proof (elim disjE conjE exE)
    fix x assume x: "d \<le> x" "x < length cl" "x mod ring_cap r = i"
    show ?thesis
    proof (cases "x = d")
      case True
      then have "cons_pos (th' t) = Some x \<and> x mod ring_cap r = i" using x by (simp add: cons)
      then show ?thesis by blast
    next
      case False
      then have "Suc d \<le> x" using x by simp
      then show ?thesis using x by blast
    qed
  next
    fix u x assume x: "cons_pos (th u) = Some x" "x mod ring_cap r = i"
    then have "u \<noteq> t" using none by auto
    with x have "cons_pos (th' u) = Some x \<and> x mod ring_cap r = i" by (simp add: cons)
    then show ?thesis by blast
  qed simp
  have W: "Suc d \<le> x \<and> x < length cl \<and> seq_at r x = x" if "prod_pos (th u) = Some x" for u x
    using I(8) [OF that] d by (cases "x = d") auto
  have R: "x < Suc d \<and> seq_at r x = Suc x \<and> length cl \<le> x + ring_cap r" if "cons_pos (th' u) = Some x" for u x
    using that I(9) [of u x] d I(5) by (auto simp: cons split: if_splits)
  have U: "cons_pos (th' t1) = Some x \<Longrightarrow> cons_pos (th' t2) = Some x \<Longrightarrow> t1 = t2" for t1 t2 x
    using I(9) [of t1 x] I(9) [of t2 x] I(11) [of t1 x t2] by (auto simp: cons split: if_splits)
  have S: "x < Suc d \<and> v = cl ! x" if "(x, v) \<in> set dl" for x v using I(13) [OF that] by simp
  have fresh: "d \<notin> fst ` set dl" using I(13) by fastforce
  have K: "knows r' cl (Suc d) dl (th' u)" for u
  proof (cases "u = t")
    case False
    have "x < length cl" if "prod_pos (th u) = Some x \<or> cons_pos (th u) = Some x" for x
      using that I(8) [of u x] I(9) [of u x] I(4) by auto
    then show ?thesis using False unfolding th'_def by (simp, intro knows_upto [OF I(12)]) (auto simp: same)
  qed (use pd val fresh in \<open>simp add: th'_def same\<close>)
  show ?thesis
    unfolding r'_def [symmetric] th'_def [symmetric]
    by (rule ring_invI, unfold same prod) (fact shape pos cnt I(2,10,14) L F W R U K S)+
qed

lemma inv_read:
  assumes inv: "ring_inv r th cl d dl" and t: "th t = Dequeuing (DeqRead p)"
    and v: "v = cell_value (r_buffer r ! cell_index r p)"
  shows "ring_inv (update_cell p (\<lambda>c. c\<lparr>cell_value := f (cell_value c)\<rparr>) r) (th(t := Dequeuing (DeqRelease v p))) cl d
    (dl @ [(unat p, v)])"
proof -
  note I = ring_invD [OF inv]
  define r' where "r' = update_cell p (\<lambda>c. c\<lparr>cell_value := f (cell_value c)\<rparr>) r"
  define th' where "th' = th(t := Dequeuing (DeqRelease v p))"
  define dl' where "dl' = dl @ [(unat p, v)]"
  let ?q = "unat p"
  have c: "1 < ring_cap r" using shape_cap I(1) by blast
  have own: "cons_pos (th t) = Some ?q" and q: "?q < d" "seq_at r ?q = Suc ?q"
    and val: "val_at r ?q = cl ! ?q" and fresh: "?q \<notin> fst ` set dl"
    using t I(9) [of t ?q] I(12) [of t] by simp_all
  have v: "v = cl ! ?q" using v val by (simp add: val_at_def shape_index I(1))
  have prod: "prod_pos (th' u) = prod_pos (th u)" and cons: "cons_pos (th' u) = cons_pos (th u)" for u
    using t by (simp_all add: th'_def)
  have same: "ring_cap r' = ring_cap r" "r_enqueue_pos r' = r_enqueue_pos r" "r_dequeue_pos r' = r_dequeue_pos r"
    "seq_at r' x = seq_at r x" for x
    by (simp_all add: r'_def seq_update I(1))
  have shape: "ring_shape r'" by (simp add: r'_def I(1))
  have val': "val_at r' x = val_at r x" if "x mod ring_cap r \<noteq> ?q mod ring_cap r" for x
    using that by (simp add: r'_def seq_update I(1))
  have fill: "x mod ring_cap r \<noteq> ?q mod ring_cap r" if "seq_at r x = x" for x
    using same_cell(3) [OF c _ that q(2)] by metis
  have full: "x mod ring_cap r = ?q mod ring_cap r \<Longrightarrow> x = ?q" if "seq_at r x = Suc x" for x
    using same_cell(2) [OF c _ that q(2)] by metis
  have L: "(seq_at r x = x \<and> (\<exists>u. prod_pos (th u) = Some x)) \<or> (seq_at r x = Suc x \<and> val_at r' x = cl ! x)"
    if "d \<le> x" "x < length cl" for x
    using I(6) [OF that] full [of x] val' [of x] that q(1)
    by (cases "x mod ring_cap r = ?q mod ring_cap r") auto
  have K: "knows r' cl d dl' (th' u)" for u
  proof (cases "u = t")
    case False
    have "x < length cl \<and> (val_at r x = cl ! x \<longrightarrow> val_at r' x = cl ! x)"
      if "prod_pos (th u) = Some x \<or> cons_pos (th u) = Some x" for x
    proof -
      have "x mod ring_cap r \<noteq> ?q mod ring_cap r"
        using that fill [of x] full [of x] I(8) [of u x] I(9) [of u x] I(11) [OF _ own, of u] False by metis
      then show ?thesis using val' [of x] that I(8) [of u x] I(9) [of u x] I(4) by auto
    qed
    moreover have "x \<noteq> ?q" if "cons_pos (th u) = Some x" for x using I(11) [OF _ own, of u] that False by auto
    ultimately show ?thesis
      using False unfolding th'_def by (simp, intro knows_upto [OF I(12)]) (auto simp: same dl'_def)
  qed (simp add: th'_def v)
  have S: "x < d \<and> y = cl ! x" if "(x, y) \<in> set dl'" for x y
    using that I(13) [of x y] q(1) v by (auto simp: dl'_def)
  have D: "distinct (map fst dl')" using I(14) fresh by (simp add: dl'_def)
  show ?thesis
    unfolding r'_def [symmetric] th'_def [symmetric] dl'_def [symmetric]
    by (rule ring_invI, unfold same prod cons) (fact shape I(2-5,7-11) L K S D)+
qed

lemma inv_release:
  assumes inv: "ring_inv r th cl d dl" and t: "th t = Dequeuing (DeqRelease v p)"
    and small: "length cl + ring_cap r < 2 ^ (LENGTH('w::len) - 1)"
  shows "ring_inv (update_cell (p :: 'w word) (\<lambda>c. c\<lparr>cell_sequence := p + r_capacity r\<rparr>) r)
    (th(t := Dequeuing (DeqDone (Some v)))) cl d dl"
proof -
  note I = ring_invD [OF inv]
  define r' where "r' = update_cell p (\<lambda>c. c\<lparr>cell_sequence := p + r_capacity r\<rparr>) r"
  define th' where "th' = th(t := Dequeuing (DeqDone (Some v)))"
  let ?q = "unat p" and ?c = "ring_cap r"
  have c: "1 < ?c" using shape_cap I(1) by blast
  have own: "cons_pos (th t) = Some ?q" and q: "?q < d" "seq_at r ?q = Suc ?q" "length cl \<le> ?q + ?c"
    using t I(9) [of t ?q] by simp_all
  have "?q + ?c < 2 ^ LENGTH('w)" using q small I(4) by (intro half_range) simp
  moreover have "p + r_capacity r = of_nat (?q + ?c)" by (simp add: shape_capacity [OF I(1)])
  ultimately have pc: "unat (p + r_capacity r) = ?q + ?c" using unat_of_nat_fits by metis
  have prod: "prod_pos (th' u) = prod_pos (th u)" and cons: "cons_pos (th' u) = (if u = t then None else cons_pos (th u))" for u
    using t by (simp_all add: th'_def)
  have same: "ring_cap r' = ?c" "r_enqueue_pos r' = r_enqueue_pos r" "r_dequeue_pos r' = r_dequeue_pos r"
    "val_at r' x = val_at r x" for x
    by (simp_all add: r'_def seq_update I(1))
  have shape: "ring_shape r'" by (simp add: r'_def I(1))
  have seq: "seq_at r' x = (if x mod ?c = ?q mod ?c then ?q + ?c else seq_at r x)" for x
    by (simp add: r'_def seq_update I(1) pc)
  have fill: "x mod ?c \<noteq> ?q mod ?c" if "seq_at r x = x" for x
    using same_cell(3) [OF c _ that q(2)] by metis
  have full: "x mod ?c = ?q mod ?c \<Longrightarrow> x = ?q" if "seq_at r x = Suc x" for x
    using same_cell(2) [OF c _ that q(2)] by metis
  have L: "(seq_at r' x = x \<and> (\<exists>u. prod_pos (th u) = Some x)) \<or> (seq_at r' x = Suc x \<and> val_at r x = cl ! x)"
    if "d \<le> x" "x < length cl" for x
    using I(6) [OF that] full [of x] fill [of x] that q(1) by (auto simp: seq)
  have F: "(seq_at r' i mod ?c = i \<and> length cl \<le> seq_at r' i \<and> seq_at r' i < length cl + ?c) \<or>
      (\<exists>x. d \<le> x \<and> x < length cl \<and> x mod ?c = i) \<or> (\<exists>u x. cons_pos (th' u) = Some x \<and> x mod ?c = i)"
    if "i < ?c" for i
  proof (cases "i = ?q mod ?c")
    case True
    then have "seq_at r' i = ?q + ?c" by (simp add: seq)
    then show ?thesis using True q I(4) by simp
  next
    case False
    then have s: "seq_at r' i = seq_at r i" using that by (simp add: seq)
    from I(7) [OF that] show ?thesis
    proof (elim disjE)
      assume "\<exists>u x. cons_pos (th u) = Some x \<and> x mod ?c = i"
      then obtain u x where x: "cons_pos (th u) = Some x" "x mod ?c = i" by blast
      then have "u \<noteq> t" using own False by auto
      with x have "cons_pos (th' u) = Some x \<and> x mod ?c = i" by (simp add: cons)
      then show ?thesis by blast
    qed (simp_all add: s)
  qed
  have W: "d \<le> x \<and> x < length cl \<and> seq_at r' x = x" if "prod_pos (th u) = Some x" for u x
    using I(8) [OF that] fill [of x] by (simp add: seq)
  have other: "x mod ?c \<noteq> ?q mod ?c" if "cons_pos (th u) = Some x" "u \<noteq> t" for u x
    using full [of x] I(9) [OF that(1)] I(11) [OF _ own, of u] that by metis
  have R: "x < d \<and> seq_at r' x = Suc x \<and> length cl \<le> x + ?c" if "cons_pos (th' u) = Some x" for u x
    using that I(9) [of u x] other [of u x] by (simp add: cons seq split: if_splits)
  have U: "cons_pos (th' t1) = Some x \<Longrightarrow> cons_pos (th' t2) = Some x \<Longrightarrow> t1 = t2" for t1 t2 x
    using I(11) [of t1 x t2] by (simp add: cons split: if_splits)
  have K: "knows r' cl d dl (th' u)" for u
  proof (cases "u = t")
    case False
    have "x < length cl" if "prod_pos (th u) = Some x \<or> cons_pos (th u) = Some x" for x
      using that I(8) [of u x] I(9) [of u x] I(4) by auto
    then show ?thesis
      using False fill [of "length cl"] full [of d] q unfolding th'_def
      by (simp, intro knows_upto [OF I(12)]) (auto simp: seq same)
  qed (simp add: th'_def)
  show ?thesis
    unfolding r'_def [symmetric] th'_def [symmetric]
    by (rule ring_invI, unfold same prod) (fact shape I(2-5,10,13,14) L F W R U K)+
qed

section \<open>The whole system\<close>

definition sys_inv :: "('a, 'w::len word) ring_sys \<Rightarrow> bool" where
  "sys_inv st \<longleftrightarrow> ring_inv (sys_ring st) (sys_thread st) (sys_claims st) (sys_taken st) (sys_delivered st)"

text \<open>Positions stay in the lower half of the word's range.\<close>

definition sys_small :: "('a, 'w::len word) ring_sys \<Rightarrow> bool" where
  "sys_small st \<longleftrightarrow> length (sys_claims st) + ring_cap (sys_ring st) < 2 ^ (LENGTH('w) - 1)"

lemma seq_bound:
  assumes inv: "ring_inv r th cl d dl"
  shows "seq_at r q \<le> length cl + ring_cap r"
proof -
  note I = ring_invD [OF inv]
  have c: "1 < ring_cap r" using shape_cap I(1) by blast
  let ?i = "q mod ring_cap r"
  have i: "?i < ring_cap r" using c by simp
  have s: "seq_at r q = seq_at r ?i" by (rule seq_cong) simp
  from I(7) [OF i] show ?thesis
  proof (elim disjE conjE exE)
    fix x assume x: "d \<le> x" "x < length cl" "x mod ring_cap r = ?i"
    then have "seq_at r q = seq_at r x" by (intro seq_cong) simp
    then show ?thesis using I(6) [OF x(1,2)] x(2) by auto
  next
    fix u x assume x: "cons_pos (th u) = Some x" "x mod ring_cap r = ?i"
    then have "seq_at r q = seq_at r x" by (intro seq_cong) simp
    then show ?thesis using I(9) [OF x(1)] I(4) by simp
  qed (simp add: s)
qed

lemma inv_diff:
  assumes inv: "ring_inv (r :: ('a, 'w::len word) ring) th cl d dl"
    and small: "length cl + ring_cap r < 2 ^ (LENGTH('w) - 1)" and p: "unat p \<le> length cl + ring_cap r"
  shows "signed_diff (cell_sequence (r_buffer r ! (q mod ring_cap r))) p = Some (int (seq_at r q) - int (unat p))"
proof -
  have "unat (cell_sequence (r_buffer r ! (q mod ring_cap r))) < 2 ^ (LENGTH('w) - 1)"
    using seq_bound [OF inv, of q] small by (simp add: seq_at_def)
  from signed_diff_small [OF this, of p] p small show ?thesis by (simp add: seq_at_def)
qed

lemma dequeue_head_live:
  assumes inv: "ring_inv r th cl d dl" and s: "seq_at r d = Suc d"
  shows "d < length cl"
proof (rule ccontr)
  note I = ring_invD [OF inv]
  assume "\<not> d < length cl"
  then have E: "length cl = d" using I(4) by simp
  have c: "1 < ring_cap r" using shape_cap I(1) by blast
  let ?i = "d mod ring_cap r"
  have i: "?i < ring_cap r" using c by simp
  have s': "seq_at r ?i = Suc d" using s seq_cong [of ?i r d] by simp
  from I(7) [OF i] show False
  proof (elim disjE conjE exE)
    assume "seq_at r ?i mod ring_cap r = ?i"
    then show False using s' suc_mod [OF c] by metis
  next
    fix u x assume x: "cons_pos (th u) = Some x" "x mod ring_cap r = ?i"
    then have "seq_at r x = Suc d" using seq_cong [of x r d] s by simp
    then show False using I(9) [OF x(1)] by simp
  qed (use E in simp)
qed

lemma enqueue_access_inv:
  assumes inv: "ring_inv (r :: ('a, 'w::len word) ring) th cl d dl" and t: "th t = Enqueuing pc"
    and run: "enq_step spurious pc r = (pc', r')"
    and small: "length cl + ring_cap r < 2 ^ (LENGTH('w) - 1)"
  shows "ring_inv r' (th(t := Enqueuing pc')) (cl @ claim_of pc pc') d dl \<and> ring_cap r' = ring_cap r"
proof -
  note I = ring_invD [OF inv]
  have "length cl < 2 ^ LENGTH('w)" using small by (intro half_range) simp
  then have enq: "unat (r_enqueue_pos r) = length cl" unfolding I(2) by (rule unat_of_nat_fits)
  have same: ?thesis if "pc' = pc" "r' = r" "claim_of pc pc' = []"
  proof -
    have "th(t := Enqueuing pc') = th" using t that by auto
    then show ?thesis using inv that by simp
  qed
  have move: ?thesis if "r' = r" "claim_of pc pc' = []" "prod_pos (Enqueuing pc) = None"
    "prod_pos (Enqueuing pc') = None" "knows r cl d dl (Enqueuing pc')"
    using inv_move [OF inv, of t "Enqueuing pc'"] that t by simp
  show ?thesis
  proof (cases pc)
    case (EnqLoad v)
    then show ?thesis using run enq by (intro move) auto
  next
    case (EnqSeq v p)
    obtain n where n: "unat p = n" by blast
    have p: "n \<le> length cl" using I(12) [of t] t EnqSeq n by simp
    then have d: "signed_diff (cell_sequence (r_buffer r ! (n mod ring_cap r))) p = Some (int (seq_at r n) - int n)"
      using inv_diff [OF inv small, of p n] unfolding n by simp
    show ?thesis
      using run EnqSeq p by (intro move) (auto simp: cell_at_shape I(1) d n split: if_splits)
  next
    case (EnqCas v p)
    show ?thesis
    proof (cases "r_enqueue_pos r = p \<and> \<not> spurious")
      case True
      then show ?thesis using inv_claim [OF inv] t EnqCas run small by auto
    next
      case False
      then show ?thesis using run EnqCas enq by (intro move) auto
    qed
  next
    case (EnqWrite v p)
    then show ?thesis using inv_write [OF inv] t run by auto
  next
    case (EnqPublish p)
    then show ?thesis using inv_publish [OF inv] t run small by auto
  next
    case (EnqDone x)
    then show ?thesis using run by (intro same) auto
  next
    case EnqUndefined
    then show ?thesis using run by (intro same) auto
  qed
qed

lemma dequeue_access_inv:
  assumes inv: "ring_inv (r :: ('a, 'w::len word) ring) th cl d dl" and t: "th t = Dequeuing pc"
    and run: "deq_step spurious pc r = (pc', r')"
    and small: "length cl + ring_cap r < 2 ^ (LENGTH('w) - 1)"
  shows "ring_inv r' (th(t := Dequeuing pc')) cl (d + take_of pc pc') (dl @ delivery_of pc pc') \<and> ring_cap r' = ring_cap r"
proof -
  note I = ring_invD [OF inv]
  have c: "1 < ring_cap r" using shape_cap I(1) by blast
  have "d < 2 ^ LENGTH('w)" using small I(4) by (intro half_range) simp
  then have deq: "unat (r_dequeue_pos r) = d" unfolding I(3) by (rule unat_of_nat_fits)
  have same: ?thesis if "pc' = pc" "r' = r" "take_of pc pc' = 0" "delivery_of pc pc' = []"
  proof -
    have "th(t := Dequeuing pc') = th" using t that by auto
    then show ?thesis using inv that by simp
  qed
  have move: ?thesis if "r' = r" "take_of pc pc' = 0" "delivery_of pc pc' = []" "cons_pos (Dequeuing pc) = None"
    "cons_pos (Dequeuing pc') = None" "knows r cl d dl (Dequeuing pc')"
    using inv_move [OF inv, of t "Dequeuing pc'"] that t by simp
  show ?thesis
  proof (cases pc)
    case DeqLoad
    then show ?thesis using run deq by (intro move) auto
  next
    case (DeqSeq p)
    obtain n where n: "unat p = n" by blast
    have p: "n \<le> d" using I(12) [of t] t DeqSeq n by simp
    then have "unat p + 1 < 2 ^ LENGTH('w)" using small I(4) c n by (intro half_range) simp
    then have p1: "unat (p + 1) = Suc n" using unat_suc_small n by blast
    then have d: "signed_diff (cell_sequence (r_buffer r ! (n mod ring_cap r))) (p + 1) = Some (int (seq_at r n) - int (Suc n))"
      using inv_diff [OF inv small, of "p + 1" n] p I(4) c unfolding p1 by simp
    have head: "n = d \<Longrightarrow> seq_at r n = Suc n \<Longrightarrow> d < length cl"
      using dequeue_head_live [OF inv] by simp
    show ?thesis
      using run DeqSeq p head by (intro move) (auto simp: cell_at_shape I(1) d n split: if_splits)
  next
    case (DeqCas p)
    show ?thesis
    proof (cases "r_dequeue_pos r = p \<and> \<not> spurious")
      case True
      then show ?thesis using inv_take [OF inv] t DeqCas run small by auto
    next
      case False
      then show ?thesis using run DeqCas deq by (intro move) auto
    qed
  next
    case (DeqRead p)
    then show ?thesis using inv_read [OF inv] t run by auto
  next
    case (DeqRelease v p)
    then show ?thesis using inv_release [OF inv] t run small by auto
  next
    case (DeqDone x)
    then show ?thesis using run by (intro same) auto
  next
    case DeqUndefined
    then show ?thesis using run by (intro same) auto
  qed
qed

lemma sys_step_inv:
  "ring_sys_step st st' \<Longrightarrow> sys_inv st \<Longrightarrow> sys_small st \<Longrightarrow>
     sys_inv st' \<and> ring_cap (sys_ring st') = ring_cap (sys_ring st) \<and> length (sys_claims st) \<le> length (sys_claims st')"
proof (induction rule: ring_sys_step.induct)
  case (enqueue_access st t pc spurious pc' r')
  then show ?case using enqueue_access_inv [of "sys_ring st"] by (simp add: sys_inv_def sys_small_def set_thread_def)
next
  case (dequeue_access st t pc spurious pc' r')
  then show ?case using dequeue_access_inv [of "sys_ring st"] by (simp add: sys_inv_def sys_small_def set_thread_def)
qed (auto simp: sys_inv_def set_thread_def intro!: inv_move)

section \<open>Reachable states\<close>

lemma ring_new_shape:
  assumes w: "LENGTH('w::len) = 64 \<or> LENGTH('w) = 32" and n: "unat (n :: 'w word) \<le> 2 ^ (LENGTH('w) - 1)"
  shows "ring_shape (ring_new e m n)"
proof -
  from RoundUp_value [OF w, of n] obtain k where k: "1 \<le> k" "k \<le> LENGTH('w)" "2 ^ (k - 1) < max 2 (unat n)"
    "RoundUpPowerOfTwo n = 2 ^ k" by blast
  have "(2::nat) ^ 1 \<le> 2 ^ (LENGTH('w) - 1)" using w by (intro power_increasing) auto
  then have "max 2 (unat n) \<le> 2 ^ (LENGTH('w) - 1)" using n by simp
  with k(3) have "(2::nat) ^ (k - 1) < 2 ^ (LENGTH('w) - 1)" by (rule less_le_trans)
  then have "k - 1 < LENGTH('w) - 1" by (rule power_less_imp_less_exp [rotated]) simp
  then have kw: "k < LENGTH('w)" by simp
  then have "(2::nat) ^ k < 2 ^ LENGTH('w)" by (intro power_strict_increasing) simp_all
  then have "unat (of_nat (2 ^ k) :: 'w word) = 2 ^ k" by (rule unat_of_nat_fits)
  then have "unat (2 ^ k :: 'w word) = 2 ^ k" by simp
  with k kw show ?thesis by (auto simp: ring_shape_def ring_new_def Let_def)
qed

lemma ring_new_inv:
  assumes shape: "ring_shape (ring_new e m (n :: 'w::len word))"
  shows "ring_inv (ring_new e m n) (\<lambda>_. RingIdle) [] 0 []"
proof -
  let ?r = "ring_new e m n"
  have c: "ring_cap ?r = unat (RoundUpPowerOfTwo n)" by (simp add: ring_cap_def ring_new_def Let_def)
  have seq: "seq_at ?r i = i" if "i < ring_cap ?r" for i
  proof -
    have "i < 2 ^ LENGTH('w)" using that unfolding c by (rule less_trans) (rule unsigned_less)
    then have "unat (of_nat i :: 'w word) = i" by (rule unat_of_nat_fits)
    then show ?thesis using that c by (simp add: seq_at_def) (simp add: ring_new_def Let_def)
  qed
  have "r_enqueue_pos ?r = 0" "r_dequeue_pos ?r = 0" by (simp_all add: ring_new_def Let_def)
  then show ?thesis using shape seq by (intro ring_invI) auto
qed

lemma step_cap:
  "enq_step spurious pc r = (pc', r') \<Longrightarrow> ring_cap r' = ring_cap r"
  "deq_step spurious qc r = (qc', r') \<Longrightarrow> ring_cap r' = ring_cap r"
  by (cases pc; auto split: option.splits if_splits)
    (cases qc; auto split: option.splits if_splits)

lemma sys_step_mono:
  "ring_sys_step st st' \<Longrightarrow>
     ring_cap (sys_ring st') = ring_cap (sys_ring st) \<and> length (sys_claims st) \<le> length (sys_claims st')"
  by (induction rule: ring_sys_step.induct) (auto simp: set_thread_def step_cap)

lemma small_before: "ring_sys_step st st' \<Longrightarrow> sys_small st' \<Longrightarrow> sys_small st"
  using sys_step_mono [of st st'] by (simp add: sys_small_def)

text \<open>Every claimed reading position has been read or is about to be.\<close>

definition all_read :: "('a, 'w::len word) ring_sys \<Rightarrow> bool" where
  "all_read st \<longleftrightarrow> (\<forall>q < sys_taken st. q \<in> fst ` set (sys_delivered st) \<or>
     (\<exists>t p. sys_thread st t = Dequeuing (DeqRead p) \<and> unat p = q))"

lemma all_read_keep:
  assumes all: "all_read st" and "sys_taken st' = sys_taken st"
    and sub: "set (sys_delivered st) \<subseteq> set (sys_delivered st')"
    and th: "\<And>u p. sys_thread st u = Dequeuing (DeqRead p) \<Longrightarrow>
       sys_thread st' u = Dequeuing (DeqRead p) \<or> unat p \<in> fst ` set (sys_delivered st')"
  shows "all_read st'"
  unfolding all_read_def
proof (intro allI impI)
  fix q assume "q < sys_taken st'"
  then have "q \<in> fst ` set (sys_delivered st) \<or> (\<exists>t p. sys_thread st t = Dequeuing (DeqRead p) \<and> unat p = q)"
    using all assms(2) by (simp add: all_read_def)
  then show "q \<in> fst ` set (sys_delivered st') \<or> (\<exists>t p. sys_thread st' t = Dequeuing (DeqRead p) \<and> unat p = q)"
    using sub th by blast
qed

lemma all_read_step:
  assumes step: "ring_sys_step st st'" and inv: "sys_inv st" and small: "sys_small st" and all: "all_read st"
  shows "all_read (st' :: ('a, 'w::len word) ring_sys)"
  using step
proof (cases rule: ring_sys_step.cases)
  case (dequeue_access t pc spurious pc' r')
  show ?thesis
  proof (cases "\<exists>p. pc = DeqCas p \<and> pc' = DeqRead p")
    case True
    then obtain p where p: "pc = DeqCas p" "pc' = DeqRead p" by blast
    note I = ring_invD [OF inv [unfolded sys_inv_def]]
    have rp: "r_dequeue_pos (sys_ring st) = p" using dequeue_access p by (auto split: if_splits)
    have "sys_taken st < 2 ^ LENGTH('w)"
      using small I(4) by (intro half_range) (simp add: sys_small_def)
    then have pd: "unat p = sys_taken st" unfolding rp [symmetric] I(3) by (rule unat_of_nat_fits)
    have st': "sys_taken st' = Suc (sys_taken st)" "sys_delivered st' = sys_delivered st"
      "sys_thread st' = (sys_thread st)(t := Dequeuing (DeqRead p))"
      using dequeue_access p by (simp_all add: set_thread_def)
    show ?thesis
      unfolding all_read_def st'
    proof (intro allI impI)
      fix q assume q: "q < Suc (sys_taken st)"
      show "q \<in> fst ` set (sys_delivered st) \<or>
        (\<exists>u x. ((sys_thread st)(t := Dequeuing (DeqRead p))) u = Dequeuing (DeqRead x) \<and> unat x = q)"
      proof (cases "q = sys_taken st")
        case True
        then show ?thesis using pd by (intro disjI2 exI [of _ t] exI [of _ p]) simp
      next
        case False
        then have "q < sys_taken st" using q by simp
        then consider "q \<in> fst ` set (sys_delivered st)"
          | u x where "sys_thread st u = Dequeuing (DeqRead x)" "unat x = q"
          using all unfolding all_read_def by blast
        then show ?thesis
        proof cases
          case 2
          then have "u \<noteq> t" using dequeue_access p by auto
          with 2 show ?thesis by (intro disjI2 exI [of _ u] exI [of _ x]) simp
        qed simp
      qed
    qed
  next
    case False
    have "take_of pc pc' = 0" using dequeue_access False
      by (cases pc) (auto split: option.splits if_splits)
    moreover have "unat p \<in> fst ` set (delivery_of pc pc')" if "pc = DeqRead p" for p
      using dequeue_access that by auto
    ultimately show ?thesis
      using dequeue_access by (intro all_read_keep [OF all]) (auto simp: set_thread_def)
  qed
qed (rule all_read_keep [OF all]; auto simp: set_thread_def)+

text \<open>Sizes that the platform can represent: what the constructor is given and how much is used.\<close>

definition size_t_ok :: "'w::len word \<Rightarrow> bool" where
  "size_t_ok n \<longleftrightarrow> (LENGTH('w) = 64 \<or> LENGTH('w) = 32) \<and> unat n \<le> 2 ^ (LENGTH('w) - 1)"

lemma reach_inv:
  assumes "rtranclp ring_sys_step (ring_sys_start e m n) st" and "size_t_ok n" and "sys_small st"
  shows "sys_inv st \<and> all_read st"
  using assms(1,3)
proof (induction rule: rtranclp_induct)
  case base
  have "ring_shape (ring_new e m n)" using assms(2) by (intro ring_new_shape) (simp_all add: size_t_ok_def)
  from ring_new_inv [OF this] show ?case by (simp add: sys_inv_def ring_sys_start_def all_read_def)
next
  case (step st st')
  then show ?case using small_before sys_step_inv all_read_step by metis
qed

text \<open>The position whose value a thread is about to write or to move out.\<close>

fun value_access :: "('a, 'p) ring_thread \<Rightarrow> 'p option" where
  "value_access (Enqueuing (EnqWrite v p)) = Some p"
| "value_access (Dequeuing (DeqRead p)) = Some p"
| "value_access _ = None"

text \<open>
  A state in the middle of two calls: one thread has claimed the first position and not written yet,
  another has read the position it wants to dequeue.
\<close>

definition ring_demo_schedule :: "(nat \<times> nat ring_action) list" where
  "ring_demo_schedule = [(0, CallEnqueue 7), (0, RunAccess), (1, CallDequeue), (0, RunAccess), (1, RunAccess), (0, RunAccess)]"

definition ring_demo :: "(nat, u64) ring_sys" where
  "ring_demo = ring_run ring_demo_schedule (ring_sys_start 0 id 4)"

lemma ring_demo_ok: "rtranclp ring_sys_step (ring_sys_start 0 id 4) ring_demo" "size_t_ok (4 :: u64)"
  by (simp add: ring_demo_def ring_run_reach) (simp add: size_t_ok_def)

lemma ring_demo_sizes: "length (sys_claims ring_demo) = 1" "length (r_buffer (sys_ring ring_demo)) = 4"
  by code_simp+

lemma ring_demo_small: "sys_small ring_demo" by (simp add: sys_small_def ring_cap_def ring_demo_sizes)

lemma ring_demo_threads:
  "sys_thread ring_demo 0 = Enqueuing (EnqWrite 7 0)" "sys_thread ring_demo 1 = Dequeuing (DeqSeq 0)"
  "fst (deq_step False (DeqSeq 0) (sys_ring ring_demo)) = DeqDone None"
  by code_simp+

text \<open>
  C16. No undefined behaviour.  Whatever the number of threads and however they interleave, as long
  as the positions claimed and the capacity stay below half of the range of \<open>std::size_t\<close>: no
  thread accesses a cell outside the buffer or overflows the signed subtraction, and no two threads
  are ever about to access the value of the same cell, so values are free of data races.
\<close>

theorem ring_no_undefined_behaviour:
  assumes "rtranclp ring_sys_step (ring_sys_start e m n) st" and "size_t_ok n" and "sys_small st"
  shows "sys_thread st t \<noteq> Enqueuing EnqUndefined \<and> sys_thread st t \<noteq> Dequeuing DeqUndefined \<and>
    (\<forall>u p q. value_access (sys_thread st t) = Some p \<and> value_access (sys_thread st u) = Some q \<and> t \<noteq> u \<longrightarrow>
       cell_index (sys_ring st) p \<noteq> cell_index (sys_ring st) q)"
proof -
  have "sys_inv st" using reach_inv [OF assms] by blast
  note I = ring_invD [OF this [unfolded sys_inv_def]]
  let ?r = "sys_ring st" and ?th = "sys_thread st"
  have c: "1 < ring_cap ?r" using shape_cap I(1) by blast
  have safe: "?th t \<noteq> Enqueuing EnqUndefined" "?th t \<noteq> Dequeuing DeqUndefined"
    using I(12) [of t] by (cases "?th t"; force)+
  have claim: "(prod_pos (?th v) = Some (unat p) \<and> cons_pos (?th v) = None) \<or> (cons_pos (?th v) = Some (unat p) \<and> prod_pos (?th v) = None)"
    if "value_access (?th v) = Some p" for v p
    using that by (cases "?th v" rule: value_access.cases) auto
  have "t = u" if "value_access (?th t) = Some p" "value_access (?th u) = Some q"
    "cell_index ?r p = cell_index ?r q" for u p q
  proof -
    have m: "unat p mod ring_cap ?r = unat q mod ring_cap ?r"
      using that(3) by (simp add: shape_index I(1))
    note cell = same_cell [OF c m] same_cell(3) [OF c m [symmetric]]
    from claim [OF that(1)] claim [OF that(2)] show "t = u"
      using cell I(8) [of t "unat p"] I(8) [of u "unat q"] I(9) [of t "unat p"] I(9) [of u "unat q"]
        I(10) [of t "unat p" u] I(11) [of t "unat p" u] by metis
  qed
  with safe show ?thesis by blast
qed

theorem ring_no_undefined_behaviour_witness:
  "sys_thread ring_demo 1 = Dequeuing (DeqSeq 0) \<and> sys_thread ring_demo 1 \<noteq> Dequeuing DeqUndefined"
  using ring_no_undefined_behaviour [OF ring_demo_ok ring_demo_small, of 1] ring_demo_threads by simp

text \<open>
  C15. First in, first out, nothing lost, nothing twice.  What a dequeue takes at a position is the
  value that was enqueued at this position, and positions are claimed in order; no position is
  read twice; and every position claimed for reading has been read or is about to be.  There are
  never more values inside than the capacity.
\<close>

theorem ring_fifo:
  assumes "rtranclp ring_sys_step (ring_sys_start e m n) st" and "size_t_ok n" and "sys_small st"
  shows "(\<forall>(q, v) \<in> set (sys_delivered st). q < sys_taken st \<and> v = sys_claims st ! q) \<and>
    distinct (map fst (sys_delivered st)) \<and>
    (\<forall>q < sys_taken st. q \<in> fst ` set (sys_delivered st) \<or>
       (\<exists>t p. sys_thread st t = Dequeuing (DeqRead p) \<and> unat p = q)) \<and>
    sys_taken st \<le> length (sys_claims st) \<and>
    length (sys_claims st) \<le> sys_taken st + length (r_buffer (sys_ring st))"
proof -
  have inv: "sys_inv st" and all: "all_read st" using reach_inv [OF assms] by blast+
  note I = ring_invD [OF inv [unfolded sys_inv_def]]
  show ?thesis
    using I(4,5,13,14) all unfolding all_read_def ring_cap_def by blast
qed

theorem ring_fifo_witness:
  "distinct (map fst (sys_delivered ring_demo)) \<and> sys_taken ring_demo \<le> 1 \<and> 1 \<le> sys_taken ring_demo + 4"
  using ring_fifo [OF ring_demo_ok ring_demo_small] by (simp add: ring_demo_sizes)

lemma mod_gap: "q mod c = p mod c \<Longrightarrow> q < p \<Longrightarrow> q + c \<le> (p::nat)"
proof -
  assume "q mod c = p mod c" "q < p"
  then have "c dvd p - q" by (metis less_imp_le mod_eq_dvd_iff_nat)
  then have "c \<le> p - q" using \<open>q < p\<close> by (intro dvd_imp_le) simp_all
  then show "q + c \<le> p" using \<open>q < p\<close> by simp
qed

text \<open>The state of the cell of any position.\<close>

lemma cell_states:
  assumes inv: "ring_inv r th cl d dl"
  obtains (free) "length cl \<le> seq_at r p" "seq_at r p < length cl + ring_cap r" "seq_at r p mod ring_cap r = p mod ring_cap r"
    | (live) q where "d \<le> q" "q < length cl" "q mod ring_cap r = p mod ring_cap r" "q \<le> seq_at r p"
    | (reading) u q where "cons_pos (th u) = Some q" "q mod ring_cap r = p mod ring_cap r" "seq_at r p = Suc q"
proof -
  note I = ring_invD [OF inv]
  let ?i = "p mod ring_cap r"
  have "1 < ring_cap r" using shape_cap I(1) by blast
  then have i: "?i < ring_cap r" by simp
  have s: "seq_at r ?i = seq_at r p" by (rule seq_cong) simp
  from I(7) [OF i] consider "seq_at r ?i mod ring_cap r = ?i" "length cl \<le> seq_at r ?i" "seq_at r ?i < length cl + ring_cap r"
    | q where "d \<le> q" "q < length cl" "q mod ring_cap r = ?i"
    | u q where "cons_pos (th u) = Some q" "q mod ring_cap r = ?i" by blast
  then show thesis
  proof cases
    case 1
    then show ?thesis using free s by simp
  next
    case (2 q)
    then have "seq_at r q = seq_at r p" by (intro seq_cong)
    then have "q \<le> seq_at r p" using I(6) [OF 2(1,2)] by auto
    then show ?thesis using live 2 by blast
  next
    case (3 u q)
    then have "seq_at r q = seq_at r p" by (intro seq_cong)
    then have "seq_at r p = Suc q" using I(9) [OF 3(1)] by simp
    then show ?thesis using reading 3 by blast
  qed
qed

lemma refused_enqueue:
  assumes inv: "ring_inv r th cl d dl" and p: "p \<le> length cl" and s: "seq_at r p < p"
  shows "p = length cl \<and> ring_cap r \<le> length cl \<and>
    (length cl = d + ring_cap r \<or> (\<exists>u. cons_pos (th u) = Some (length cl - ring_cap r)))"
proof -
  note I = ring_invD [OF inv]
  let ?c = "ring_cap r"
  show ?thesis
  proof (rule cell_states [OF inv, of p])
    assume "length cl \<le> seq_at r p"
    then show ?thesis using p s by simp
  next
    fix q assume q: "d \<le> q" "q < length cl" "q mod ?c = p mod ?c" "q \<le> seq_at r p"
    then have "q + ?c \<le> p" using s by (intro mod_gap) simp_all
    then have "p = length cl" "length cl = d + ?c" using q p I(5) by simp_all
    then show ?thesis by simp
  next
    fix u q assume q: "cons_pos (th u) = Some q" "q mod ?c = p mod ?c" "seq_at r p = Suc q"
    then have "q + ?c \<le> p" using s by (intro mod_gap) simp_all
    then have "p = length cl" "q = length cl - ?c" "?c \<le> length cl" using I(9) [OF q(1)] p by linarith+
    then show ?thesis using q(1) by blast
  qed
qed

lemma refused_dequeue:
  assumes inv: "ring_inv r th cl d dl" and p: "p \<le> d" and s: "seq_at r p < Suc p"
  shows "p = d \<and> (length cl = d \<or> (\<exists>u. prod_pos (th u) = Some d))"
proof -
  note I = ring_invD [OF inv]
  let ?c = "ring_cap r"
  have c: "1 < ?c" using shape_cap I(1) by blast
  have "p = d"
  proof (rule cell_states [OF inv, of p])
    assume "length cl \<le> seq_at r p"
    then show ?thesis using p s I(4) by simp
  next
    fix q assume "d \<le> q" "q < length cl" "q mod ?c = p mod ?c" "q \<le> seq_at r p"
    then show ?thesis using p s by simp
  next
    fix u q assume q: "cons_pos (th u) = Some q" "q mod ?c = p mod ?c" "seq_at r p = Suc q"
    then have "q + ?c \<le> p" using s by (intro mod_gap) simp_all
    then show ?thesis using I(9) [OF q(1)] p I(4) by simp
  qed
  moreover have "length cl = d \<or> (\<exists>u. prod_pos (th u) = Some d)"
  proof (cases "d < length cl")
    case True
    from I(6) [OF order_refl True] show ?thesis using s \<open>p = d\<close> by auto
  next
    case False
    then show ?thesis using I(4) by simp
  qed
  ultimately show ?thesis by blast
qed

text \<open>The sign of the difference, as the two loops see it.\<close>

lemma enq_seq_cases:
  assumes inv: "ring_inv (r :: ('a, 'w::len word) ring) th cl d dl" and small: "length cl + ring_cap r < 2 ^ (LENGTH('w) - 1)"
    and p: "unat p \<le> length cl"
  shows "enq_step spurious (EnqSeq v p) r =
    (if seq_at r (unat p) = unat p then EnqCas v p else if seq_at r (unat p) < unat p then EnqDone False else EnqLoad v, r)"
proof -
  obtain n where n: "unat p = n" by blast
  have "signed_diff (cell_sequence (r_buffer r ! (n mod ring_cap r))) p = Some (int (seq_at r n) - int n)"
    using inv_diff [OF inv small, of p n] p unfolding n by simp
  then show ?thesis using ring_invD(1) [OF inv] by (auto simp: cell_at_shape n)
qed

lemma deq_seq_cases:
  assumes inv: "ring_inv (r :: ('a, 'w::len word) ring) th cl d dl" and small: "length cl + ring_cap r < 2 ^ (LENGTH('w) - 1)"
    and p: "unat p \<le> d"
  shows "deq_step spurious (DeqSeq p) r =
    (if seq_at r (unat p) = Suc (unat p) then DeqCas p else if seq_at r (unat p) < Suc (unat p) then DeqDone None else DeqLoad, r)"
proof -
  note I = ring_invD [OF inv]
  obtain n where n: "unat p = n" by blast
  have "1 < ring_cap r" using shape_cap I(1) by blast
  then have "unat p + 1 < 2 ^ LENGTH('w)" using small I(4) p by (intro half_range) simp
  then have p1: "unat (p + 1) = Suc n" using unat_suc_small n by blast
  have "signed_diff (cell_sequence (r_buffer r ! (n mod ring_cap r))) (p + 1) = Some (int (seq_at r n) - int (Suc n))"
    using inv_diff [OF inv small, of "p + 1" n] p I(4) \<open>1 < ring_cap r\<close> unfolding p1 n by simp
  then show ?thesis using I(1) by (auto simp: cell_at_shape n)
qed

text \<open>
  What a refusal means.  When \<open>TryEnqueue\<close> is about to return false, the buffer holds as many
  claimed values as it has cells, or a reader still occupies the cell one round before the next
  position.  When \<open>TryDequeue\<close> is about to return nothing, no value is inside, or the writer of
  the oldest one has claimed its position and not published it yet.
\<close>

theorem ring_refusals:
  assumes "rtranclp ring_sys_step (ring_sys_start e m n) st" and "size_t_ok n" and "sys_small st"
  shows "(\<forall>t v p r'. sys_thread st t = Enqueuing (EnqSeq v p) \<and>
        enq_step False (EnqSeq v p) (sys_ring st) = (EnqDone False, r') \<longrightarrow>
        length (sys_claims st) = sys_taken st + ring_cap (sys_ring st) \<or>
        (\<exists>u. cons_pos (sys_thread st u) = Some (length (sys_claims st) - ring_cap (sys_ring st)))) \<and>
    (\<forall>t p r'. sys_thread st t = Dequeuing (DeqSeq p) \<and>
        deq_step False (DeqSeq p) (sys_ring st) = (DeqDone None, r') \<longrightarrow>
        length (sys_claims st) = sys_taken st \<or> (\<exists>u. prod_pos (sys_thread st u) = Some (sys_taken st)))"
proof -
  have inv: "ring_inv (sys_ring st) (sys_thread st) (sys_claims st) (sys_taken st) (sys_delivered st)"
    using reach_inv [OF assms] by (simp add: sys_inv_def)
  note small = assms(3) [unfolded sys_small_def]
  have enq: "length (sys_claims st) = sys_taken st + ring_cap (sys_ring st) \<or>
      (\<exists>u. cons_pos (sys_thread st u) = Some (length (sys_claims st) - ring_cap (sys_ring st)))"
    if t: "sys_thread st t = Enqueuing (EnqSeq v p)" and run: "enq_step False (EnqSeq v p) (sys_ring st) = (EnqDone False, r')"
    for t v p r'
  proof -
    have p: "unat p \<le> length (sys_claims st)" using ring_invD(12) [OF inv, of t] t by simp
    have "seq_at (sys_ring st) (unat p) < unat p"
      using run unfolding enq_seq_cases [OF inv small p] by (simp split: if_splits)
    from refused_enqueue [OF inv p this] show ?thesis by blast
  qed
  have deq: "length (sys_claims st) = sys_taken st \<or> (\<exists>u. prod_pos (sys_thread st u) = Some (sys_taken st))"
    if t: "sys_thread st t = Dequeuing (DeqSeq p)" and run: "deq_step False (DeqSeq p) (sys_ring st) = (DeqDone None, r')"
    for t p r'
  proof -
    have p: "unat p \<le> sys_taken st" using ring_invD(12) [OF inv, of t] t by simp
    have "seq_at (sys_ring st) (unat p) < Suc (unat p)"
      using run unfolding deq_seq_cases [OF inv small p] by (simp split: if_splits)
    from refused_dequeue [OF inv p this] show ?thesis by blast
  qed
  from enq deq show ?thesis by blast
qed

theorem ring_refusals_witness:
  "length (sys_claims ring_demo) = sys_taken ring_demo \<or> (\<exists>u. prod_pos (sys_thread ring_demo u) = Some (sys_taken ring_demo))"
proof -
  obtain r' where "deq_step False (DeqSeq 0) (sys_ring ring_demo) = (DeqDone None, r')"
    using ring_demo_threads(3) by (cases "deq_step False (DeqSeq 0) (sys_ring ring_demo)") simp
  then show ?thesis using ring_refusals [OF ring_demo_ok ring_demo_small] ring_demo_threads(2) by blast
qed

end
