(* ===== verification/Ring_Slots.thy ===== *)
theory Ring_Slots
  imports Ring_Concurrent
begin

text \<open>
  The ring buffer refines the slot queue: seen as the list of its slots, every access either
  changes nothing or claims a slot, publishes a value or takes the oldest value.
\<close>

definition ring_slots :: "('a, 'w::len word) ring \<Rightarrow> 'a list \<Rightarrow> nat \<Rightarrow> 'a slots" where
  "ring_slots r cl d = map (\<lambda>q. if seq_at r q = Suc q then Some (cl ! q) else None) [d..<length cl]"

definition slots_of :: "('a, 'w::len word) ring_sys \<Rightarrow> 'a slots" where
  "slots_of st = ring_slots (sys_ring st) (sys_claims st) (sys_taken st)"

lemma ring_slots_cong:
  "(\<And>q. d \<le> q \<Longrightarrow> q < length cl \<Longrightarrow> (seq_at r' q = Suc q) = (seq_at r q = Suc q)) \<Longrightarrow>
   ring_slots r' cl d = ring_slots r cl d"
  by (simp add: ring_slots_def)

lemma length_ring_slots [simp]: "length (ring_slots r cl d) = length cl - d"
  by (simp add: ring_slots_def)

lemma nth_ring_slots:
  "i < length cl - d \<Longrightarrow> ring_slots r cl d ! i = (if seq_at r (d + i) = Suc (d + i) then Some (cl ! (d + i)) else None)"
  by (simp add: ring_slots_def)

text \<open>What an access of an enqueue does to the slots: nothing, a claim or a publication.\<close>

lemma enqueue_slots_cases:
  assumes inv: "ring_inv (r :: ('a, 'w::len word) ring) th cl d dl" and t: "th t = Enqueuing pc"
    and run: "enq_step spurious pc r = (pc', r')" and small: "length cl + ring_cap r < 2 ^ (LENGTH('w) - 1)"
  obtains (same) "claim_of pc pc' = []" "\<And>p. pc \<noteq> EnqPublish p" "ring_slots r' cl d = ring_slots r cl d"
    | (claim) v p where "pc = EnqCas v p" "pc' = EnqWrite v p" "unat p = length cl" "length cl < d + ring_cap r"
        "ring_slots r' (cl @ [v]) d = slot_claim (ring_slots r cl d)"
    | (publish) p where "pc = EnqPublish p" "pc' = EnqDone True" "d \<le> unat p" "unat p < length cl"
        "ring_slots r cl d ! (unat p - d) = None"
        "ring_slots r' cl d = slot_publish (unat p - d) (cl ! unat p) (ring_slots r cl d)"
proof -
  note I = ring_invD [OF inv]
  have c: "1 < ring_cap r" using shape_cap I(1) by blast
  show thesis
  proof (cases pc)
    case (EnqSeq v p)
    then have "unat p \<le> length cl" using I(12) [of t] t by simp
    from enq_seq_cases [OF inv small this] run EnqSeq show ?thesis by (intro same) (auto split: if_splits)
  next
    case (EnqCas v p)
    show ?thesis
    proof (cases "r_enqueue_pos r = p \<and> \<not> spurious")
      case True
      then have r': "r' = r\<lparr>r_enqueue_pos := p + 1\<rparr>" "pc' = EnqWrite v p" using run EnqCas by auto
      have inv': "ring_inv r' (th(t := Enqueuing pc')) (cl @ [v]) d dl"
        using enqueue_access_inv [OF inv t run small] EnqCas r' by simp
      have room: "length cl < d + ring_cap r" using ring_invD(5) [OF inv'] r' by simp
      have "length cl < 2 ^ LENGTH('w)" using small by (intro half_range) simp
      then have "unat (r_enqueue_pos r) = length cl" unfolding I(2) by (rule unat_of_nat_fits)
      then have p: "unat p = length cl" using True by simp
      then have "seq_at r (length cl) = length cl" using I(12) [of t] t EnqCas by simp
      then have "ring_slots r' (cl @ [v]) d = slot_claim (ring_slots r cl d)"
        using I(4) r' by (auto simp: ring_slots_def slot_claim_def nth_append)
      with claim [OF EnqCas r'(2) p room] show ?thesis .
    next
      case False
      then show ?thesis using run EnqCas by (intro same) auto
    qed
  next
    case (EnqWrite v p)
    then have "r' = update_cell p (\<lambda>c. c\<lparr>cell_value := v\<rparr>) r" using run by auto
    then have "ring_slots r' cl d = ring_slots r cl d"
      by (simp, intro ring_slots_cong) (simp add: seq_update I(1))
    then show ?thesis using EnqWrite by (intro same) simp_all
  next
    case (EnqPublish p)
    let ?q = "unat p" and ?xs = "ring_slots r cl d"
    have r': "r' = update_cell p (\<lambda>c. c\<lparr>cell_sequence := p + 1\<rparr>) r" "pc' = EnqDone True" using run EnqPublish by auto
    have q: "d \<le> ?q" "?q < length cl" "seq_at r ?q = ?q" using I(8) [of t ?q] t EnqPublish by simp_all
    have "?q + 1 < 2 ^ LENGTH('w)" using q small by (intro half_range) simp
    then have p1: "unat (p + 1) = Suc ?q" by (rule unat_suc_small)
    have seq: "seq_at r' x = (if x mod ring_cap r = ?q mod ring_cap r then Suc ?q else seq_at r x)" for x
      by (simp add: r' seq_update I(1) p1)
    have live: "x mod ring_cap r \<noteq> ?q mod ring_cap r" if "seq_at r x = Suc x" for x
      using same_cell(3) [OF c _ q(3) that] by metis
    have e: "seq_at r' x = Suc x \<longleftrightarrow> x = ?q \<or> seq_at r x = Suc x" for x
      using live [of x] by (auto simp: seq)
    have "ring_slots r' cl d = slot_publish (?q - d) (cl ! ?q) ?xs"
    proof (rule nth_equalityI)
      fix i assume "i < length (ring_slots r' cl d)"
      then show "ring_slots r' cl d ! i = slot_publish (?q - d) (cl ! ?q) ?xs ! i"
        using q by (auto simp: nth_ring_slots e slot_publish_def nth_list_update)
    qed simp
    moreover have "?xs ! (?q - d) = None" using q by (simp add: nth_ring_slots)
    ultimately show ?thesis using publish [OF EnqPublish r'(2) q(1,2)] by blast
  next
    case (EnqLoad v)
    then show ?thesis using run by (intro same) auto
  next
    case (EnqDone b)
    then show ?thesis using run by (intro same) auto
  next
    case EnqUndefined
    then show ?thesis using run by (intro same) auto
  qed
qed

lemma enqueue_slots:
  assumes inv: "ring_inv (r :: ('a, 'w::len word) ring) th cl d dl" and t: "th t = Enqueuing pc"
    and run: "enq_step spurious pc r = (pc', r')" and small: "length cl + ring_cap r < 2 ^ (LENGTH('w) - 1)"
  shows "slot_step (ring_cap r) (ring_slots r cl d) (ring_slots r' (cl @ claim_of pc pc') d)"
proof (cases rule: enqueue_slots_cases [OF inv t run small, case_names same claim publish])
  case same
  then show ?thesis using slot_stutter by simp
next
  case (claim v p)
  then show ?thesis using slot_claims [of "ring_slots r cl d" "ring_cap r"] ring_invD(4) [OF inv] by simp
next
  case (publish p)
  then show ?thesis using slot_publishes [of "unat p - d" "ring_slots r cl d"] by simp
qed

lemma dequeue_slots_cases:
  assumes inv: "ring_inv (r :: ('a, 'w::len word) ring) th cl d dl" and t: "th t = Dequeuing pc"
    and run: "deq_step spurious pc r = (pc', r')" and small: "length cl + ring_cap r < 2 ^ (LENGTH('w) - 1)"
  obtains (same) "take_of pc pc' = 0" "ring_slots r' cl d = ring_slots r cl d"
    | (taken) p where "pc = DeqCas p" "pc' = DeqRead p" "unat p = d" "d < length cl"
        "ring_slots r cl d = Some (cl ! d) # ring_slots r' cl (Suc d)"
proof -
  note I = ring_invD [OF inv]
  have c: "1 < ring_cap r" using shape_cap I(1) by blast
  show thesis
  proof (cases pc)
    case (DeqSeq p)
    then have "unat p \<le> d" using I(12) [of t] t by simp
    from deq_seq_cases [OF inv small this] run DeqSeq show ?thesis by (intro same) (auto split: if_splits)
  next
    case (DeqCas p)
    show ?thesis
    proof (cases "r_dequeue_pos r = p \<and> \<not> spurious")
      case True
      then have r': "r' = r\<lparr>r_dequeue_pos := p + 1\<rparr>" "pc' = DeqRead p" using run DeqCas by auto
      have "d < 2 ^ LENGTH('w)" using small I(4) by (intro half_range) simp
      then have "unat (r_dequeue_pos r) = d" unfolding I(3) by (rule unat_of_nat_fits)
      then have p: "unat p = d" using True by simp
      then have d: "d < length cl" "seq_at r d = Suc d" using I(12) [of t] t DeqCas by simp_all
      have "ring_slots r cl d = Some (cl ! d) # ring_slots r' cl (Suc d)"
        unfolding ring_slots_def upt_conv_Cons [OF d(1)] by (simp add: d(2) r')
      with taken [OF DeqCas r'(2) p d(1)] show ?thesis .
    next
      case False
      then show ?thesis using run DeqCas by (intro same) auto
    qed
  next
    case (DeqRead p)
    then show ?thesis using run by (intro same) (auto intro!: ring_slots_cong simp: seq_update I(1))
  next
    case (DeqRelease v p)
    let ?q = "unat p"
    have q: "?q < d" "seq_at r ?q = Suc ?q" "length cl \<le> ?q + ring_cap r"
      using I(9) [of t ?q] t DeqRelease by simp_all
    have r': "r' = update_cell p (\<lambda>c. c\<lparr>cell_sequence := p + r_capacity r\<rparr>) r" "take_of pc pc' = 0"
      using run DeqRelease by auto
    have other: "x mod ring_cap r \<noteq> ?q mod ring_cap r" if x: "d \<le> x" "x < length cl" for x
    proof
      assume m: "x mod ring_cap r = ?q mod ring_cap r"
      then have "seq_at r x = Suc ?q" using q(2) seq_cong [OF m] by simp
      then show False using I(6) [OF x] x q suc_mod [OF c, of ?q] m by auto
    qed
    have "ring_slots r' cl d = ring_slots r cl d"
      by (rule ring_slots_cong) (use other in \<open>simp add: r' seq_update I(1)\<close>)
    then show ?thesis using r' by (intro same) simp_all
  next
    case DeqLoad
    then show ?thesis using run by (intro same) auto
  next
    case (DeqDone b)
    then show ?thesis using run by (intro same) auto
  next
    case DeqUndefined
    then show ?thesis using run by (intro same) auto
  qed
qed

lemma dequeue_slots:
  assumes inv: "ring_inv (r :: ('a, 'w::len word) ring) th cl d dl" and t: "th t = Dequeuing pc"
    and run: "deq_step spurious pc r = (pc', r')" and small: "length cl + ring_cap r < 2 ^ (LENGTH('w) - 1)"
  shows "slot_step (ring_cap r) (ring_slots r cl d) (ring_slots r' cl (d + take_of pc pc'))"
proof (cases rule: dequeue_slots_cases [OF inv t run small, case_names same taken])
  case same
  then show ?thesis using slot_stutter by simp
next
  case (taken p)
  then have "slot_take (ring_slots r cl d) = Some (cl ! d, ring_slots r' cl (Suc d))" by simp
  then show ?thesis using taken by (simp add: slot_takes)
qed

text \<open>
  C17. The ring buffer refines the slot queue.  In every reachable state, whatever the interleaving,
  the next access of any thread is invisible at the level of slots, or claims a slot while fewer
  than the capacity are claimed, or publishes a claimed slot, or takes the oldest slot, which has
  been published.
\<close>

theorem ring_refines_slots:
  assumes "rtranclp ring_sys_step (ring_sys_start e m n) st" and "size_t_ok n" and "sys_small st"
    and "ring_sys_step st st'"
  shows "slot_step (length (r_buffer (sys_ring st))) (slots_of st) (slots_of st')"
proof -
  have inv: "ring_inv (sys_ring st) (sys_thread st) (sys_claims st) (sys_taken st) (sys_delivered st)"
    using reach_inv [OF assms(1-3)] by (simp add: sys_inv_def)
  note small = assms(3) [unfolded sys_small_def]
  show ?thesis
    using assms(4)
  proof cases
    case (enqueue_access t pc spurious pc' r')
    then show ?thesis using enqueue_slots [OF inv enqueue_access(2,3) small]
      by (simp add: slots_of_def set_thread_def ring_cap_def)
  next
    case (dequeue_access t pc spurious pc' r')
    then show ?thesis using dequeue_slots [OF inv dequeue_access(2,3) small]
      by (simp add: slots_of_def set_thread_def ring_cap_def)
  qed (simp_all add: slots_of_def set_thread_def slot_stutter)
qed

text \<open>The last access of a call of \<open>TryEnqueue\<close>, which publishes the slot it has claimed.\<close>

definition publish_demo :: "(nat, u64) ring_sys" where
  "publish_demo = ring_run (ring_demo_schedule @ [(0, RunAccess)]) (ring_sys_start 0 id 4)"

definition published_demo :: "(nat, u64) ring_sys" where
  "published_demo = set_thread 0 (Enqueuing (EnqDone True))
     (publish_demo\<lparr>sys_ring := snd (enq_step False (EnqPublish (0 :: u64)) (sys_ring publish_demo)),
        sys_claims := sys_claims publish_demo @ claim_of (EnqPublish (0 :: u64) :: (nat, u64) enq_pc) (EnqDone True)\<rparr>)"

lemma publish_demo_slots: "slots_of publish_demo = [None]" "slots_of published_demo = [Some 7]"
  by code_simp+

theorem ring_refines_slots_witness:
  "slot_step 4 (slots_of publish_demo) (slots_of published_demo) \<and>
   slots_of publish_demo = [None] \<and> slots_of published_demo = [Some 7]"
proof -
  have at: "sys_thread publish_demo 0 = Enqueuing (EnqPublish 0)" "length (sys_claims publish_demo) = 1"
    "length (r_buffer (sys_ring publish_demo)) = 4" by code_simp+
  have "enq_step False (EnqPublish 0) (sys_ring publish_demo) =
      (EnqDone True, snd (enq_step False (EnqPublish 0) (sys_ring publish_demo)))" by simp
  from enqueue_access [OF at(1) this] have step: "ring_sys_step publish_demo published_demo" by (simp only: published_demo_def)
  have small: "sys_small publish_demo" using at by (simp add: sys_small_def ring_cap_def)
  have reach: "rtranclp ring_sys_step (ring_sys_start 0 id 4) publish_demo" by (simp add: publish_demo_def ring_run_reach)
  from ring_refines_slots [OF reach _ small step] at publish_demo_slots show ?thesis by (simp add: size_t_ok_def)
qed

end
