(* ===== verification/Log_Payload.thy ===== *)
theory Log_Payload
  imports Prelude "HOL-Library.Monad_Syntax"
begin

text \<open>
  The message text of \<open>include/hlog/detail/log_payload.h\<close>: a byte buffer with 256 inline
  bytes that moves to the heap when it grows past them.  The model keeps the memory: both
  storage areas are arrays of bytes with their length, \<open>data_\<close> says which of them is in use,
  and every copy and store checks the array's bounds.  An access outside an array, or through
  a pointer to storage that was given up, is undefined behaviour in C++ and \<open>None\<close> here, so
  \<open>Some\<close> is a statement of memory safety.  Allocation itself is taken to succeed; sizes are
  sizes of existing objects, so the additions on \<open>std::size_t\<close> do not wrap and are on \<open>nat\<close>.
\<close>

definition kInlineCapacity :: nat where
  "kInlineCapacity = 256"

definition NUL :: char where
  "NUL = CHR 0x00"

datatype data_ptr = InlineData | HeapData

record LogPayload =
  inline_storage :: "char list"
  heap_storage :: "char list option"
  data_at :: data_ptr
  payload_size :: nat
  payload_capacity :: nat

section \<open>Memory access\<close>

definition block :: "LogPayload \<Rightarrow> char list option" where
  "block p = (case data_at p of InlineData \<Rightarrow> Some (inline_storage p) | HeapData \<Rightarrow> heap_storage p)"

definition set_block :: "char list \<Rightarrow> LogPayload \<Rightarrow> LogPayload" where
  "set_block b p = (case data_at p of
      InlineData \<Rightarrow> p\<lparr>inline_storage := b\<rparr> | HeapData \<Rightarrow> p\<lparr>heap_storage := Some b\<rparr>)"

definition overwrite :: "nat \<Rightarrow> char list \<Rightarrow> char list \<Rightarrow> char list option" where
  "overwrite off bs b =
     (if off + length bs \<le> length b then Some (take off b @ bs @ drop (off + length bs) b) else None)"

definition store_bytes :: "nat \<Rightarrow> char list \<Rightarrow> LogPayload \<Rightarrow> LogPayload option" where
  "store_bytes off bs p = do { b \<leftarrow> block p; b' \<leftarrow> overwrite off bs b; Some (set_block b' p) }"

section \<open>Operations\<close>

definition ResetInline :: "LogPayload \<Rightarrow> LogPayload option" where
  "ResetInline p = store_bytes 0 [NUL]
     (p\<lparr>heap_storage := None, data_at := InlineData, payload_capacity := kInlineCapacity, payload_size := 0\<rparr>)"

definition payload_new :: "LogPayload option" where
  "payload_new = ResetInline
     \<lparr>inline_storage = replicate (kInlineCapacity + 1) NUL, heap_storage = None,
      data_at = InlineData, payload_size = 0, payload_capacity = kInlineCapacity\<rparr>"

definition payload_view :: "LogPayload \<Rightarrow> string option" where
  "payload_view p =
     do { b \<leftarrow> block p; if payload_size p \<le> length b then Some (take (payload_size p) b) else None }"

definition is_inline :: "LogPayload \<Rightarrow> bool" where
  "is_inline p \<longleftrightarrow> data_at p = InlineData"

definition EnsureCapacity :: "nat \<Rightarrow> LogPayload \<Rightarrow> LogPayload option" where
  "EnsureCapacity required_size p =
     (if required_size \<le> payload_capacity p then Some p
      else do {
        let new_capacity = max (payload_capacity p * 2) required_size;
        old \<leftarrow> payload_view p;
        storage \<leftarrow> overwrite 0 old (replicate (new_capacity + 1) NUL);
        storage' \<leftarrow> overwrite (payload_size p) [NUL] storage;
        Some (p\<lparr>heap_storage := Some storage', data_at := HeapData, payload_capacity := new_capacity\<rparr>)
      })"

definition payload_clear :: "LogPayload \<Rightarrow> LogPayload option" where
  "payload_clear p = store_bytes 0 [NUL] (p\<lparr>payload_size := 0\<rparr>)"

definition payload_assign :: "string \<Rightarrow> LogPayload \<Rightarrow> LogPayload option" where
  "payload_assign v p = do {
     p1 \<leftarrow> EnsureCapacity (length v) p;
     p2 \<leftarrow> (if v \<noteq> [] then store_bytes 0 v p1 else Some p1);
     store_bytes (length v) [NUL] (p2\<lparr>payload_size := length v\<rparr>) }"

definition payload_append :: "string \<Rightarrow> LogPayload \<Rightarrow> LogPayload option" where
  "payload_append v p =
     (if v = [] then Some p
      else do {
        p1 \<leftarrow> EnsureCapacity (payload_size p + length v) p;
        p2 \<leftarrow> store_bytes (payload_size p1) v p1;
        let n = payload_size p2 + length v;
        store_bytes n [NUL] (p2\<lparr>payload_size := n\<rparr>) })"

definition payload_push_back :: "char \<Rightarrow> LogPayload \<Rightarrow> LogPayload option" where
  "payload_push_back c p = do {
     p1 \<leftarrow> EnsureCapacity (payload_size p + 1) p;
     p2 \<leftarrow> store_bytes (payload_size p1) [c] p1;
     let n = payload_size p2 + 1;
     store_bytes n [NUL] (p2\<lparr>payload_size := n\<rparr>) }"

text \<open>
  The same \<open>append\<close> called with a view of \<open>len\<close> bytes at \<open>off\<close> of the payload's own text.
  \<open>EnsureCapacity\<close> runs first: when it replaces a heap block, it has freed the block the view
  points into before the bytes are read.
\<close>

definition payload_append_own :: "nat \<Rightarrow> nat \<Rightarrow> LogPayload \<Rightarrow> LogPayload option" where
  "payload_append_own off len p =
     (if len = 0 then Some p
      else do {
        p1 \<leftarrow> EnsureCapacity (payload_size p + len) p;
        src \<leftarrow> (case data_at p of
                 InlineData \<Rightarrow> Some (inline_storage p1)
               | HeapData \<Rightarrow> (if payload_size p + len \<le> payload_capacity p then heap_storage p1 else None));
        v \<leftarrow> (if off + len \<le> length src then Some (take len (drop off src)) else None);
        p2 \<leftarrow> store_bytes (payload_size p1) v p1;
        let n = payload_size p2 + len;
        store_bytes n [NUL] (p2\<lparr>payload_size := n\<rparr>) })"

text \<open>
  The same \<open>assign\<close> called with a view of its own text.  Such a view never makes the buffer grow, and the
  \<open>memcpy\<close> has no defined result when the bytes read and the bytes written overlap.
\<close>

definition payload_assign_own :: "nat \<Rightarrow> nat \<Rightarrow> LogPayload \<Rightarrow> LogPayload option" where
  "payload_assign_own off len p = do {
     p1 \<leftarrow> EnsureCapacity len p;
     src \<leftarrow> block p1;
     v \<leftarrow> (if off + len \<le> length src then Some (take len (drop off src)) else None);
     p2 \<leftarrow> (if len \<noteq> 0 then (if off < len then None else store_bytes 0 v p1) else Some p1);
     store_bytes len [NUL] (p2\<lparr>payload_size := len\<rparr>) }"

text \<open>
  Construction from text and from another payload; the moved-from payload is the second
  component.  Copy and move assignment leave the payload alone when it is the source itself
  (\<open>same\<close>).
\<close>

definition payload_of_view :: "string \<Rightarrow> LogPayload option" where
  "payload_of_view v = do { p \<leftarrow> payload_new; payload_assign v p }"

definition payload_of_cstr :: "string option \<Rightarrow> LogPayload option" where
  "payload_of_cstr v = do { p \<leftarrow> payload_new; (case v of Some s \<Rightarrow> payload_assign s p | None \<Rightarrow> Some p) }"

definition payload_copy :: "LogPayload \<Rightarrow> LogPayload option" where
  "payload_copy other = do { p \<leftarrow> payload_new; v \<leftarrow> payload_view other; payload_assign v p }"

definition MoveFrom :: "LogPayload \<Rightarrow> LogPayload \<Rightarrow> (LogPayload \<times> LogPayload) option" where
  "MoveFrom this other =
     (if is_inline other then do {
        p \<leftarrow> ResetInline this; v \<leftarrow> payload_view other; p' \<leftarrow> payload_assign v p; Some (p', other) }
      else do {
        other' \<leftarrow> ResetInline (other\<lparr>heap_storage := None\<rparr>);
        Some (this\<lparr>heap_storage := heap_storage other, data_at := HeapData,
                   payload_capacity := payload_capacity other, payload_size := payload_size other\<rparr>,
              other') })"

definition payload_move :: "LogPayload \<Rightarrow> (LogPayload \<times> LogPayload) option" where
  "payload_move other = do { p \<leftarrow> payload_new; MoveFrom p other }"

definition payload_copy_assign :: "bool \<Rightarrow> LogPayload \<Rightarrow> LogPayload \<Rightarrow> LogPayload option" where
  "payload_copy_assign same this other =
     (if same then Some this else do { v \<leftarrow> payload_view other; payload_assign v this })"

definition payload_move_assign ::
  "bool \<Rightarrow> LogPayload \<Rightarrow> LogPayload \<Rightarrow> (LogPayload \<times> LogPayload) option" where
  "payload_move_assign same this other = (if same then Some (this, other) else MoveFrom this other)"

definition payload_assign_cstr :: "string option \<Rightarrow> LogPayload \<Rightarrow> LogPayload option" where
  "payload_assign_cstr v p = (case v of None \<Rightarrow> payload_clear p | Some s \<Rightarrow> payload_assign s p)"

definition payload_append_cstr :: "string option \<Rightarrow> LogPayload \<Rightarrow> LogPayload option" where
  "payload_append_cstr v p = (case v of None \<Rightarrow> Some p | Some s \<Rightarrow> payload_append s p)"

section \<open>Invariant and abstraction\<close>

text \<open>
  The buffer in use has one byte more than the capacity, the text fits, the byte after the text
  is NUL, and the inline array is in use exactly as long as the capacity is the inline one.
\<close>

definition payload_inv :: "LogPayload \<Rightarrow> bool" where
  "payload_inv p \<longleftrightarrow>
     length (inline_storage p) = kInlineCapacity + 1 \<and>
     payload_size p \<le> payload_capacity p \<and>
     (\<exists>b. block p = Some b \<and> length b = payload_capacity p + 1 \<and> b ! payload_size p = NUL) \<and>
     (case data_at p of
        InlineData \<Rightarrow> payload_capacity p = kInlineCapacity \<and> heap_storage p = None
      | HeapData \<Rightarrow> kInlineCapacity < payload_capacity p)"

definition payload_text :: "LogPayload \<Rightarrow> string" where
  "payload_text p = (case block p of Some b \<Rightarrow> take (payload_size p) b | None \<Rightarrow> [])"

section \<open>Stores\<close>

text \<open>
  The part of the invariant that does not mention the text: which array is in use and how long
  it is.  Every store keeps it.
\<close>

definition payload_shape :: "LogPayload \<Rightarrow> bool" where
  "payload_shape p \<longleftrightarrow>
     length (inline_storage p) = kInlineCapacity + 1 \<and>
     (\<exists>b. block p = Some b \<and> length b = payload_capacity p + 1) \<and>
     (case data_at p of
        InlineData \<Rightarrow> payload_capacity p = kInlineCapacity \<and> heap_storage p = None
      | HeapData \<Rightarrow> kInlineCapacity < payload_capacity p)"

lemma payload_inv_iff:
  "payload_inv p \<longleftrightarrow> payload_shape p \<and> payload_size p \<le> payload_capacity p \<and>
     (\<forall>b. block p = Some b \<longrightarrow> b ! payload_size p = NUL)"
  by (auto simp: payload_inv_def payload_shape_def)

lemma set_block_fields [simp]:
  "data_at (set_block b p) = data_at p"
  "payload_size (set_block b p) = payload_size p"
  "payload_capacity (set_block b p) = payload_capacity p"
  "block (set_block b p) = Some b"
  by (simp_all add: set_block_def block_def split: data_ptr.splits)

lemma size_update_fields [simp]:
  "block (p\<lparr>payload_size := n\<rparr>) = block p"
  "payload_shape (p\<lparr>payload_size := n\<rparr>) = payload_shape p"
  by (simp_all add: block_def payload_shape_def split: data_ptr.splits)

lemma set_block_shape:
  "payload_shape p \<Longrightarrow> length b = payload_capacity p + 1 \<Longrightarrow> payload_shape (set_block b p)"
  by (auto simp: payload_shape_def block_def set_block_def split: data_ptr.splits)

lemma shapeE:
  assumes "payload_shape p"
  obtains b where "block p = Some b" and "length b = Suc (payload_capacity p)"
  using assms by (auto simp: payload_shape_def)

lemma store_bytes_ok:
  assumes "payload_shape p" and "block p = Some b" and "off + length bs \<le> Suc (payload_capacity p)"
  obtains p' where "store_bytes off bs p = Some p'" and "payload_shape p'"
    and "block p' = Some (take off b @ bs @ drop (off + length bs) b)"
    and "payload_size p' = payload_size p" and "payload_capacity p' = payload_capacity p"
    and "data_at p' = data_at p"
proof -
  let ?b' = "take off b @ bs @ drop (off + length bs) b"
  have len: "length b = Suc (payload_capacity p)" using assms(1,2) by (auto elim: shapeE)
  have st: "store_bytes off bs p = Some (set_block ?b' p)"
    using assms(2,3) len by (simp add: store_bytes_def overwrite_def)
  have "payload_shape (set_block ?b' p)"
    using assms(1,3) len by (intro set_block_shape) auto
  with st show ?thesis by (intro that [of "set_block ?b' p"]) auto
qed

lemma payload_text_block: "block p = Some b \<Longrightarrow> payload_text p = take (payload_size p) b"
  by (simp add: payload_text_def)

lemma payload_view_text: "payload_inv p \<Longrightarrow> payload_view p = Some (payload_text p)"
  by (auto simp: payload_inv_def payload_view_def payload_text_def)

lemma length_payload_text [simp]: "payload_inv p \<Longrightarrow> length (payload_text p) = payload_size p"
  by (auto simp: payload_inv_def payload_text_def)

section \<open>Growth\<close>

lemma EnsureCapacity_ok:
  assumes inv: "payload_inv p"
  obtains p' where "EnsureCapacity n p = Some p'" and "payload_inv p'"
    and "payload_text p' = payload_text p" and "payload_size p' = payload_size p"
    and "n \<le> payload_capacity p'" and "payload_capacity p \<le> payload_capacity p'"
    and "is_inline p' \<longleftrightarrow> is_inline p \<and> n \<le> kInlineCapacity"
proof (cases "n \<le> payload_capacity p")
  case True
  then show ?thesis
    using inv by (intro that [of p])
      (auto simp: EnsureCapacity_def is_inline_def payload_inv_def split: data_ptr.splits)
next
  case False
  let ?c = "max (payload_capacity p * 2) n" and ?t = "payload_text p"
  let ?s = "?t @ NUL # replicate (?c - payload_size p) NUL"
  let ?p' = "p\<lparr>heap_storage := Some ?s, data_at := HeapData, payload_capacity := ?c\<rparr>"
  have size: "payload_size p < ?c" "length ?t = payload_size p"
    using inv False by (auto simp: payload_inv_def)
  have o1: "overwrite 0 ?t (replicate (?c + 1) NUL) =
      Some (?t @ replicate (Suc ?c - payload_size p) NUL)"
    using size by (simp add: overwrite_def del: replicate_Suc)
  have o2: "overwrite (payload_size p) [NUL] (?t @ replicate (Suc ?c - payload_size p) NUL) = Some ?s"
    using size by (simp add: overwrite_def Suc_diff_le)
  have run: "EnsureCapacity n p = Some ?p'"
    using False o1 o2 payload_view_text [OF inv] by (simp add: EnsureCapacity_def Let_def)
  have cap: "kInlineCapacity < ?c"
    using inv False by (auto simp: payload_inv_def split: data_ptr.splits)
  have inv': "payload_inv ?p'"
    using inv size cap by (auto simp: payload_inv_def block_def nth_append)
  have "\<not> (is_inline p \<and> n \<le> kInlineCapacity)"
    using inv False by (auto simp: payload_inv_def is_inline_def)
  then show ?thesis
    using run inv' size
    by (intro that [of ?p']) (auto simp: payload_text_def block_def is_inline_def)
qed

lemma fresh_inv:
  "payload_new = Some p \<Longrightarrow> payload_inv p \<and> payload_text p = [] \<and> is_inline p"
  by (auto simp: payload_new_def ResetInline_def store_bytes_def overwrite_def block_def
    set_block_def payload_inv_def payload_text_def is_inline_def kInlineCapacity_def)

lemma payload_new_ok:
  obtains p where "payload_new = Some p" and "payload_inv p" and "payload_text p = []" and "is_inline p"
proof -
  have "payload_new \<noteq> None"
    by (simp add: payload_new_def ResetInline_def store_bytes_def overwrite_def block_def
      kInlineCapacity_def)
  then show ?thesis using that fresh_inv by blast
qed

section \<open>Writing text and its terminator\<close>

text \<open>
  The pattern all writers share: store the bytes at an offset, set the size to the end of what
  was stored, store the NUL there.
\<close>

lemma write_text_ok:
  assumes shape: "payload_shape p" and b: "block p = Some b"
    and fits: "off + length v \<le> payload_capacity p"
  obtains p2 p' where "store_bytes off v p = Some p2" and "payload_size p2 = payload_size p"
    and "store_bytes (off + length v) [NUL] (p2\<lparr>payload_size := off + length v\<rparr>) = Some p'"
    and "payload_inv p'" and "payload_text p' = take off b @ v" and "payload_capacity p' = payload_capacity p"
    and "data_at p' = data_at p"
proof -
  let ?n = "off + length v" and ?b2 = "take off b @ v @ drop (off + length v) b"
  have len: "length b = Suc (payload_capacity p)" using shape b by (auto elim: shapeE)
  obtain p2 where p2: "store_bytes off v p = Some p2" "payload_shape p2" "block p2 = Some ?b2"
    "payload_size p2 = payload_size p" "payload_capacity p2 = payload_capacity p" "data_at p2 = data_at p"
    using store_bytes_ok [OF shape b, of off v] fits by auto
  let ?q = "p2\<lparr>payload_size := ?n\<rparr>"
  obtain p' where p': "store_bytes ?n [NUL] ?q = Some p'" "payload_shape p'"
    "block p' = Some (take ?n ?b2 @ [NUL] @ drop (?n + 1) ?b2)"
    "payload_size p' = ?n" "payload_capacity p' = payload_capacity p" "data_at p' = data_at p"
    using store_bytes_ok [of ?q ?b2 ?n "[NUL]"] p2 fits by auto
  have head: "take ?n ?b2 = take off b @ v" using fits len by simp
  have "payload_inv p'" using p' fits len by (auto simp: payload_inv_iff nth_append)
  moreover have "payload_text p' = take off b @ v"
    using p'(3,4) head fits len by (simp add: payload_text_block)
  ultimately show ?thesis using that [of p2 p'] p2 p' by simp
qed

lemma ResetInline_ok:
  assumes "length (inline_storage p) = kInlineCapacity + 1"
  obtains p' where "ResetInline p = Some p'" and "payload_inv p'" and "payload_text p' = []"
    and "is_inline p'"
proof -
  let ?q = "p\<lparr>heap_storage := None, data_at := InlineData, payload_capacity := kInlineCapacity,
    payload_size := 0\<rparr>"
  have "ResetInline p \<noteq> None" and "\<And>p'. ResetInline p = Some p' \<Longrightarrow>
      payload_inv p' \<and> payload_text p' = [] \<and> is_inline p'"
    using assms by (auto simp: ResetInline_def store_bytes_def overwrite_def block_def
      set_block_def payload_inv_def payload_text_def is_inline_def)
  then show ?thesis using that by blast
qed

lemma payload_clear_ok:
  assumes "payload_inv p"
  obtains p' where "payload_clear p = Some p'" and "payload_inv p'" and "payload_text p' = []"
    and "is_inline p' = is_inline p" and "payload_capacity p' = payload_capacity p"
proof -
  obtain b where b: "block p = Some b" using assms by (auto simp: payload_inv_def)
  have shape: "payload_shape (p\<lparr>payload_size := 0\<rparr>)" using assms by (simp add: payload_inv_iff)
  obtain p' where p': "store_bytes 0 [NUL] (p\<lparr>payload_size := 0\<rparr>) = Some p'" "payload_shape p'"
    "block p' = Some (NUL # drop 1 b)" "payload_size p' = 0" "payload_capacity p' = payload_capacity p"
    "data_at p' = data_at p"
    using store_bytes_ok [OF shape, of b 0 "[NUL]"] b by auto
  then show ?thesis
    by (intro that [of p'])
      (auto simp: payload_clear_def payload_inv_iff payload_text_block is_inline_def)
qed

section \<open>Assign, append, push back\<close>

lemma payload_assign_ok:
  assumes inv: "payload_inv p"
  obtains p' where "payload_assign v p = Some p'" and "payload_inv p'" and "payload_text p' = v"
    and "is_inline p' \<longleftrightarrow> is_inline p \<and> length v \<le> kInlineCapacity"
    and "payload_capacity p \<le> payload_capacity p'"
proof -
  obtain p1 where p1: "EnsureCapacity (length v) p = Some p1" "payload_inv p1"
    "length v \<le> payload_capacity p1" "payload_capacity p \<le> payload_capacity p1"
    "is_inline p1 \<longleftrightarrow> is_inline p \<and> length v \<le> kInlineCapacity"
    using EnsureCapacity_ok [OF inv, of "length v"] by metis
  obtain b where b: "block p1 = Some b" and shape: "payload_shape p1"
    using p1(2) by (auto simp: payload_inv_iff elim: shapeE)
  obtain p2 p' where w: "store_bytes 0 v p1 = Some p2"
    "store_bytes (length v) [NUL] (p2\<lparr>payload_size := length v\<rparr>) = Some p'"
    "payload_inv p'" "payload_text p' = v" "payload_capacity p' = payload_capacity p1" "data_at p' = data_at p1"
    using write_text_ok [OF shape b, of 0 v] p1(3) by (metis add_0 append_Nil take_0)
  have "v = [] \<Longrightarrow> p2 = p1" using w(1) b
    by (auto simp: store_bytes_def overwrite_def set_block_def block_def split: data_ptr.splits)
  then have "payload_assign v p = Some p'" using p1(1) w by (auto simp: payload_assign_def)
  then show ?thesis using that [of p'] w p1 by (simp add: is_inline_def)
qed

lemma payload_append_ok:
  assumes inv: "payload_inv p"
  obtains p' where "payload_append v p = Some p'" and "payload_inv p'"
    and "payload_text p' = payload_text p @ v"
    and "is_inline p' \<longleftrightarrow> is_inline p \<and> payload_size p + length v \<le> kInlineCapacity"
proof (cases "v = []")
  case True
  then show ?thesis using inv
    by (intro that [of p])
      (auto simp: payload_append_def is_inline_def payload_inv_def split: data_ptr.splits)
next
  case False
  let ?n = "payload_size p + length v"
  obtain p1 where p1: "EnsureCapacity ?n p = Some p1" "payload_inv p1"
    "payload_text p1 = payload_text p" "payload_size p1 = payload_size p" "?n \<le> payload_capacity p1"
    "is_inline p1 \<longleftrightarrow> is_inline p \<and> ?n \<le> kInlineCapacity"
    using EnsureCapacity_ok [OF inv, of ?n] by metis
  obtain b where b: "block p1 = Some b" and shape: "payload_shape p1"
    using p1(2) by (auto simp: payload_inv_iff elim: shapeE)
  obtain p2 p' where w: "store_bytes (payload_size p1) v p1 = Some p2" "payload_size p2 = payload_size p1"
    "store_bytes (payload_size p1 + length v) [NUL]
       (p2\<lparr>payload_size := payload_size p1 + length v\<rparr>) = Some p'"
    "payload_inv p'" "payload_text p' = take (payload_size p1) b @ v" "data_at p' = data_at p1"
    using write_text_ok [OF shape b, of "payload_size p1" v] p1(4,5) by metis
  have "payload_append v p = Some p'"
    using False p1(1) w by (simp add: payload_append_def Let_def)
  moreover have "payload_text p' = payload_text p @ v"
    using w(5) p1(3) b by (simp add: payload_text_block)
  ultimately show ?thesis using that [of p'] w p1 by (simp add: is_inline_def)
qed

lemma payload_push_back_append: "payload_push_back c p = payload_append [c] p"
  by (simp add: payload_push_back_def payload_append_def)

section \<open>Copies and moves\<close>

text \<open>
  Copying a payload gives an equal text in separate memory; moving gives the same text to
  the target and leaves the source usable: an inline source keeps its text, a heap source
  becomes the empty inline payload.  Neither ever touches memory out of bounds.
\<close>

theorem payload_copy_move:
  assumes inv: "payload_inv p"
  shows "(\<exists>q. payload_copy p = Some q \<and> payload_inv q \<and> payload_text q = payload_text p) \<and>
    (\<exists>q p'. payload_move p = Some (q, p') \<and> payload_inv q \<and> payload_inv p' \<and>
       payload_text q = payload_text p \<and> is_inline p' \<and>
       payload_text p' = (if is_inline p then payload_text p else []))"
proof (intro conjI)
  obtain n where n: "payload_new = Some n" "payload_inv n" "payload_text n = []" "is_inline n"
    by (rule payload_new_ok)
  note view = payload_view_text [OF inv]
  obtain c where c: "payload_assign (payload_text p) n = Some c" "payload_inv c"
    "payload_text c = payload_text p"
    using payload_assign_ok [OF n(2)] by metis
  then show "\<exists>q. payload_copy p = Some q \<and> payload_inv q \<and> payload_text q = payload_text p"
    by (simp add: payload_copy_def n(1) view)
  show "\<exists>q p'. payload_move p = Some (q, p') \<and> payload_inv q \<and> payload_inv p' \<and>
       payload_text q = payload_text p \<and> is_inline p' \<and>
       payload_text p' = (if is_inline p then payload_text p else [])"
  proof (cases "is_inline p")
    case True
    have "length (inline_storage n) = kInlineCapacity + 1" using n(2) by (simp add: payload_inv_def)
    then obtain r where r: "ResetInline n = Some r" "payload_inv r" by (rule ResetInline_ok)
    obtain q where q: "payload_assign (payload_text p) r = Some q" "payload_inv q"
      "payload_text q = payload_text p"
      using payload_assign_ok [OF r(2)] by metis
    show ?thesis using True inv by (simp add: payload_move_def MoveFrom_def n(1) r(1) view q)
  next
    case False
    have "length (inline_storage (p\<lparr>heap_storage := None\<rparr>)) = kInlineCapacity + 1"
      using inv by (simp add: payload_inv_def)
    then obtain p' where p': "ResetInline (p\<lparr>heap_storage := None\<rparr>) = Some p'" "payload_inv p'"
      "payload_text p' = []" "is_inline p'"
      by (rule ResetInline_ok)
    let ?q = "n\<lparr>heap_storage := heap_storage p, data_at := HeapData,
      payload_capacity := payload_capacity p, payload_size := payload_size p\<rparr>"
    have heap: "data_at p = HeapData" using False by (cases "data_at p") (simp_all add: is_inline_def)
    have "payload_inv ?q \<and> payload_text ?q = payload_text p"
      using inv n(2) heap by (auto simp: payload_inv_def block_def payload_text_def)
    then show ?thesis using False by (simp add: payload_move_def MoveFrom_def n(1) p')
  qed
qed

theorem payload_copy_move_witness:
  "\<exists>p q. payload_new = Some p \<and> payload_copy p = Some q \<and> payload_text q = []"
proof -
  obtain p where "payload_new = Some p" "payload_inv p" "payload_text p = []" "is_inline p"
    by (rule payload_new_ok)
  with payload_copy_move [of p] show ?thesis by auto
qed

section \<open>Appending a view of the payload itself\<close>

lemma payload_append_own_run:
  assumes inv: "payload_inv p" and range: "off + len \<le> payload_size p"
    and alive: "data_at p = HeapData \<Longrightarrow> payload_size p + len \<le> payload_capacity p"
  shows "payload_append_own off len p = payload_append (take len (drop off (payload_text p))) p"
proof (cases "len = 0")
  case True
  then show ?thesis by (simp add: payload_append_own_def payload_append_def)
next
  case False
  let ?v = "take len (drop off (payload_text p))"
  have lenv: "length ?v = len" using inv range by simp
  then have ne: "?v \<noteq> []" using False by auto
  obtain p1 where p1: "EnsureCapacity (payload_size p + len) p = Some p1"
    using EnsureCapacity_ok [OF inv] by metis
  let ?src = "case data_at p of
                 InlineData \<Rightarrow> Some (inline_storage p1)
               | HeapData \<Rightarrow> (if payload_size p + len \<le> payload_capacity p then heap_storage p1 else None)"
  have inl: "inline_storage p1 = inline_storage p"
    using p1 by (auto simp: EnsureCapacity_def Let_def split: if_splits bind_splits)
  have same: "data_at p = HeapData \<Longrightarrow> p1 = p"
    using p1 alive by (simp add: EnsureCapacity_def)
  have src: "?src = block p"
    using alive same inl by (auto simp: block_def is_inline_def split: data_ptr.splits)
  obtain b where b: "block p = Some b" "length b = Suc (payload_capacity p)"
    using inv by (auto simp: payload_inv_def)
  have "payload_size p \<le> payload_capacity p" using inv by (simp add: payload_inv_def)
  then have v: "off + len \<le> length b" "take len (drop off b) = ?v"
    using b range by (auto simp: payload_text_block take_drop min_def)
  show ?thesis
    using False ne lenv p1 src b(1) v
    by (simp add: payload_append_own_def payload_append_def Let_def)
qed

text \<open>
  Appending a view of the payload's own text works as long as the storage the view points
  into survives: on an inline payload always, on a heap payload exactly while the capacity
  suffices.  When a heap payload must grow, \<open>EnsureCapacity\<close> has freed the block before
  \<open>append\<close> reads it, so the call is undefined behaviour.
\<close>

theorem payload_append_own_text:
  assumes inv: "payload_inv p" and range: "off + len \<le> payload_size p" and len: "0 < len"
  shows "if is_inline p \<or> payload_size p + len \<le> payload_capacity p
    then \<exists>p'. payload_append_own off len p = Some p' \<and> payload_inv p' \<and>
           payload_text p' = payload_text p @ take len (drop off (payload_text p))
    else payload_append_own off len p = None"
proof (cases "is_inline p \<or> payload_size p + len \<le> payload_capacity p")
  case True
  then have "data_at p = HeapData \<Longrightarrow> payload_size p + len \<le> payload_capacity p"
    by (auto simp: is_inline_def)
  from payload_append_own_run [OF inv range this]
  show ?thesis using True payload_append_ok [OF inv] by simp metis
next
  case False
  then have "data_at p = HeapData" by (cases "data_at p") (auto simp: is_inline_def)
  with False len show ?thesis
    by (auto simp: payload_append_own_def bind_eq_None_conv)
qed

theorem payload_append_own_text_witness:
  "\<exists>p q. payload_of_view ''ab'' = Some p \<and> payload_append_own 0 2 p = Some q \<and> payload_text q = ''abab''"
proof -
  obtain n where n: "payload_new = Some n" "payload_inv n" "is_inline n"
    by (rule payload_new_ok)
  obtain p where p: "payload_assign ''ab'' n = Some p" "payload_inv p" "payload_text p = ''ab''"
    "is_inline p"
    using payload_assign_ok [OF n(2), of "''ab''"] n(3) by (auto simp: kInlineCapacity_def)
  have "payload_size p = 2" using length_payload_text [OF p(2)] p(3) by simp
  then show ?thesis
    using payload_append_own_text [OF p(2), of 0 2] p(3,4) by (auto simp: payload_of_view_def n(1) p(1))
qed

lemma payload_assign_own_run:
  assumes inv: "payload_inv p" and range: "off + len \<le> payload_size p"
  shows "payload_assign_own off len p =
    (if len = 0 \<or> len \<le> off then payload_assign (take len (drop off (payload_text p))) p else None)"
proof -
  obtain b where b: "block p = Some b" "length b = Suc (payload_capacity p)" "payload_size p \<le> payload_capacity p"
    using inv by (auto simp: payload_inv_def)
  have same: "EnsureCapacity len p = Some p" using range b(3) by (simp add: EnsureCapacity_def)
  have v: "off + len \<le> length b" "take len (drop off b) = take len (drop off (payload_text p))"
    using b range by (auto simp: payload_text_block take_drop min_def)
  have len: "length (take len (drop off (payload_text p))) = len" using inv range by simp
  then have "take len (drop off (payload_text p)) = [] \<longleftrightarrow> len = 0" by (metis length_0_conv)
  then show ?thesis using same b(1) v len by (simp add: payload_assign_own_def payload_assign_def)
qed

section \<open>Any program over payload objects\<close>

text \<open>
  The operations on one payload, those with a view of its own text included; texts given as strings are
  stored outside the payload.  A view that is not within the text is not a view of it: \<open>None\<close>.
\<close>

datatype payload_op =
    OpAssign string | OpAssignCStr "string option" | OpAppend string | OpAppendCStr "string option"
  | OpPushBack char | OpClear | OpAssignOwn nat nat | OpAppendOwn nat nat

fun payload_do :: "payload_op \<Rightarrow> LogPayload \<Rightarrow> LogPayload option" where
  "payload_do (OpAssign v) p = payload_assign v p"
| "payload_do (OpAssignCStr v) p = payload_assign_cstr v p"
| "payload_do (OpAppend v) p = payload_append v p"
| "payload_do (OpAppendCStr v) p = payload_append_cstr v p"
| "payload_do (OpPushBack c) p = payload_push_back c p"
| "payload_do OpClear p = payload_clear p"
| "payload_do (OpAssignOwn off len) p = (if off + len \<le> payload_size p then payload_assign_own off len p else None)"
| "payload_do (OpAppendOwn off len) p = (if off + len \<le> payload_size p then payload_append_own off len p else None)"

text \<open>
  Programs over a list of payload objects, addressed by their index: the constructors, the operations on
  one object, and copy and move assignment of one object to another or to itself.
\<close>

datatype payload_cmd =
    NewEmpty | NewOf string | NewOfCStr "string option" | NewCopy nat | NewMove nat
  | Apply nat payload_op | CopyAssign nat nat | MoveAssign nat nat

fun payload_exec :: "payload_cmd \<Rightarrow> LogPayload list \<Rightarrow> LogPayload list option" where
  "payload_exec NewEmpty ps = do { p \<leftarrow> payload_new; Some (ps @ [p]) }"
| "payload_exec (NewOf v) ps = do { p \<leftarrow> payload_of_view v; Some (ps @ [p]) }"
| "payload_exec (NewOfCStr v) ps = do { p \<leftarrow> payload_of_cstr v; Some (ps @ [p]) }"
| "payload_exec (NewCopy j) ps =
     (if j < length ps then do { p \<leftarrow> payload_copy (ps ! j); Some (ps @ [p]) } else None)"
| "payload_exec (NewMove j) ps =
     (if j < length ps then do { (p, q) \<leftarrow> payload_move (ps ! j); Some (ps[j := q] @ [p]) } else None)"
| "payload_exec (Apply i c) ps =
     (if i < length ps then do { p \<leftarrow> payload_do c (ps ! i); Some (ps[i := p]) } else None)"
| "payload_exec (CopyAssign i j) ps =
     (if i < length ps \<and> j < length ps
      then do { p \<leftarrow> payload_copy_assign (i = j) (ps ! i) (ps ! j); Some (ps[i := p]) } else None)"
| "payload_exec (MoveAssign i j) ps =
     (if i < length ps \<and> j < length ps
      then do { (p, q) \<leftarrow> payload_move_assign (i = j) (ps ! i) (ps ! j); Some (ps[i := p, j := q]) } else None)"

fun run_cmds :: "('c \<Rightarrow> 's \<Rightarrow> 's option) \<Rightarrow> 'c list \<Rightarrow> 's \<Rightarrow> 's option" where
  "run_cmds exec [] s = Some s"
| "run_cmds exec (c # cs) s = do { s' \<leftarrow> exec c s; run_cmds exec cs s' }"

text \<open>
  The specification: strings, each with the room it has.  The room starts at 256 and never shrinks while
  the object lives, except that an object whose text was moved out of the heap starts afresh.
\<close>

definition grown :: "nat \<Rightarrow> nat \<Rightarrow> nat" where
  "grown n c = (if n \<le> c then c else max (c * 2) n)"

fun text_do :: "payload_op \<Rightarrow> string \<times> nat \<Rightarrow> (string \<times> nat) option" where
  "text_do (OpAssign v) (s, c) = Some (v, grown (length v) c)"
| "text_do (OpAssignCStr v) (s, c) = (case v of None \<Rightarrow> Some ([], c) | Some t \<Rightarrow> Some (t, grown (length t) c))"
| "text_do (OpAppend v) (s, c) = Some (s @ v, grown (length s + length v) c)"
| "text_do (OpAppendCStr v) (s, c) =
     (case v of None \<Rightarrow> Some (s, c) | Some t \<Rightarrow> Some (s @ t, grown (length s + length t) c))"
| "text_do (OpPushBack ch) (s, c) = Some (s @ [ch], grown (length s + 1) c)"
| "text_do OpClear (s, c) = Some ([], c)"
| "text_do (OpAssignOwn off len) (s, c) =
     (if off + len \<le> length s \<and> (len = 0 \<or> len \<le> off) then Some (take len (drop off s), c) else None)"
| "text_do (OpAppendOwn off len) (s, c) =
     (if off + len \<le> length s \<and> (len = 0 \<or> c = 256 \<or> length s + len \<le> c)
      then Some (s @ take len (drop off s), grown (length s + len) c) else None)"

definition text_moved :: "string \<times> nat \<Rightarrow> string \<times> nat" where
  "text_moved x = (if snd x = 256 then x else ([], 256))"

fun text_exec :: "payload_cmd \<Rightarrow> (string \<times> nat) list \<Rightarrow> (string \<times> nat) list option" where
  "text_exec NewEmpty ts = Some (ts @ [([], 256)])"
| "text_exec (NewOf v) ts = Some (ts @ [(v, grown (length v) 256)])"
| "text_exec (NewOfCStr v) ts =
     Some (ts @ [case v of None \<Rightarrow> ([], 256) | Some t \<Rightarrow> (t, grown (length t) 256)])"
| "text_exec (NewCopy j) ts =
     (if j < length ts then Some (ts @ [(fst (ts ! j), grown (length (fst (ts ! j))) 256)]) else None)"
| "text_exec (NewMove j) ts =
     (if j < length ts then Some (ts[j := text_moved (ts ! j)] @ [ts ! j]) else None)"
| "text_exec (Apply i c) ts =
     (if i < length ts then do { x \<leftarrow> text_do c (ts ! i); Some (ts[i := x]) } else None)"
| "text_exec (CopyAssign i j) ts =
     (if i < length ts \<and> j < length ts
      then Some (if i = j then ts
                 else ts[i := (fst (ts ! j), grown (length (fst (ts ! j))) (snd (ts ! i)))]) else None)"
| "text_exec (MoveAssign i j) ts =
     (if i < length ts \<and> j < length ts
      then Some (if i = j then ts else ts[i := ts ! j, j := text_moved (ts ! j)]) else None)"

definition payload_rep :: "LogPayload \<Rightarrow> string \<times> nat \<Rightarrow> bool" where
  "payload_rep p x \<longleftrightarrow> payload_inv p \<and> payload_text p = fst x \<and> payload_capacity p = snd x"

subsection \<open>Capacities\<close>

lemma inline_capacity: "payload_inv p \<Longrightarrow> is_inline p \<longleftrightarrow> payload_capacity p = 256"
  by (auto simp: payload_inv_def is_inline_def kInlineCapacity_def split: data_ptr.splits)

lemma inline_text_fits: "payload_inv p \<Longrightarrow> is_inline p \<Longrightarrow> length (payload_text p) \<le> kInlineCapacity"
  by (auto simp: payload_inv_def is_inline_def)

lemma EnsureCapacity_capacity: "EnsureCapacity n p = Some p' \<Longrightarrow> payload_capacity p' = grown n (payload_capacity p)"
  by (auto simp: EnsureCapacity_def grown_def Let_def split: if_splits bind_splits)

lemma store_bytes_capacity: "store_bytes off bs p = Some p' \<Longrightarrow> payload_capacity p' = payload_capacity p"
  by (auto simp: store_bytes_def split: bind_splits)

lemma grown_le [simp]: "n \<le> c \<Longrightarrow> grown n c = c"
  by (simp add: grown_def)

lemma size_le_capacity: "payload_inv p \<Longrightarrow> payload_size p \<le> payload_capacity p"
  by (simp add: payload_inv_def)

lemma assign_rep: "payload_inv p \<Longrightarrow> \<exists>p'. payload_assign v p = Some p' \<and> payload_rep p' (v, grown (length v) (payload_capacity p))"
  by (rule payload_assign_ok [of p v], assumption)
    (auto simp: payload_rep_def payload_assign_def dest!: EnsureCapacity_capacity store_bytes_capacity split: bind_splits if_splits)

lemma append_rep:
  "payload_inv p \<Longrightarrow> \<exists>p'. payload_append v p = Some p' \<and>
     payload_rep p' (payload_text p @ v, grown (payload_size p + length v) (payload_capacity p))"
  by (rule payload_append_ok [of p v], assumption)
    (auto simp: payload_rep_def payload_append_def Let_def size_le_capacity dest!: EnsureCapacity_capacity store_bytes_capacity
      split: bind_splits if_splits)

lemma new_rep: "\<exists>p. payload_new = Some p \<and> payload_rep p ([], 256)"
  by (rule payload_new_ok) (auto simp: payload_rep_def inline_capacity)

lemma reset_rep:
  "length (inline_storage p) = kInlineCapacity + 1 \<Longrightarrow> \<exists>p'. ResetInline p = Some p' \<and> payload_rep p' ([], 256)"
  by (rule ResetInline_ok [of p], assumption) (simp add: payload_rep_def inline_capacity)

lemma clear_rep: "payload_inv p \<Longrightarrow> \<exists>p'. payload_clear p = Some p' \<and> payload_rep p' ([], payload_capacity p)"
  by (rule payload_clear_ok [of p], assumption) (simp add: payload_rep_def)

subsection \<open>Operations on one payload\<close>

lemma rep_size: "payload_rep p x \<Longrightarrow> length (fst x) = payload_size p"
  by (auto simp: payload_rep_def dest: length_payload_text)

lemma rel_Some: "\<exists>p. e = Some p \<and> R p x \<Longrightarrow> rel_option R e (Some x)"
  by auto

lemma own_append_rep:
  assumes rep: "payload_rep p (s, c)"
  shows "rel_option payload_rep (payload_do (OpAppendOwn off len) p) (text_do (OpAppendOwn off len) (s, c))"
proof (cases "off + len \<le> length s")
  case True
  have inv: "payload_inv p" and s: "payload_text p = s" and c: "payload_capacity p = c" and n: "payload_size p = length s"
    using rep rep_size [OF rep] by (simp_all add: payload_rep_def)
  have range: "off + len \<le> payload_size p" using True n by simp
  have v: "length (take len (drop off s)) = len" using True by simp
  show ?thesis
  proof (cases "len = 0 \<or> c = 256 \<or> length s + len \<le> c")
    case fits: True
    have "data_at p = HeapData \<Longrightarrow> payload_size p + len \<le> payload_capacity p"
      using fits n c inline_capacity [OF inv] size_le_capacity [OF inv] by (auto simp: is_inline_def)
    from payload_append_own_run [OF inv range this] append_rep [OF inv, of "take len (drop off s)"]
    show ?thesis using True fits n s c v by auto
  next
    case False
    then show ?thesis
      using payload_append_own_text [OF inv range] inline_capacity [OF inv] n c True by (auto simp: is_inline_def)
  qed
qed (use rep_size [OF rep] in simp)

lemma own_assign_rep:
  assumes rep: "payload_rep p (s, c)"
  shows "rel_option payload_rep (payload_do (OpAssignOwn off len) p) (text_do (OpAssignOwn off len) (s, c))"
proof (cases "off + len \<le> length s")
  case True
  have inv: "payload_inv p" and s: "payload_text p = s" and c: "payload_capacity p = c" and n: "payload_size p = length s"
    using rep rep_size [OF rep] by (simp_all add: payload_rep_def)
  have range: "off + len \<le> payload_size p" using True n by simp
  have v: "length (take len (drop off s)) = len" using True by simp
  then have "grown (length (take len (drop off s))) c = c" using True n c size_le_capacity [OF inv] by simp
  with payload_assign_own_run [OF inv range] assign_rep [OF inv, of "take len (drop off s)"]
  show ?thesis using True n s c by auto
qed (use rep_size [OF rep] in simp)

lemma do_rep:
  assumes rep: "payload_rep p x"
  shows "rel_option payload_rep (payload_do c p) (text_do c x)"
proof -
  obtain s k where x: "x = (s, k)" by (cases x)
  have inv: "payload_inv p" and s: "payload_text p = s" and k: "payload_capacity p = k" and n: "payload_size p = length s"
    using rep rep_size [OF rep] x by (simp_all add: payload_rep_def)
  note assign = assign_rep [OF inv, unfolded k] and append = append_rep [OF inv, unfolded s k n] and clr = clear_rep [OF inv, unfolded k]
  show ?thesis
    using own_append_rep [OF rep [unfolded x]] own_assign_rep [OF rep [unfolded x]] assign append [of "[ch]" for ch]
      append clr rep
    unfolding x
    by (cases c) (auto simp: payload_assign_cstr_def payload_append_cstr_def payload_push_back_append
      simp del: payload_do.simps(7,8) text_do.simps(7,8) split: option.splits intro!: rel_Some)
qed

subsection \<open>Copies and moves\<close>

lemma move_rep:
  assumes target: "length (inline_storage this) = kInlineCapacity + 1" and rep: "payload_rep p x"
  shows "\<exists>q p'. MoveFrom this p = Some (q, p') \<and> payload_rep q x \<and> payload_rep p' (text_moved x)"
proof (cases "is_inline p")
  case True
  have inv: "payload_inv p" using rep by (simp add: payload_rep_def)
  have x: "snd x = 256" "length (fst x) \<le> 256" "text_moved x = x"
    using True rep inline_capacity [OF inv] rep_size [OF rep] size_le_capacity [OF inv] by (auto simp: payload_rep_def text_moved_def)
  obtain r where r: "ResetInline this = Some r" "payload_rep r ([], 256)" using reset_rep [OF target] by blast
  then obtain q where "payload_assign (payload_text p) r = Some q" "payload_rep q (payload_text p, grown (length (payload_text p)) 256)"
    using assign_rep [of r "payload_text p"] by (auto simp: payload_rep_def)
  moreover have "(payload_text p, grown (length (payload_text p)) 256) = x"
    using x rep by (simp add: payload_rep_def prod_eq_iff)
  ultimately show ?thesis using True x rep r(1) payload_view_text [OF inv] by (auto simp: MoveFrom_def)
next
  case False
  have inv: "payload_inv p" and heap: "data_at p = HeapData" and c: "snd x \<noteq> 256"
    using False rep inline_capacity [of p] by (auto simp: payload_rep_def is_inline_def intro: data_ptr.exhaust)
  have "length (inline_storage (p\<lparr>heap_storage := None\<rparr>)) = kInlineCapacity + 1" using inv by (simp add: payload_inv_def)
  then obtain p' where p': "ResetInline (p\<lparr>heap_storage := None\<rparr>) = Some p'" "payload_rep p' ([], 256)" using reset_rep by blast
  let ?q = "this\<lparr>heap_storage := heap_storage p, data_at := HeapData,
    payload_capacity := payload_capacity p, payload_size := payload_size p\<rparr>"
  have "payload_inv ?q \<and> payload_text ?q = payload_text p"
    using inv target heap by (auto simp: payload_inv_def block_def payload_text_def)
  then have "payload_rep ?q x" using rep by (simp add: payload_rep_def)
  then show ?thesis using False c p' by (simp add: MoveFrom_def text_moved_def)
qed

lemma rep_inline_length: "payload_rep p x \<Longrightarrow> length (inline_storage p) = kInlineCapacity + 1"
  by (simp add: payload_rep_def payload_inv_def)

lemma copy_rep: "payload_rep p x \<Longrightarrow> payload_rep n (t, c) \<Longrightarrow>
   \<exists>q. payload_copy_assign False n p = Some q \<and> payload_rep q (fst x, grown (length (fst x)) c)"
  using assign_rep [of n "fst x"] payload_view_text [of p] by (auto simp: payload_rep_def payload_copy_assign_def)

lemma copy_new_rep:
  assumes "payload_rep p x" shows "\<exists>q. payload_copy p = Some q \<and> payload_rep q (fst x, grown (length (fst x)) 256)"
proof -
  obtain n where n: "payload_new = Some n" "payload_rep n ([], 256)" using new_rep by blast
  from copy_rep [OF assms n(2)] show ?thesis by (simp add: payload_copy_def payload_copy_assign_def n(1))
qed

lemma move_new_rep:
  assumes "payload_rep p x"
  shows "\<exists>q p'. payload_move p = Some (q, p') \<and> payload_rep q x \<and> payload_rep p' (text_moved x)"
proof -
  obtain n where n: "payload_new = Some n" "payload_rep n ([], 256)" using new_rep by blast
  with move_rep [OF rep_inline_length [OF n(2)] assms] show ?thesis by (simp add: payload_move_def n(1))
qed

lemma of_view_rep: "\<exists>p. payload_of_view v = Some p \<and> payload_rep p (v, grown (length v) 256)"
proof -
  obtain n where n: "payload_new = Some n" "payload_rep n ([], 256)" using new_rep by blast
  then have "payload_inv n" "payload_capacity n = 256" by (simp_all add: payload_rep_def)
  with assign_rep [of n v] n show ?thesis by (simp add: payload_of_view_def n(1))
qed

lemma of_cstr_rep:
  "\<exists>p. payload_of_cstr v = Some p \<and> payload_rep p (case v of None \<Rightarrow> ([], 256) | Some t \<Rightarrow> (t, grown (length t) 256))"
proof (cases v)
  case None
  then show ?thesis using new_rep by (auto simp: payload_of_cstr_def)
next
  case (Some t)
  then show ?thesis using of_view_rep [of t] by (simp add: payload_of_cstr_def payload_of_view_def)
qed

subsection \<open>Programs\<close>

lemma rep_all_nth: "list_all2 R ps ts \<Longrightarrow> i < length ts \<Longrightarrow> R (ps ! i) (ts ! i)"
  by (simp add: list_all2_conv_all_nth)

lemma exec_rep:
  assumes all: "list_all2 payload_rep ps ts"
  shows "rel_option (list_all2 payload_rep) (payload_exec c ps) (text_exec c ts)"
proof -
  have len: "length ps = length ts" using all by (rule list_all2_lengthD)
  note nth = rep_all_nth [OF all]
  show ?thesis
  proof (cases c)
    case (Apply i d)
    then show ?thesis using do_rep [OF nth, of i d] len all
      by (auto simp: option_rel_Some2 option_rel_Some1 intro!: list_all2_update_cong elim!: option.rel_cases split: bind_splits)
  next
    case (CopyAssign i j)
    then show ?thesis using copy_rep [OF nth [of j], of "ps ! i" "fst (ts ! i)" "snd (ts ! i)"] nth [of i] len all
      by (cases "i = j") (auto simp: payload_copy_assign_def [of True] intro!: list_all2_update_cong)
  next
    case (MoveAssign i j)
    then show ?thesis using move_rep [OF rep_inline_length [OF nth [of i]] nth [of j]] len all
      by (cases "i = j") (auto simp: payload_move_assign_def intro!: list_all2_update_cong)
  next
    case (NewMove j)
    then show ?thesis using move_new_rep [OF nth [of j]] len all
      by (auto intro!: list_all2_update_cong list_all2_appendI)
  next
    case (NewCopy j)
    then show ?thesis using copy_new_rep [OF nth [of j]] len all by (auto intro!: list_all2_appendI)
  next
    case NewEmpty
    obtain n where n: "payload_new = Some n" "payload_rep n ([], 256)" using new_rep by blast
    then show ?thesis using NewEmpty all by (auto simp: n(1) intro!: list_all2_appendI)
  next
    case (NewOf v)
    then show ?thesis using of_view_rep [of v] all by (auto intro!: list_all2_appendI)
  next
    case (NewOfCStr v)
    then show ?thesis using of_cstr_rep [of v] all by (auto intro!: list_all2_appendI)
  qed
qed

lemma run_cmds_rel:
  assumes "\<And>c s t. R s t \<Longrightarrow> rel_option R (f c s) (g c t)"
  shows "R s t \<Longrightarrow> rel_option R (run_cmds f cs s) (run_cmds g cs t)"
proof (induction cs arbitrary: s t)
  case (Cons c cs)
  from assms [OF Cons.prems, of c] show ?case by (cases rule: option.rel_cases) (auto intro: Cons.IH)
qed simp

text \<open>
  C36. A program over payload objects, of constructors, assignments, appends, push-backs, clears, copies and
  moves, has a defined result exactly when the specification gives one: the only calls without are an
  append to a heap payload of a view of its own text for which the capacity does not suffice, an assignment of a
  view of its own text that overlaps the start of the text, and calls on an object or a view that does not exist.  Then every object holds the text and has the
  capacity of the specification, and is inline exactly while the capacity is 256.
\<close>

theorem payload_run_refines_string:
  "rel_option (list_all2 (\<lambda>p (text, capacity). payload_inv p \<and> payload_view p = Some text \<and>
       payload_capacity p = capacity \<and> (is_inline p \<longleftrightarrow> capacity = 256)))
     (run_cmds payload_exec cs []) (run_cmds text_exec cs [])"
proof -
  have "rel_option (list_all2 payload_rep) (run_cmds payload_exec cs []) (run_cmds text_exec cs [])"
    by (rule run_cmds_rel) (simp_all add: exec_rep)
  then show ?thesis
    by (rule option.rel_mono_strong, elim list.rel_mono_strong)
      (auto simp: payload_rep_def payload_view_text inline_capacity)
qed

end
