(* ===== verification/Decimal.thy ===== *)
theory Decimal
  imports Prelude
begin

text \<open>
  Decimal text of integers as the library prints it: \<open>std::to_chars\<close> into a fixed buffer
  (\<open>AppendPayloadPart\<close> of \<open>async_logger.h\<close> and \<open>AppendInteger\<close> of \<open>pattern_formatter.cpp\<close>)
  and \<open>std::to_string\<close> (archive names of \<open>rotating_file_sink.cpp\<close>).  Both are standard
  library functions: their base-10 output is defined here, and the lemmas bound its length and
  show that it can be read back.
\<close>

definition digit :: "nat \<Rightarrow> char" where
  "digit d = char_of (48 + d)"

fun decimal :: "nat \<Rightarrow> string" where
  "decimal n = (if n < 10 then [digit n] else decimal (n div 10) @ [digit (n mod 10)])"

declare decimal.simps [simp del]

definition int_text :: "int \<Rightarrow> string" where
  "int_text i = (if i < 0 then CHR ''-'' # decimal (nat (- i)) else decimal (nat i))"

text \<open>\<open>std::to_chars\<close> fails, without output, when the text does not fit the buffer.\<close>

definition to_chars :: "nat \<Rightarrow> int \<Rightarrow> string option" where
  "to_chars buffer_size value =
     (if length (int_text value) \<le> buffer_size then Some (int_text value) else None)"

fun undecimal :: "string \<Rightarrow> nat \<Rightarrow> nat" where
  "undecimal [] acc = acc"
| "undecimal (c # cs) acc = undecimal cs (10 * acc + (of_char c - 48))"

section \<open>Digits\<close>

lemma of_char_digit [simp]: "d < 10 \<Longrightarrow> of_char (digit d) = 48 + d"
  by (simp add: digit_def)

lemma digit_eq_iff: "a < 10 \<Longrightarrow> b < 10 \<Longrightarrow> digit a = digit b \<longleftrightarrow> a = b"
  by (metis add_left_cancel of_char_digit)

lemma decimal_not_Nil [simp]: "decimal n \<noteq> []"
  by (subst decimal.simps) simp

lemma decimal_digits: "c \<in> set (decimal n) \<Longrightarrow> \<exists>d < 10. c = digit d"
proof (induction n rule: decimal.induct)
  case (1 n)
  show ?case
  proof (cases "n < 10")
    case True
    with 1 show ?thesis by (auto simp: decimal.simps [of n])
  next
    case False
    with 1 show ?thesis
      by (auto simp: decimal.simps [of n] intro: exI [of _ "n mod 10"])
  qed
qed

lemma decimal_code_range: "c \<in> set (decimal n) \<Longrightarrow> 48 \<le> (of_char c :: nat) \<and> (of_char c :: nat) \<le> 57"
  by (drule decimal_digits) auto

section \<open>Reading the digits back\<close>

lemma undecimal_append: "undecimal (xs @ ys) acc = undecimal ys (undecimal xs acc)"
  by (induction xs acc rule: undecimal.induct) auto

lemma undecimal_decimal: "undecimal (decimal n) 0 = n"
proof (induction n rule: decimal.induct)
  case (1 n)
  then show ?case
    by (cases "n < 10") (simp_all add: decimal.simps [of n] undecimal_append)
qed

lemma decimal_inject [simp]: "decimal m = decimal n \<longleftrightarrow> m = n"
  by (metis undecimal_decimal)

lemma undecimal_zeros: "undecimal (replicate k (digit 0) @ xs) 0 = undecimal xs 0"
  by (induction k) auto

section \<open>Length\<close>

lemma length_decimal: "n < 10 ^ k \<Longrightarrow> 0 < k \<Longrightarrow> length (decimal n) \<le> k"
proof (induction n arbitrary: k rule: decimal.induct)
  case (1 n)
  show ?case
  proof (cases "n < 10")
    case True
    with 1(3) show ?thesis by (simp add: decimal.simps [of n])
  next
    case False
    with 1(2) obtain j where k: "k = Suc j" and j: "0 < j"
      by (cases k; cases "k - 1") auto
    from 1(2) k have "n div 10 < 10 ^ j" by (simp add: div_less_iff_less_mult mult.commute)
    with 1(1) False j have "length (decimal (n div 10)) \<le> j" by blast
    with False k show ?thesis by (simp add: decimal.simps [of n])
  qed
qed

lemma length_int_text: "\<bar>i\<bar> < 10 ^ k \<Longrightarrow> 0 < k \<Longrightarrow> length (int_text i) \<le> Suc k"
proof -
  assume b: "\<bar>i\<bar> < 10 ^ k" and k: "0 < k"
  have "nat \<bar>i\<bar> < 10 ^ k" using b by (simp add: nat_less_iff)
  then have "length (decimal (nat \<bar>i\<bar>)) \<le> k" using k by (rule length_decimal)
  then show ?thesis by (auto simp: int_text_def abs_if split: if_splits)
qed

lemma length_int_text_nonneg: "0 \<le> i \<Longrightarrow> i < 10 ^ k \<Longrightarrow> 0 < k \<Longrightarrow> length (int_text i) \<le> k"
  by (simp add: int_text_def length_decimal nat_less_iff)

lemma int_text_nonneg: "0 \<le> i \<Longrightarrow> int_text i = decimal (nat i)"
  by (simp add: int_text_def)

lemma to_chars_fits: "length (int_text v) \<le> k \<Longrightarrow> to_chars k v = Some (int_text v)"
  by (simp add: to_chars_def)

end
