(* ===== verification/Log_Args.thy ===== *)
theory Log_Args
  imports Log_Payload Decimal
begin

text \<open>
  Building the payload of a message from the arguments of a log call: \<open>BuildPayload\<close> and
  \<open>AppendPayloadPart\<close> of \<open>include/hlog/async_logger.h\<close>.  The compile-time dispatch on the
  argument's type is a datatype with one constructor per branch.  The text of floating-point
  and streamed arguments comes from \<open>operator<<\<close>, which the standard library or the caller
  provides, so these arguments carry that text.

  The locales state what the builder needs of a buffer; the payload of \<open>Log_Payload\<close> is the
  buffer of the code.
\<close>

section \<open>Arguments\<close>

datatype IntType = I16 | U16 | I32 | U32 | I64 | U64

fun digits10 :: "IntType \<Rightarrow> nat" where
  "digits10 I16 = 4"
| "digits10 U16 = 4"
| "digits10 I32 = 9"
| "digits10 U32 = 9"
| "digits10 I64 = 18"
| "digits10 U64 = 19"

fun int_in_range :: "IntType \<Rightarrow> int \<Rightarrow> bool" where
  "int_in_range I16 i \<longleftrightarrow> - (2 ^ 15) \<le> i \<and> i < 2 ^ 15"
| "int_in_range U16 i \<longleftrightarrow> 0 \<le> i \<and> i < 2 ^ 16"
| "int_in_range I32 i \<longleftrightarrow> - (2 ^ 31) \<le> i \<and> i < 2 ^ 31"
| "int_in_range U32 i \<longleftrightarrow> 0 \<le> i \<and> i < 2 ^ 32"
| "int_in_range I64 i \<longleftrightarrow> - (2 ^ 63) \<le> i \<and> i < 2 ^ 63"
| "int_in_range U64 i \<longleftrightarrow> 0 \<le> i \<and> i < 2 ^ 64"

datatype LogArg =
    ArgPayload LogPayload
  | ArgString string
  | ArgCString "string option"
  | ArgCharArray string
  | ArgChar char
  | ArgByte u8
  | ArgBool bool
  | ArgInt IntType int
  | ArgFloat string
  | ArgStream string

text \<open>
  A \<open>std::string_view\<close> of a C string ends at the first NUL of the memory the pointer leads to;
  without one the scan leaves the object.
\<close>

definition c_string :: "string \<Rightarrow> string option" where
  "c_string mem = (if NUL \<in> set mem then Some (takeWhile (\<lambda>c. c \<noteq> NUL) mem) else None)"

text \<open>A string literal is an array of characters with its NUL.\<close>

definition literal_arg :: "string \<Rightarrow> LogArg" where
  "literal_arg s = ArgCharArray (s @ [NUL])"

section \<open>Appending the parts\<close>

fun append_part ::
  "(string \<Rightarrow> 'b \<Rightarrow> 'b option) \<Rightarrow> (char \<Rightarrow> 'b \<Rightarrow> 'b option) \<Rightarrow> LogArg \<Rightarrow> 'b \<Rightarrow> 'b option" where
  "append_part app push (ArgPayload q) b = do { v \<leftarrow> payload_view q; app v b }"
| "append_part app push (ArgString s) b = app s b"
| "append_part app push (ArgCString None) b = app ''(null)'' b"
| "append_part app push (ArgCString (Some mem)) b = do { v \<leftarrow> c_string mem; app v b }"
| "append_part app push (ArgCharArray mem) b = do { v \<leftarrow> c_string mem; app v b }"
| "append_part app push (ArgChar c) b = push c b"
| "append_part app push (ArgByte w) b = push (char_of (unat w)) b"
| "append_part app push (ArgBool t) b = push (if t then CHR ''1'' else CHR ''0'') b"
| "append_part app push (ArgInt ty i) b =
     (case to_chars (digits10 ty + 3) i of Some s \<Rightarrow> app s b | None \<Rightarrow> Some b)"
| "append_part app push (ArgFloat s) b = app s b"
| "append_part app push (ArgStream s) b = app s b"

fun append_parts ::
  "(string \<Rightarrow> 'b \<Rightarrow> 'b option) \<Rightarrow> (char \<Rightarrow> 'b \<Rightarrow> 'b option) \<Rightarrow> LogArg list \<Rightarrow> 'b \<Rightarrow> 'b option" where
  "append_parts app push [] b = Some b"
| "append_parts app push (a # as) b =
     do { b' \<leftarrow> append_part app push a b; append_parts app push as b' }"

definition AppendPayloadPart :: "LogArg \<Rightarrow> LogPayload \<Rightarrow> LogPayload option" where
  "AppendPayloadPart = append_part payload_append payload_push_back"

definition BuildPayload :: "LogArg list \<Rightarrow> LogPayload option" where
  "BuildPayload args =
     do { payload \<leftarrow> payload_new; append_parts payload_append payload_push_back args payload }"

section \<open>The text of an argument\<close>

fun arg_ok :: "LogArg \<Rightarrow> bool" where
  "arg_ok (ArgPayload q) \<longleftrightarrow> payload_inv q"
| "arg_ok (ArgCString (Some mem)) \<longleftrightarrow> NUL \<in> set mem"
| "arg_ok (ArgCharArray mem) \<longleftrightarrow> NUL \<in> set mem"
| "arg_ok (ArgInt ty i) \<longleftrightarrow> int_in_range ty i"
| "arg_ok _ \<longleftrightarrow> True"

fun arg_text :: "LogArg \<Rightarrow> string" where
  "arg_text (ArgPayload q) = payload_text q"
| "arg_text (ArgString s) = s"
| "arg_text (ArgCString None) = ''(null)''"
| "arg_text (ArgCString (Some mem)) = takeWhile (\<lambda>c. c \<noteq> NUL) mem"
| "arg_text (ArgCharArray mem) = takeWhile (\<lambda>c. c \<noteq> NUL) mem"
| "arg_text (ArgChar c) = [c]"
| "arg_text (ArgByte w) = [char_of (unat w)]"
| "arg_text (ArgBool t) = (if t then ''1'' else ''0'')"
| "arg_text (ArgInt ty i) = int_text i"
| "arg_text (ArgFloat s) = s"
| "arg_text (ArgStream s) = s"

text \<open>
  The buffer \<open>digits10 + 3\<close> bytes long holds every value of its type, so the error branch of
  \<open>std::to_chars\<close> is dead.
\<close>

lemma to_chars_integral:
  assumes "int_in_range ty i"
  shows "to_chars (digits10 ty + 3) i = Some (int_text i)"
proof -
  have *: "\<bar>i\<bar> < 10 ^ Suc (digits10 ty)" using assms by (cases ty) auto
  have "length (int_text i) \<le> digits10 ty + 3"
    using length_int_text [OF *] by simp
  then show ?thesis by (rule to_chars_fits)
qed

section \<open>What the builder needs of a buffer\<close>

locale text_buffer =
  fixes append_op :: "string \<Rightarrow> 'b \<Rightarrow> 'b option"
    and push_op :: "char \<Rightarrow> 'b \<Rightarrow> 'b option"
    and inv :: "'b \<Rightarrow> bool"
    and text_of :: "'b \<Rightarrow> string"
  assumes append_law: "inv b \<Longrightarrow> \<exists>b'. append_op s b = Some b' \<and> inv b' \<and> text_of b' = text_of b @ s"
    and push_law: "push_op c b = append_op [c] b"
begin

lemma part_is_append:
  "arg_ok a \<Longrightarrow> append_part append_op push_op a b = append_op (arg_text a) b"
  by (cases "(append_op, push_op, a, b)" rule: append_part.cases)
    (auto simp: payload_view_text c_string_def push_law to_chars_integral)

lemma part_text:
  "inv b \<Longrightarrow> arg_ok a \<Longrightarrow>
     \<exists>b'. append_part append_op push_op a b = Some b' \<and> inv b' \<and> text_of b' = text_of b @ arg_text a"
  using append_law by (simp add: part_is_append)

lemma parts_text:
  "inv b \<Longrightarrow> list_all arg_ok as \<Longrightarrow>
     \<exists>b'. append_parts append_op push_op as b = Some b' \<and> inv b' \<and>
       text_of b' = text_of b @ concat (map arg_text as)"
proof (induction as arbitrary: b)
  case Nil
  then show ?case by simp
next
  case (Cons a as)
  obtain b1 where b1: "append_part append_op push_op a b = Some b1" "inv b1"
    "text_of b1 = text_of b @ arg_text a"
    using part_text [OF Cons.prems(1), of a] Cons.prems(2) by auto
  from Cons.IH [OF b1(2)] Cons.prems(2) b1 show ?case by auto
qed

end

locale spilling_buffer = text_buffer +
  fixes inline :: "'b \<Rightarrow> bool" and limit :: nat
  assumes inline_law: "inv b \<Longrightarrow> append_op s b = Some b' \<Longrightarrow>
      inline b' \<longleftrightarrow> inline b \<and> length (text_of b') \<le> limit"
    and inline_fits: "inv b \<Longrightarrow> inline b \<Longrightarrow> length (text_of b) \<le> limit"
begin

lemma parts_inline:
  "inv b \<Longrightarrow> list_all arg_ok as \<Longrightarrow> append_parts append_op push_op as b = Some b' \<Longrightarrow>
     inline b' \<longleftrightarrow> inline b \<and> length (text_of b') \<le> limit"
proof (induction as arbitrary: b)
  case Nil
  then show ?case using inline_fits by auto
next
  case (Cons a as)
  obtain b1 where b1: "append_part append_op push_op a b = Some b1" "inv b1"
    using part_text [OF Cons.prems(1), of a] Cons.prems(2) by auto
  have rest: "append_parts append_op push_op as b1 = Some b'" using Cons.prems(3) b1 by simp
  have one: "inline b1 \<longleftrightarrow> inline b \<and> length (text_of b1) \<le> limit"
    using inline_law [OF Cons.prems(1), of "arg_text a" b1] b1 Cons.prems(2) part_is_append [of a b] by simp
  obtain b2 where "append_parts append_op push_op as b1 = Some b2"
    "text_of b2 = text_of b1 @ concat (map arg_text as)"
    using parts_text [OF b1(2), of as] Cons.prems(2) by auto
  then have "length (text_of b1) \<le> length (text_of b')" using rest by simp
  with Cons.IH [OF b1(2) _ rest] Cons.prems(2) one show ?case by auto
qed

end

interpretation payload: spilling_buffer payload_append payload_push_back payload_inv payload_text
  is_inline kInlineCapacity
proof unfold_locales
  show "\<exists>b'. payload_append s b = Some b' \<and> payload_inv b' \<and> payload_text b' = payload_text b @ s"
    if "payload_inv b" for s b
    using payload_append_ok [OF that] by metis
  show "payload_push_back c b = payload_append [c] b" for c b
    by (rule payload_push_back_append)
  show "is_inline b' \<longleftrightarrow> is_inline b \<and> length (payload_text b') \<le> kInlineCapacity"
    if "payload_inv b" "payload_append s b = Some b'" for b s b'
    using payload_append_ok [OF that(1), of s] that
    by (metis length_append length_payload_text option.inject)
  show "length (payload_text b) \<le> kInlineCapacity" if "payload_inv b" "is_inline b" for b
    using that by (rule inline_text_fits)
qed

lemma takeWhile_literal: "NUL \<notin> set s \<Longrightarrow> takeWhile (\<lambda>c. c \<noteq> NUL) (s @ [NUL]) = s"
  by (induction s) auto

lemma literal_arg_simps [simp]: "arg_ok (literal_arg s)" "NUL \<notin> set s \<Longrightarrow> arg_text (literal_arg s) = s"
  using takeWhile_literal by (simp_all add: literal_arg_def)

lemma BuildPayload_built:
  assumes "list_all arg_ok args"
  shows "\<exists>p. BuildPayload args = Some p \<and> payload_inv p \<and>
    payload_text p = concat (map arg_text args) \<and>
    (is_inline p \<longleftrightarrow> length (concat (map arg_text args)) \<le> 256)"
proof -
  obtain n where n: "payload_new = Some n" "payload_inv n" "payload_text n = []" "is_inline n"
    by (rule payload_new_ok)
  obtain p where p: "append_parts payload_append payload_push_back args n = Some p" "payload_inv p"
    "payload_text p = concat (map arg_text args)"
    using payload.parts_text [OF n(2) assms] n(3) by auto
  have "is_inline p \<longleftrightarrow> length (concat (map arg_text args)) \<le> 256"
    using payload.parts_inline [OF n(2) assms p(1)] n(4) p(3) by (simp add: kInlineCapacity_def)
  then show ?thesis by (simp add: BuildPayload_def n(1) p)
qed

text \<open>
  Building a payload from any argument list (valid payload arguments, NUL-terminated C strings,
  integers of their type) never leaves the memory it owns and yields the concatenation of the
  arguments' texts, \<open>(null)\<close> standing for a null pointer; the payload stays in the 256 inline
  bytes exactly when the whole text fits there.
\<close>

theorem BuildPayload_text:
  assumes "list_all arg_ok args"
  shows "\<exists>p. BuildPayload args = Some p \<and> payload_inv p \<and>
    payload_text p = concat (map arg_text args) \<and>
    (is_inline p \<longleftrightarrow> length (concat (map arg_text args)) \<le> 256)"
  using BuildPayload_built [OF assms] .

theorem BuildPayload_text_witness:
  "\<exists>p. BuildPayload [ArgString ''tid='', ArgInt I32 (-42), ArgBool True, ArgCString None] = Some p \<and>
     payload_text p = ''tid=-421(null)''"
proof -
  let ?args = "[ArgString ''tid='', ArgInt I32 (-42), ArgBool True, ArgCString None]"
  have "list_all arg_ok ?args" by simp
  moreover have "concat (map arg_text ?args) = ''tid=-421(null)''" by code_simp
  ultimately show ?thesis using BuildPayload_text [of ?args] by auto
qed

end
