(* ===== verification/Log_Level.thy ===== *)
theory Log_Level
  imports Prelude
begin

text \<open>
  The log levels of \<open>include/hlog/log_level.h\<close>: the enumeration, its text, the filter
  \<open>ShouldLog\<close> and the case-insensitive parser.  The enumeration has \<open>std::uint8_t\<close> as its
  underlying type, so the switch of \<open>ToString\<close> is modelled on the byte, where its fall-through
  answer \<open>UNKNOWN\<close> is reachable.
\<close>

datatype LogLevel = Trace | Debug | Info | Warn | Error | Critical | Off

fun level_code :: "LogLevel \<Rightarrow> u8" where
  "level_code Trace = 0"
| "level_code Debug = 1"
| "level_code Info = 2"
| "level_code Warn = 3"
| "level_code Error = 4"
| "level_code Critical = 5"
| "level_code Off = 6"

definition ToString_code :: "u8 \<Rightarrow> string" where
  "ToString_code c =
     (if c = level_code Trace then ''TRACE''
      else if c = level_code Debug then ''DEBUG''
      else if c = level_code Info then ''INFO''
      else if c = level_code Warn then ''WARN''
      else if c = level_code Error then ''ERROR''
      else if c = level_code Critical then ''CRITICAL''
      else if c = level_code Off then ''OFF''
      else ''UNKNOWN'')"

definition ToString :: "LogLevel \<Rightarrow> string" where
  "ToString l = ToString_code (level_code l)"

definition ShouldLog :: "LogLevel \<Rightarrow> LogLevel \<Rightarrow> bool" where
  "ShouldLog message_level configured_level \<longleftrightarrow>
     configured_level \<noteq> Off \<and>
     level_code message_level \<ge> level_code configured_level \<and>
     message_level \<noteq> Off"

text \<open>\<open>std::tolower\<close> of the C locale on one byte.\<close>

definition tolower :: "char \<Rightarrow> char" where
  "tolower c =
     (let n = (of_char c :: nat) in if 65 \<le> n \<and> n \<le> 90 then char_of (n + 32) else c)"

fun equals_from :: "string \<Rightarrow> string \<Rightarrow> bool" where
  "equals_from (l # ls) (r # rs) =
     (if tolower l \<noteq> tolower r then False else equals_from ls rs)"
| "equals_from _ _ = True"

definition EqualsIgnoreCase :: "string \<Rightarrow> string \<Rightarrow> bool" where
  "EqualsIgnoreCase left right =
     (if length left \<noteq> length right then False else equals_from left right)"

text \<open>
  The out-parameter of \<open>TryParseLogLevel\<close> is written exactly when it returns true, so the
  pair of them is an option.
\<close>

definition TryParseLogLevel :: "string \<Rightarrow> LogLevel option" where
  "TryParseLogLevel text =
     (if EqualsIgnoreCase text ''trace'' then Some Trace
      else if EqualsIgnoreCase text ''debug'' then Some Debug
      else if EqualsIgnoreCase text ''info'' then Some Info
      else if EqualsIgnoreCase text ''warn'' \<or> EqualsIgnoreCase text ''warning'' then Some Warn
      else if EqualsIgnoreCase text ''error'' then Some Error
      else if EqualsIgnoreCase text ''critical'' then Some Critical
      else if EqualsIgnoreCase text ''off'' then Some Off
      else None)"

definition ParseLogLevel :: "string \<Rightarrow> LogLevel \<Rightarrow> LogLevel" where
  "ParseLogLevel text fallback =
     (case TryParseLogLevel text of Some level \<Rightarrow> level | None \<Rightarrow> fallback)"

section \<open>Order\<close>

instantiation LogLevel :: linorder
begin

definition less_eq_LogLevel :: "LogLevel \<Rightarrow> LogLevel \<Rightarrow> bool" where
  "less_eq_LogLevel a b \<longleftrightarrow> level_code a \<le> level_code b"

definition less_LogLevel :: "LogLevel \<Rightarrow> LogLevel \<Rightarrow> bool" where
  "less_LogLevel a b \<longleftrightarrow> level_code a < level_code b"

instance
proof
  fix a b c :: LogLevel
  show "(a < b) = (a \<le> b \<and> \<not> b \<le> a)"
    by (auto simp: less_eq_LogLevel_def less_LogLevel_def)
  show "a \<le> a" by (simp add: less_eq_LogLevel_def)
  show "a \<le> c" if "a \<le> b" "b \<le> c" using that by (simp add: less_eq_LogLevel_def)
  show "a = b" if "a \<le> b" "b \<le> a"
    using that by (cases a; cases b) (simp_all add: less_eq_LogLevel_def word_le_nat_alt)
  show "a \<le> b \<or> b \<le> a" by (auto simp: less_eq_LogLevel_def)
qed

end

lemma level_code_inject [simp]: "level_code a = level_code b \<longleftrightarrow> a = b"
  by (cases a; cases b) simp_all

lemma le_Off [simp]: "l \<le> Off"
  by (cases l) (simp_all add: less_eq_LogLevel_def word_le_nat_alt)

section \<open>Filtering\<close>

text \<open>
  The filter is the order of the levels with \<open>Off\<close> taken out on both sides: a message
  passes exactly when neither its level nor the configured one is \<open>Off\<close> and its level is at
  least the configured one.
\<close>

theorem ShouldLog_iff_order: "ShouldLog m c \<longleftrightarrow> m \<noteq> Off \<and> c \<noteq> Off \<and> c \<le> m"
  by (auto simp: ShouldLog_def less_eq_LogLevel_def)

lemma ShouldLog_order: "ShouldLog m c \<longleftrightarrow> m < Off \<and> c \<le> m"
  by (cases m; cases c) (simp_all add: ShouldLog_def less_eq_LogLevel_def less_LogLevel_def
    word_le_nat_alt word_less_nat_alt)

lemma ShouldLog_Off [simp]: "\<not> ShouldLog Off c" "\<not> ShouldLog m Off"
  by (simp_all add: ShouldLog_def)

section \<open>Case-insensitive comparison\<close>

lemma equals_from_iff:
  "length l = length r \<Longrightarrow> equals_from l r \<longleftrightarrow> map tolower l = map tolower r"
  by (induction l r rule: equals_from.induct) auto

lemma EqualsIgnoreCase_iff: "EqualsIgnoreCase l r \<longleftrightarrow> map tolower l = map tolower r"
proof (cases "length l = length r")
  case True
  then show ?thesis by (simp add: EqualsIgnoreCase_def equals_from_iff)
next
  case False
  then have "map tolower l \<noteq> map tolower r" by (metis length_map)
  with False show ?thesis by (simp add: EqualsIgnoreCase_def)
qed

lemma TryParseLogLevel_tolower:
  "map tolower s = map tolower t \<Longrightarrow> TryParseLogLevel s = TryParseLogLevel t"
  by (simp add: TryParseLogLevel_def EqualsIgnoreCase_iff)

lemma TryParse_ToString [simp]: "TryParseLogLevel (ToString l) = Some l"
  by (cases l; simp only:; code_simp)

text \<open>
  Printing a level and parsing the text, in any letter case, gives the level back; so the
  texts of different levels differ even when case is ignored, and no level prints as
  \<open>UNKNOWN\<close>.
\<close>

theorem level_text_roundtrip:
  assumes "map tolower text = map tolower (ToString l)"
  shows "TryParseLogLevel text = Some l \<and> ParseLogLevel text fallback = l \<and>
    ToString l \<noteq> ''UNKNOWN''"
proof -
  have p: "TryParseLogLevel text = Some l"
    using TryParseLogLevel_tolower [OF assms] by simp
  have "ToString l \<noteq> ''UNKNOWN''"
    by (cases l) (simp_all add: ToString_def ToString_code_def)
  with p show ?thesis by (simp add: ParseLogLevel_def)
qed

theorem level_text_roundtrip_witness:
  "TryParseLogLevel ''CriTical'' = Some Critical"
proof -
  have "map tolower ''CriTical'' = map tolower (ToString Critical)"
    by code_simp
  from level_text_roundtrip [OF this, of Info] show ?thesis by simp
qed

end
