(* ===== verification/Log_Message.thy ===== *)
theory Log_Message
  imports Log_Args Log_Level
begin

text \<open>
  The records of \<open>include/hlog/detail/log_message.h\<close>: where a message comes from, the message
  itself, and the queue item that carries either a message or a flush request.  A time point is
  its count of clock ticks, taken to be nanoseconds as in libstdc++.
\<close>

record SourceLocation =
  source_file :: string
  source_line :: int
  source_function :: string

definition no_source :: SourceLocation where
  "no_source = \<lparr>source_file = [], source_line = 0, source_function = []\<rparr>"

record LogMessage =
  msg_timestamp :: int
  msg_level :: LogLevel
  msg_logger_name :: string
  msg_thread_id :: u64
  msg_source :: SourceLocation
  msg_payload :: LogPayload

text \<open>The default member values; the payload is the empty inline one that its constructor makes.\<close>

definition empty_payload :: LogPayload where
  "empty_payload =
     \<lparr>inline_storage = replicate (kInlineCapacity + 1) NUL, heap_storage = None,
      data_at = InlineData, payload_size = 0, payload_capacity = kInlineCapacity\<rparr>"

definition default_message :: LogMessage where
  "default_message =
     \<lparr>msg_timestamp = 0, msg_level = Info, msg_logger_name = [], msg_thread_id = 0,
      msg_source = no_source, msg_payload = empty_payload\<rparr>"

datatype QueueItemType = LogItem | FlushItem

record QueueItem =
  item_type :: QueueItemType
  item_ticket :: u64
  item_message :: LogMessage

definition default_item :: QueueItem where
  "default_item = \<lparr>item_type = LogItem, item_ticket = 0, item_message = default_message\<rparr>"

lemma payload_new_empty: "payload_new = Some empty_payload"
  by (simp add: payload_new_def ResetInline_def store_bytes_def overwrite_def block_def
    set_block_def empty_payload_def)

lemma empty_payload_ok [simp]:
  "payload_inv empty_payload" "payload_text empty_payload = []" "is_inline empty_payload"
  using fresh_inv [OF payload_new_empty] by simp_all

end
