(* ===== verification/Pattern_Formatter.thy ===== *)
theory Pattern_Formatter
  imports Log_Message "HOL-Library.Signed_Division"
begin

text \<open>
  The formatter of \<open>include/hlog/pattern_formatter.h\<close> and \<open>src/core/pattern_formatter.cpp\<close>:
  a pattern is compiled once into tokens (\<open>RebuildTokens\<close>) and every message is rendered from
  the tokens (\<open>FormatTo\<close>).  The broken-down local time comes from \<open>localtime_r\<close>, that is from
  the system's time zone: it is the parameter \<open>localtime\<close>.
\<close>

definition percent :: char where
  "percent = CHR 0x25"

definition kDefaultLogPattern :: string where
  "kDefaultLogPattern = ''%Y-%m-%d %H:%M:%S.%e [%l] [%n] [tid=%t] %v''"

datatype TokenType =
    LiteralToken | Year | Month | Day | Hour | Minute | Second | Millisecond
  | LevelToken | LoggerName | ThreadId | PayloadToken | SourceFile | SourceLine | SourceFunction

record Token =
  token_type :: TokenType
  token_literal :: string

record PatternFormatter =
  fmt_pattern :: string
  fmt_tokens :: "Token list"

section \<open>Compiling a pattern\<close>

definition flush_literal :: "string \<Rightarrow> Token list \<Rightarrow> Token list" where
  "flush_literal literal tokens =
     (if literal = [] then tokens
      else tokens @ [\<lparr>token_type = LiteralToken, token_literal = literal\<rparr>])"

definition push_token :: "TokenType \<Rightarrow> string \<Rightarrow> Token list \<Rightarrow> Token list" where
  "push_token t literal tokens = flush_literal literal tokens @ [\<lparr>token_type = t, token_literal = []\<rparr>]"

text \<open>The cases of the switch on the specifier that push one token.\<close>

definition specifier_token :: "char \<Rightarrow> TokenType option" where
  "specifier_token c =
     (if c = CHR ''Y'' then Some Year else if c = CHR ''m'' then Some Month
      else if c = CHR ''d'' then Some Day else if c = CHR ''H'' then Some Hour
      else if c = CHR ''M'' then Some Minute else if c = CHR ''S'' then Some Second
      else if c = CHR ''e'' then Some Millisecond else if c = CHR ''l'' then Some LevelToken
      else if c = CHR ''n'' then Some LoggerName else if c = CHR ''t'' then Some ThreadId
      else if c = CHR ''v'' then Some PayloadToken else if c = CHR ''s'' then Some SourceFile
      else if c = CHR ''#'' then Some SourceLine else if c = CHR ''!'' then Some SourceFunction
      else None)"

text \<open>
  The loop of the recursive lambda \<open>compile_pattern\<close>: what is left of the pattern, the pending
  \<open>literal\<close> and \<open>tokens_\<close>.
\<close>

function compile_pattern :: "bool \<Rightarrow> string \<Rightarrow> string \<Rightarrow> Token list \<Rightarrow> Token list" where
  "compile_pattern allow_default_expansion [] literal tokens = flush_literal literal tokens"
| "compile_pattern allow_default_expansion (current # rest) literal tokens =
     (if current \<noteq> percent then compile_pattern allow_default_expansion rest (literal @ [current]) tokens
      else (case rest of
        [] \<Rightarrow> flush_literal (literal @ [percent]) tokens
      | specifier # rest' \<Rightarrow>
          (if specifier = percent then
             compile_pattern allow_default_expansion rest' (literal @ [percent]) tokens
           else if specifier = CHR ''+'' then
             (if allow_default_expansion then
                compile_pattern allow_default_expansion rest' []
                  (compile_pattern False kDefaultLogPattern [] (flush_literal literal tokens))
              else
                compile_pattern allow_default_expansion rest' [percent, CHR ''+'']
                  (flush_literal literal tokens))
           else (case specifier_token specifier of
               Some t \<Rightarrow> compile_pattern allow_default_expansion rest' [] (push_token t literal tokens)
             | None \<Rightarrow>
                 compile_pattern allow_default_expansion rest' (literal @ [percent, specifier]) tokens))))"
  by pat_completeness auto
termination
  by (relation "measures [\<lambda>(allow, p, _, _). if allow then 1 else 0, \<lambda>(_, p, _, _). length p]") auto

declare compile_pattern.simps(2) [simp del]

definition RebuildTokens :: "PatternFormatter \<Rightarrow> PatternFormatter" where
  "RebuildTokens f = f\<lparr>fmt_tokens := compile_pattern True (fmt_pattern f) [] []\<rparr>"

definition PatternFormatter_new :: "string \<Rightarrow> PatternFormatter" where
  "PatternFormatter_new pattern = RebuildTokens \<lparr>fmt_pattern = pattern, fmt_tokens = []\<rparr>"

definition DefaultPattern :: string where
  "DefaultPattern = kDefaultLogPattern"

definition PatternFormatter_default :: PatternFormatter where
  "PatternFormatter_default = RebuildTokens \<lparr>fmt_pattern = DefaultPattern, fmt_tokens = []\<rparr>"

definition SetPattern :: "string \<Rightarrow> PatternFormatter \<Rightarrow> PatternFormatter" where
  "SetPattern pattern f = RebuildTokens (f\<lparr>fmt_pattern := pattern\<rparr>)"

section \<open>Rendering a message\<close>

record tm =
  tm_year :: int
  tm_mon :: int
  tm_mday :: int
  tm_hour :: int
  tm_min :: int
  tm_sec :: int

record TimestampParts =
  local_time :: tm
  millisecond :: int

text \<open>Both conversions of \<open>std::chrono\<close> truncate towards zero, and so does the remainder.\<close>

definition MakeTimestampParts :: "(int \<Rightarrow> tm) \<Rightarrow> int \<Rightarrow> TimestampParts" where
  "MakeTimestampParts localtime timestamp =
     \<lparr>local_time = localtime (timestamp sdiv 1000000000),
      millisecond = (timestamp sdiv 1000000) smod 1000\<rparr>"

definition no_parts :: TimestampParts where
  "no_parts = \<lparr>local_time = \<lparr>tm_year = 0, tm_mon = 0, tm_mday = 0, tm_hour = 0, tm_min = 0, tm_sec = 0\<rparr>,
     millisecond = 0\<rparr>"

definition AppendInteger :: "string \<Rightarrow> int \<Rightarrow> nat \<Rightarrow> string" where
  "AppendInteger output value width =
     (case to_chars 32 value of
        None \<Rightarrow> output
      | Some digits \<Rightarrow> output @ replicate (width - length digits) CHR ''0'' @ digits)"

definition is_separator :: "char \<Rightarrow> bool" where
  "is_separator c \<longleftrightarrow> c = CHR ''/'' \<or> c = CHR 0x5C"

definition find_last_separator :: "string \<Rightarrow> nat option" where
  "find_last_separator path =
     (case filter (\<lambda>i. is_separator (path ! i)) [0..<length path] of [] \<Rightarrow> None | is \<Rightarrow> Some (last is))"

definition BaseName :: "string \<Rightarrow> string" where
  "BaseName path =
     (case find_last_separator path of None \<Rightarrow> path | Some slash \<Rightarrow> drop (slash + 1) path)"

fun is_time_token :: "TokenType \<Rightarrow> bool" where
  "is_time_token Year = True"
| "is_time_token Month = True"
| "is_time_token Day = True"
| "is_time_token Hour = True"
| "is_time_token Minute = True"
| "is_time_token Second = True"
| "is_time_token Millisecond = True"
| "is_time_token _ = False"

fun append_token :: "TimestampParts \<Rightarrow> LogMessage \<Rightarrow> TokenType \<Rightarrow> string \<Rightarrow> string" where
  "append_token parts message LiteralToken output = output"
| "append_token parts message Year output = AppendInteger output (tm_year (local_time parts) + 1900) 4"
| "append_token parts message Month output = AppendInteger output (tm_mon (local_time parts) + 1) 2"
| "append_token parts message Day output = AppendInteger output (tm_mday (local_time parts)) 2"
| "append_token parts message Hour output = AppendInteger output (tm_hour (local_time parts)) 2"
| "append_token parts message Minute output = AppendInteger output (tm_min (local_time parts)) 2"
| "append_token parts message Second output = AppendInteger output (tm_sec (local_time parts)) 2"
| "append_token parts message Millisecond output = AppendInteger output (millisecond parts) 3"
| "append_token parts message LevelToken output = output @ ToString (msg_level message)"
| "append_token parts message LoggerName output = output @ msg_logger_name message"
| "append_token parts message ThreadId output = AppendInteger output (uint (msg_thread_id message)) 0"
| "append_token parts message PayloadToken output = output @ payload_text (msg_payload message)"
| "append_token parts message SourceFile output = output @ BaseName (source_file (msg_source message))"
| "append_token parts message SourceLine output =
     (if source_line (msg_source message) > 0
      then AppendInteger output (source_line (msg_source message)) 0 else output)"
| "append_token parts message SourceFunction output = output @ source_function (msg_source message)"

fun format_loop ::
  "(int \<Rightarrow> tm) \<Rightarrow> LogMessage \<Rightarrow> Token list \<Rightarrow> bool \<Rightarrow> TimestampParts \<Rightarrow> string \<Rightarrow> string" where
  "format_loop localtime message [] has_time parts output = output"
| "format_loop localtime message (token # tokens) has_time parts output =
     (if token_type token = LiteralToken then
        format_loop localtime message tokens has_time parts (output @ token_literal token)
      else
        (let make = is_time_token (token_type token) \<and> \<not> has_time;
             parts' = (if make then MakeTimestampParts localtime (msg_timestamp message) else parts)
         in format_loop localtime message tokens (has_time \<or> make) parts'
              (append_token parts' message (token_type token) output)))"

definition FormatTo :: "(int \<Rightarrow> tm) \<Rightarrow> PatternFormatter \<Rightarrow> string \<Rightarrow> LogMessage \<Rightarrow> string" where
  "FormatTo localtime f output message =
     format_loop localtime message (fmt_tokens f) False no_parts output"

definition Format :: "(int \<Rightarrow> tm) \<Rightarrow> PatternFormatter \<Rightarrow> LogMessage \<Rightarrow> string" where
  "Format localtime f message = FormatTo localtime f [] message"

section \<open>The tokens mean what the pattern says\<close>

text \<open>
  The reference meaning of a pattern, without tokens: the pattern is read from left to right and
  every conversion is replaced by its text.
\<close>

function render :: "bool \<Rightarrow> string \<Rightarrow> (TokenType \<Rightarrow> string) \<Rightarrow> string" where
  "render expand [] txt = []"
| "render expand (c # rest) txt =
     (if c \<noteq> percent then c # render expand rest txt
      else (case rest of
        [] \<Rightarrow> [percent]
      | s # rest' \<Rightarrow>
          (if s = percent then percent # render expand rest' txt
           else if s = CHR ''+'' then
             (if expand then render False kDefaultLogPattern txt else [percent, s]) @ render expand rest' txt
           else (case specifier_token s of
               Some t \<Rightarrow> txt t @ render expand rest' txt
             | None \<Rightarrow> percent # s # render expand rest' txt))))"
  by pat_completeness auto
termination
  by (relation "measures [\<lambda>(e, p, _). if e then 1 else 0, \<lambda>(_, p, _). length p]") auto

declare render.simps(2) [simp del]

text \<open>One rule per way the loop goes on, for both functions.\<close>

lemma percent_plus [simp]: "CHR ''+'' \<noteq> percent" "percent \<noteq> CHR ''+''"
  by (simp_all add: percent_def)

lemma compile_rules [simp]:
  "c \<noteq> percent \<Longrightarrow> compile_pattern e (c # r) lit ts = compile_pattern e r (lit @ [c]) ts"
  "compile_pattern e [percent] lit ts = flush_literal (lit @ [percent]) ts"
  "compile_pattern e (percent # percent # r) lit ts = compile_pattern e r (lit @ [percent]) ts"
  "compile_pattern True (percent # CHR ''+'' # r) lit ts =
     compile_pattern True r [] (compile_pattern False kDefaultLogPattern [] (flush_literal lit ts))"
  "compile_pattern False (percent # CHR ''+'' # r) lit ts =
     compile_pattern False r [percent, CHR ''+''] (flush_literal lit ts)"
  by (simp_all add: compile_pattern.simps(2))

lemma compile_specifier [simp]:
  "s \<noteq> percent \<Longrightarrow> s \<noteq> CHR ''+'' \<Longrightarrow> compile_pattern e (percent # s # r) lit ts =
     (case specifier_token s of
        Some t \<Rightarrow> compile_pattern e r [] (push_token t lit ts)
      | None \<Rightarrow> compile_pattern e r (lit @ [percent, s]) ts)"
  by (simp add: compile_pattern.simps(2))

lemma render_rules [simp]:
  "c \<noteq> percent \<Longrightarrow> render e (c # r) txt = c # render e r txt"
  "render e [percent] txt = [percent]"
  "render e (percent # percent # r) txt = percent # render e r txt"
  "render True (percent # CHR ''+'' # r) txt = render False kDefaultLogPattern txt @ render True r txt"
  "render False (percent # CHR ''+'' # r) txt = percent # CHR ''+'' # render False r txt"
  by (simp_all add: render.simps(2))

lemma render_specifier [simp]:
  "s \<noteq> percent \<Longrightarrow> s \<noteq> CHR ''+'' \<Longrightarrow> render e (percent # s # r) txt =
     (case specifier_token s of
        Some t \<Rightarrow> txt t @ render e r txt | None \<Rightarrow> percent # s # render e r txt)"
  by (simp add: render.simps(2))

text \<open>The same rules on literal characters, to run the functions on a concrete pattern.\<close>

lemmas pattern_eval =
  compile_rules [unfolded percent_def] compile_specifier [unfolded percent_def]
  render_rules [unfolded percent_def] render_specifier [unfolded percent_def]
  specifier_token_def kDefaultLogPattern_def

text \<open>Induction over a pattern along these rules.\<close>

lemma pattern_induct [case_names End Char Last Percent Plus Specifier Unknown]:
  assumes "P []"
    and "\<And>c r. c \<noteq> percent \<Longrightarrow> P r \<Longrightarrow> P (c # r)"
    and "P [percent]"
    and "\<And>r. P r \<Longrightarrow> P (percent # percent # r)"
    and "\<And>r. P r \<Longrightarrow> P (percent # CHR ''+'' # r)"
    and "\<And>s t r. s \<noteq> percent \<Longrightarrow> s \<noteq> CHR ''+'' \<Longrightarrow> specifier_token s = Some t \<Longrightarrow> P r \<Longrightarrow> P (percent # s # r)"
    and "\<And>s r. s \<noteq> percent \<Longrightarrow> s \<noteq> CHR ''+'' \<Longrightarrow> specifier_token s = None \<Longrightarrow> P r \<Longrightarrow> P (percent # s # r)"
  shows "P p"
proof (induction p rule: length_induct)
  case (1 p)
  then have IH: "length q < length p \<Longrightarrow> P q" for q by blast
  show ?case
  proof (cases p)
    case p: (Cons c r)
    show ?thesis
    proof (cases "c = percent")
      case False
      with p IH assms(2) show ?thesis by simp
    next
      case c: True
      show ?thesis
      proof (cases r)
        case Nil
        with p c assms(3) show ?thesis by simp
      next
        case (Cons s q)
        then have "P q" using p IH by simp
        then show ?thesis
          using p c Cons assms(4,5) [of q] assms(6) [of s _ q] assms(7) [of s q]
          by (cases "specifier_token s") blast+
      qed
    qed
  qed (simp add: assms(1))
qed

definition token_string :: "(int \<Rightarrow> tm) \<Rightarrow> LogMessage \<Rightarrow> TokenType \<Rightarrow> string" where
  "token_string localtime message t =
     append_token (MakeTimestampParts localtime (msg_timestamp message)) message t []"

definition tokens_string :: "(TokenType \<Rightarrow> string) \<Rightarrow> Token list \<Rightarrow> string" where
  "tokens_string txt tokens = concat (map (\<lambda>t.
     if token_type t = LiteralToken then token_literal t else txt (token_type t)) tokens)"

lemma specifier_not_literal: "specifier_token c = Some t \<Longrightarrow> t \<noteq> LiteralToken"
  by (auto simp: specifier_token_def split: if_splits)

lemma tokens_string_simps [simp]:
  "tokens_string txt [] = []"
  "tokens_string txt (xs @ ys) = tokens_string txt xs @ tokens_string txt ys"
  "tokens_string txt (flush_literal lit tokens) = tokens_string txt tokens @ lit"
  "t \<noteq> LiteralToken \<Longrightarrow> tokens_string txt (push_token t lit tokens) = tokens_string txt tokens @ lit @ txt t"
  by (simp_all add: tokens_string_def flush_literal_def push_token_def)

lemma compile_closed_string:
  "tokens_string txt (compile_pattern False p lit tokens) = tokens_string txt tokens @ lit @ render False p txt"
  by (induction p arbitrary: lit tokens rule: pattern_induct)
    (auto simp: specifier_not_literal split: option.splits)

lemma compile_pattern_string:
  "tokens_string txt (compile_pattern True p lit tokens) = tokens_string txt tokens @ lit @ render True p txt"
  by (induction p arbitrary: lit tokens rule: pattern_induct)
    (auto simp: specifier_not_literal compile_closed_string split: option.splits)

lemma append_token_output: "append_token parts m t out = out @ append_token parts m t []"
  by (cases t) (auto simp: AppendInteger_def split: option.splits)

lemma append_token_parts: "\<not> is_time_token t \<Longrightarrow> append_token p m t out = append_token q m t out"
  by (cases t) auto

lemma format_loop_string:
  "(has_time \<Longrightarrow> parts = MakeTimestampParts localtime (msg_timestamp m)) \<Longrightarrow>
     format_loop localtime m tokens has_time parts out = out @ tokens_string (token_string localtime m) tokens"
proof (induction tokens arbitrary: has_time parts out)
  case Nil
  then show ?case by simp
next
  case (Cons t ts)
  let ?mtp = "MakeTimestampParts localtime (msg_timestamp m)"
  show ?case
  proof (cases "token_type t = LiteralToken")
    case True
    with Cons show ?thesis by (simp add: tokens_string_def)
  next
    case False
    show ?thesis
    proof (cases "is_time_token (token_type t) \<and> \<not> has_time")
      case True
      with False Cons.IH [of True ?mtp] show ?thesis
        by (simp add: Let_def append_token_output [of _ _ _ out] token_string_def tokens_string_def)
    next
      case keep: False
      then have "append_token parts m (token_type t) out = append_token ?mtp m (token_type t) out"
        using Cons.prems append_token_parts [of "token_type t"] by auto
      with False keep Cons.IH [of has_time parts] Cons.prems show ?thesis
        by (auto simp: Let_def append_token_output [of _ _ _ out] token_string_def tokens_string_def)
    qed
  qed
qed

lemma FormatTo_append: "FormatTo lt f out m = out @ Format lt f m"
  by (simp add: FormatTo_def Format_def format_loop_string)

text \<open>
  C37. The compiled formatter implements the pattern: formatting with the tokens of any pattern,
  timestamp computed at most once, gives the text that replacing the conversions of the pattern
  one by one gives, after whatever the output already held.
\<close>

theorem FormatTo_refines_pattern:
  "FormatTo localtime (PatternFormatter_new pattern) output message =
     output @ render True pattern (token_string localtime message)"
  by (simp add: FormatTo_def PatternFormatter_new_def RebuildTokens_def format_loop_string
      compile_pattern_string)

section \<open>Normal form of the tokens\<close>

definition is_literal :: "Token \<Rightarrow> bool" where
  "is_literal t \<longleftrightarrow> token_type t = LiteralToken"

text \<open>Literals are not empty, other tokens carry no literal, and no two literals are adjacent.\<close>

fun normal_tokens :: "Token list \<Rightarrow> bool" where
  "normal_tokens [] = True"
| "normal_tokens (t # ts) \<longleftrightarrow>
     (is_literal t \<longleftrightarrow> token_literal t \<noteq> []) \<and>
     (is_literal t \<longrightarrow> (case ts of [] \<Rightarrow> True | u # _ \<Rightarrow> \<not> is_literal u)) \<and> normal_tokens ts"

definition ends_open :: "Token list \<Rightarrow> bool" where
  "ends_open ts \<longleftrightarrow> ts = [] \<or> \<not> is_literal (last ts)"

lemma ends_open_simps [simp]:
  "ends_open []" "ends_open (ts @ [t]) = (\<not> is_literal t)"
  by (simp_all add: ends_open_def)

lemma normal_tokens_append1:
  "normal_tokens (ts @ [t]) \<longleftrightarrow> normal_tokens ts \<and> (is_literal t \<longleftrightarrow> token_literal t \<noteq> []) \<and>
     (is_literal t \<longrightarrow> ends_open ts)"
  by (induction ts) (auto simp: ends_open_def split: list.splits)

lemma flush_literal_normal:
  "normal_tokens ts \<Longrightarrow> (lit \<noteq> [] \<Longrightarrow> ends_open ts) \<Longrightarrow> normal_tokens (flush_literal lit ts)"
  by (auto simp: flush_literal_def normal_tokens_append1 is_literal_def)

lemma push_token_normal:
  "normal_tokens ts \<Longrightarrow> ends_open ts \<Longrightarrow> t \<noteq> LiteralToken \<Longrightarrow>
     normal_tokens (push_token t lit ts) \<and> ends_open (push_token t lit ts)"
  by (simp add: push_token_def normal_tokens_append1 flush_literal_normal is_literal_def)

text \<open>The compiled form of the default pattern, appended behind the tokens already there.\<close>

lemma flush_push_append:
  "flush_literal lit (xs @ ys) = xs @ flush_literal lit ys"
  "push_token t lit (xs @ ys) = xs @ push_token t lit ys"
  by (simp_all add: flush_literal_def push_token_def)

lemma compile_closed_append:
  "compile_pattern False p lit (xs @ ys) = xs @ compile_pattern False p lit ys"
  by (induction p arbitrary: lit ys rule: pattern_induct) (simp_all add: flush_push_append)

definition default_tokens :: "Token list" where
  "default_tokens = compile_pattern False kDefaultLogPattern [] []"

lemma default_tokens_run:
  "default_tokens =
     flush_literal [] (push_token PayloadToken ''] '' (push_token ThreadId ''] [tid=''
       (push_token LoggerName ''] ['' (push_token LevelToken '' ['' (push_token Millisecond ''.''
       (push_token Second '':'' (push_token Minute '':'' (push_token Hour '' '' (push_token Day ''-''
       (push_token Month ''-'' (push_token Year [] [])))))))))))"
  unfolding default_tokens_def by (simp only: kDefaultLogPattern_def) (simp add: pattern_eval)

lemma default_tokens_types:
  "map token_type default_tokens =
     [Year, LiteralToken, Month, LiteralToken, Day, LiteralToken, Hour, LiteralToken, Minute,
      LiteralToken, Second, LiteralToken, Millisecond, LiteralToken, LevelToken, LiteralToken,
      LoggerName, LiteralToken, ThreadId, LiteralToken, PayloadToken]"
  by (simp add: default_tokens_run flush_literal_def push_token_def)

lemma default_tokens_normal: "normal_tokens default_tokens"
  by (simp add: default_tokens_run flush_literal_def push_token_def is_literal_def)

lemma compile_default: "compile_pattern False kDefaultLogPattern [] ts = ts @ default_tokens"
  using compile_closed_append [of kDefaultLogPattern "[]" ts "[]"] by (simp add: default_tokens_def)

lemma normal_tokens_append:
  "normal_tokens (xs @ ys) \<longleftrightarrow> normal_tokens xs \<and> normal_tokens ys \<and>
     (xs \<noteq> [] \<and> ys \<noteq> [] \<and> is_literal (last xs) \<longrightarrow> \<not> is_literal (hd ys))"
proof (induction xs rule: induct_list012)
  case (2 x)
  then show ?case by (cases ys) auto
qed auto

lemma default_tokens_ends:
  "default_tokens \<noteq> []" "\<not> is_literal (hd default_tokens)" "\<not> is_literal (last default_tokens)"
proof -
  show ne: "default_tokens \<noteq> []" using default_tokens_types by auto
  then show "\<not> is_literal (hd default_tokens)" "\<not> is_literal (last default_tokens)"
    using hd_map [OF ne, of token_type] last_map [OF ne, of token_type]
    by (simp_all add: is_literal_def default_tokens_types)
qed

lemma compile_pattern_normal:
  "normal_tokens ts \<Longrightarrow> ends_open ts \<Longrightarrow> normal_tokens (compile_pattern True p lit ts)"
proof (induction p arbitrary: lit ts rule: pattern_induct)
  case (Plus r)
  have "normal_tokens (flush_literal lit ts @ default_tokens)"
    using Plus.prems default_tokens_normal default_tokens_ends
    by (simp add: normal_tokens_append flush_literal_normal)
  moreover have "ends_open (flush_literal lit ts @ default_tokens)"
    using default_tokens_ends by (simp add: ends_open_def)
  ultimately show ?case using Plus.IH by (simp add: compile_default)
qed (auto simp: flush_literal_normal push_token_normal specifier_not_literal split: option.splits)

text \<open>
  Whatever the pattern, the tokens are in normal form: no empty literal, no literal text on a
  conversion, and no two literals next to each other, also around an expanded default pattern.
\<close>

theorem RebuildTokens_normal: "normal_tokens (fmt_tokens (SetPattern pattern f))"
  by (simp add: SetPattern_def RebuildTokens_def compile_pattern_normal)

section \<open>Printing tokens as a pattern\<close>

fun specifier_of :: "TokenType \<Rightarrow> char" where
  "specifier_of LiteralToken = percent"
| "specifier_of Year = CHR ''Y''"
| "specifier_of Month = CHR ''m''"
| "specifier_of Day = CHR ''d''"
| "specifier_of Hour = CHR ''H''"
| "specifier_of Minute = CHR ''M''"
| "specifier_of Second = CHR ''S''"
| "specifier_of Millisecond = CHR ''e''"
| "specifier_of LevelToken = CHR ''l''"
| "specifier_of LoggerName = CHR ''n''"
| "specifier_of ThreadId = CHR ''t''"
| "specifier_of PayloadToken = CHR ''v''"
| "specifier_of SourceFile = CHR ''s''"
| "specifier_of SourceLine = CHR ''#''"
| "specifier_of SourceFunction = CHR ''!''"

definition escape :: "string \<Rightarrow> string" where
  "escape lit = concat (map (\<lambda>c. if c = percent then [percent, percent] else [c]) lit)"

definition unparse :: "Token list \<Rightarrow> string" where
  "unparse tokens = concat (map (\<lambda>t.
     if is_literal t then escape (token_literal t) else [percent, specifier_of (token_type t)]) tokens)"

lemma specifier_of_token:
  "t \<noteq> LiteralToken \<Longrightarrow> specifier_token (specifier_of t) = Some t \<and> specifier_of t \<noteq> percent \<and>
     specifier_of t \<noteq> CHR ''+''"
  by (cases t) (simp_all add: specifier_token_def percent_def)

lemma compile_escape: "compile_pattern e (escape s @ rest) lit ts = compile_pattern e rest (lit @ s) ts"
  by (induction s arbitrary: lit) (simp_all add: escape_def)

lemma compile_unparse:
  "normal_tokens us \<Longrightarrow> (lit \<noteq> [] \<Longrightarrow> us = [] \<or> \<not> is_literal (hd us)) \<Longrightarrow>
     compile_pattern e (unparse us) lit ts = flush_literal lit ts @ us"
proof (induction us arbitrary: lit ts)
  case Nil
  then show ?case by (simp add: unparse_def)
next
  case (Cons u us)
  have next_ok: "us = [] \<or> \<not> is_literal (hd us)" if "is_literal u"
    using Cons.prems(1) that by (cases us) auto
  have normal: "normal_tokens us" using Cons.prems(1) by simp
  show ?case
  proof (cases "is_literal u")
    case True
    then have lit: "lit = []" using Cons.prems(2) by auto
    have u: "flush_literal (token_literal u) ts = ts @ [u]"
      using True Cons.prems(1) by (cases u) (simp add: flush_literal_def is_literal_def)
    have "compile_pattern e (unparse (u # us)) lit ts = compile_pattern e (unparse us) (token_literal u) ts"
      using True lit compile_escape [of e "token_literal u" "unparse us" "[]"] by (simp add: unparse_def)
    also have "\<dots> = ts @ [u] @ us"
      using Cons.IH [OF normal, of "token_literal u" ts] next_ok True u by simp
    finally show ?thesis using lit by (simp add: flush_literal_def)
  next
    case False
    then have t: "token_type u \<noteq> LiteralToken" by (simp add: is_literal_def)
    have u: "push_token (token_type u) lit ts = flush_literal lit ts @ [u]"
      using False Cons.prems(1) by (cases u) (simp add: push_token_def)
    have "compile_pattern e (unparse (u # us)) lit ts =
        compile_pattern e (unparse us) [] (flush_literal lit ts @ [u])"
      using False specifier_of_token [OF t] u by (simp add: unparse_def)
    also have "\<dots> = flush_literal lit ts @ [u] @ us"
      using Cons.IH [OF normal, of "[]" "flush_literal lit ts @ [u]"] by (simp add: flush_literal_def)
    finally show ?thesis by simp
  qed
qed

text \<open>
  C40. Printing tokens in normal form as a pattern (percent signs doubled) and compiling that
  pattern gives the tokens back, so every normal token list is the compilation of some pattern.
\<close>

theorem unparse_roundtrip:
  assumes "normal_tokens tokens"
  shows "fmt_tokens (PatternFormatter_new (unparse tokens)) = tokens"
  using compile_unparse [OF assms, of "[]" True "[]"]
  by (simp add: PatternFormatter_new_def RebuildTokens_def flush_literal_def)

theorem unparse_roundtrip_witness:
  "let ts = [\<lparr>token_type = LiteralToken, token_literal = ''100% ''\<rparr>, \<lparr>token_type = PayloadToken, token_literal = []\<rparr>]
   in unparse ts = ''100%% %v'' \<and> fmt_tokens (PatternFormatter_new ''100%% %v'') = ts"
proof -
  let ?ts = "[\<lparr>token_type = LiteralToken, token_literal = ''100% ''\<rparr>,
    \<lparr>token_type = PayloadToken, token_literal = []\<rparr>]"
  have "normal_tokens ?ts" by (simp add: is_literal_def)
  moreover have "unparse ?ts = ''100%% %v''"
    by (simp add: unparse_def escape_def is_literal_def percent_def)
  ultimately show ?thesis using unparse_roundtrip [of ?ts] by simp
qed

section \<open>Numbers, timestamps and file names\<close>

lemma zero_char: "CHR ''0'' = digit 0"
  by code_simp

lemma AppendInteger_text:
  "0 \<le> v \<Longrightarrow> v < 10 ^ 32 \<Longrightarrow>
     AppendInteger out v w = out @ replicate (w - length (decimal (nat v))) (digit 0) @ decimal (nat v)"
  using to_chars_fits [OF length_int_text_nonneg [of v 32]]
  by (simp add: AppendInteger_def int_text_nonneg zero_char)

text \<open>
  A non-negative number of at most 32 digits is appended in decimal, zero-padded on the left
  to the width, never truncated, and reading the digits gives the number back.
\<close>

theorem AppendInteger_padded:
  assumes "0 \<le> v" and "v < 10 ^ 32"
  shows "\<exists>ds. AppendInteger out v w = out @ ds \<and> length ds = max w (length (decimal (nat v))) \<and>
    (\<forall>c \<in> set ds. \<exists>d < 10. c = digit d) \<and> undecimal ds 0 = nat v"
proof -
  let ?ds = "replicate (w - length (decimal (nat v))) (digit 0) @ decimal (nat v)"
  have "undecimal ?ds 0 = nat v" by (simp add: undecimal_zeros undecimal_decimal)
  moreover have "\<forall>c \<in> set ?ds. \<exists>d < 10. c = digit d"
    by (auto dest: decimal_digits intro: exI [of _ 0])
  moreover have "length ?ds = max w (length (decimal (nat v)))" by simp
  ultimately show ?thesis using AppendInteger_text [OF assms] by blast
qed

theorem AppendInteger_padded_witness:
  "\<exists>ds. AppendInteger ''.'' 7 3 = ''.'' @ ds \<and> length ds = 3 \<and> undecimal ds 0 = 7"
proof -
  have "length (decimal (nat 7)) = 1" by (simp add: decimal.simps)
  then show ?thesis using AppendInteger_padded [of 7 "''.''" 3] by auto
qed

text \<open>
  For a time point at or after the epoch the milliseconds are the third group of digits of
  the timestamp and always print as three digits.  Before the epoch the truncating remainder is
  negative or zero, and a negative one prints its sign behind the padding.
\<close>

theorem MakeTimestampParts_millisecond:
  "(if 0 \<le> ts then
      millisecond (MakeTimestampParts localtime ts) = (ts div 1000000) mod 1000 \<and>
      local_time (MakeTimestampParts localtime ts) = localtime (ts div 1000000000) \<and>
      length (AppendInteger [] (millisecond (MakeTimestampParts localtime ts)) 3) = 3
    else - 1000 < millisecond (MakeTimestampParts localtime ts) \<and>
      millisecond (MakeTimestampParts localtime ts) \<le> 0) \<and>
   AppendInteger [] (millisecond (MakeTimestampParts localtime (- 5000000))) 3 = ''0-5''"
proof -
  have pos: "length (AppendInteger [] (m mod 1000) 3) = 3" for m :: int
  proof -
    have m: "0 \<le> m mod 1000" "m mod 1000 < 1000" by simp_all
    then have "length (decimal (nat (m mod 1000))) \<le> 3" by (intro length_decimal) (auto simp: nat_less_iff)
    then show ?thesis using m by (simp add: AppendInteger_text)
  qed
  have neg: "AppendInteger [] (- 5) 3 = ''0-5''"
    by code_simp
  show ?thesis
    using pos pos [of 0] neg
    by (auto simp: MakeTimestampParts_def signed_divide_int_def signed_modulo_int_def sgn_if)
qed

lemma last_separator:
  "find_last_separator path = Some i \<Longrightarrow>
     i < length path \<and> is_separator (path ! i) \<and> (\<forall>j. i < j \<and> j < length path \<longrightarrow> \<not> is_separator (path ! j))"
proof -
  let ?is = "filter (\<lambda>i. is_separator (path ! i)) [0..<length path]"
  assume "find_last_separator path = Some i"
  then have ne: "?is \<noteq> []" and i: "i = last ?is" by (auto simp: find_last_separator_def split: list.splits)
  then have mem: "i \<in> set ?is" using last_in_set by blast
  have le: "j \<le> i" if mem_j: "j \<in> set ?is" for j
  proof -
    have "sorted ?is" using sorted_filter [of id "[0..<length path]"] by simp
    moreover obtain k where k: "k < length ?is" "j = ?is ! k" using in_set_conv_nth [THEN iffD1, OF mem_j] by blast
    ultimately have "?is ! k \<le> ?is ! (length ?is - 1)" by (intro sorted_nth_mono) auto
    then show ?thesis using k i ne by (simp add: last_conv_nth)
  qed
  have "\<not> is_separator (path ! j)" if "i < j" "j < length path" for j
    using le [of j] that by auto
  with mem show ?thesis by auto
qed

text \<open>
  \<open>BaseName\<close> returns the end of the path behind its last slash or backslash: the path is a
  directory part, empty or ending in a separator, followed by the base name, which has none.
\<close>

theorem BaseName_split:
  "\<exists>dir. path = dir @ BaseName path \<and> (dir = [] \<or> is_separator (last dir)) \<and>
     list_all (\<lambda>c. \<not> is_separator c) (BaseName path)"
proof (cases "find_last_separator path")
  case None
  then have "filter (\<lambda>i. is_separator (path ! i)) [0..<length path] = []"
    by (auto simp: find_last_separator_def split: list.splits)
  then have "list_all (\<lambda>c. \<not> is_separator c) path"
    by (auto simp: filter_empty_conv list_all_length)
  with None show ?thesis by (simp add: BaseName_def)
next
  case (Some i)
  note i = last_separator [OF Some]
  have "path = take (Suc i) path @ BaseName path" using Some by (simp add: BaseName_def)
  moreover have "is_separator (last (take (Suc i) path))" using i by (simp add: take_Suc_conv_app_nth)
  moreover have "list_all (\<lambda>c. \<not> is_separator c) (BaseName path)"
    using i Some by (auto simp: BaseName_def list_all_length)
  ultimately show ?thesis by blast
qed

end
