(* ===== verification/Io_World.thy ===== *)
theory Io_World
  imports Pattern_Formatter
begin

text \<open>
  The environment the sinks write to: files, \<open>std::ofstream\<close>, the console streams, the calls of
  \<open>std::filesystem\<close> that the rotation makes, the steady clock and the time zone.  These are
  standard library facilities; the model keeps what the sinks can observe of them.

  Every call that may fail takes its outcome from the list \<open>outcomes\<close>, which stands for whatever
  the operating system does: \<open>IoOk k\<close> is success, \<open>IoFail k\<close> failure.  For calls on a buffered
  stream \<open>k\<close> is the number of buffered bytes that reached the file on that occasion: a stream is
  free to pass on any part of its buffer at a write.  An empty list means that every call
  succeeds and that streams keep what they are given until they are flushed.  The sink is taken
  to be the only writer of its files, and paths name regular files.
\<close>

datatype io_outcome = IoOk nat | IoFail nat

datatype stream_id = StdOut | StdErr | OtherStream nat

record out_stream =
  os_visible :: string
  os_pending :: string
  os_bad :: bool
  os_unitbuf :: bool

record io_world =
  disk :: "string \<Rightarrow> string option"
  outcomes :: "io_outcome list"
  steady_now :: int
  time_zone :: "int \<Rightarrow> tm"
  streams :: "stream_id \<Rightarrow> out_stream"

definition newline :: char where
  "newline = CHR 0x0A"

text \<open>\<open>Sink::Clock::time_point::max()\<close>, in clock ticks of a nanosecond.\<close>

definition time_max :: int where
  "time_max = 2 ^ 63 - 1"

definition ns_of_ms :: "int \<Rightarrow> int" where
  "ns_of_ms ms = ms * 1000000"

definition next_outcome :: "io_world \<Rightarrow> io_outcome \<times> io_world" where
  "next_outcome w = (case outcomes w of [] \<Rightarrow> (IoOk 0, w) | r # rs \<Rightarrow> (r, w\<lparr>outcomes := rs\<rparr>))"

definition content :: "io_world \<Rightarrow> string \<Rightarrow> string" where
  "content w p = (case disk w p of None \<Rightarrow> [] | Some bs \<Rightarrow> bs)"

definition append_disk :: "string \<Rightarrow> string \<Rightarrow> io_world \<Rightarrow> io_world" where
  "append_disk p bs w = w\<lparr>disk := (disk w)(p \<mapsto> content w p @ bs)\<rparr>"

section \<open>Output file streams\<close>

record ofstream =
  of_path :: string
  of_open :: bool
  of_bad :: bool
  of_pending :: string

definition ofstream_closed :: ofstream where
  "ofstream_closed = \<lparr>of_path = [], of_open = False, of_bad = False, of_pending = []\<rparr>"

definition ofstream_open :: "string \<Rightarrow> bool \<Rightarrow> ofstream \<times> io_world \<Rightarrow> ofstream \<times> io_world" where
  "ofstream_open path trunc = (\<lambda>(f, w).
     if of_open f then (f\<lparr>of_bad := True\<rparr>, w)
     else (case next_outcome w of
         (IoFail _, w') \<Rightarrow> (f\<lparr>of_bad := True\<rparr>, w')
       | (IoOk _, w') \<Rightarrow>
           (\<lparr>of_path = path, of_open = True, of_bad = False, of_pending = []\<rparr>,
            w'\<lparr>disk := (disk w')(path \<mapsto> (if trunc then [] else content w' path))\<rparr>)))"

definition ofstream_write :: "string \<Rightarrow> ofstream \<times> io_world \<Rightarrow> ofstream \<times> io_world" where
  "ofstream_write bytes = (\<lambda>(f, w).
     if \<not> of_open f \<or> of_bad f then (f\<lparr>of_bad := True\<rparr>, w)
     else (let buffer = of_pending f @ bytes in
       case next_outcome w of
         (IoOk k, w') \<Rightarrow> (f\<lparr>of_pending := drop k buffer\<rparr>, append_disk (of_path f) (take k buffer) w')
       | (IoFail k, w') \<Rightarrow>
           (f\<lparr>of_pending := drop k buffer, of_bad := True\<rparr>, append_disk (of_path f) (take k buffer) w')))"

definition ofstream_flush :: "ofstream \<times> io_world \<Rightarrow> ofstream \<times> io_world" where
  "ofstream_flush = (\<lambda>(f, w).
     if \<not> of_open f \<or> of_bad f then (f, w)
     else (case next_outcome w of
         (IoOk _, w') \<Rightarrow> (f\<lparr>of_pending := []\<rparr>, append_disk (of_path f) (of_pending f) w')
       | (IoFail k, w') \<Rightarrow>
           (f\<lparr>of_pending := drop k (of_pending f), of_bad := True\<rparr>,
            append_disk (of_path f) (take k (of_pending f)) w')))"

definition ofstream_close :: "ofstream \<times> io_world \<Rightarrow> ofstream \<times> io_world" where
  "ofstream_close = (\<lambda>(f, w).
     if \<not> of_open f then (f\<lparr>of_bad := True\<rparr>, w)
     else (case next_outcome w of
         (IoOk _, w') \<Rightarrow>
           (f\<lparr>of_pending := [], of_open := False\<rparr>, append_disk (of_path f) (of_pending f) w')
       | (IoFail k, w') \<Rightarrow>
           (f\<lparr>of_pending := [], of_open := False, of_bad := True\<rparr>,
            append_disk (of_path f) (take k (of_pending f)) w')))"

section \<open>Console streams\<close>

definition stream_write :: "stream_id \<Rightarrow> string \<Rightarrow> io_world \<Rightarrow> io_world" where
  "stream_write i bytes w =
     (let s = streams w i in
      if os_bad s then w
      else (let buffer = os_pending s @ bytes in
        case next_outcome w of
          (IoOk k, w') \<Rightarrow>
            (let n = (if os_unitbuf s then length buffer else k) in
             w'\<lparr>streams := (streams w')(i := s\<lparr>os_visible := os_visible s @ take n buffer,
                                             os_pending := drop n buffer\<rparr>)\<rparr>)
        | (IoFail k, w') \<Rightarrow>
            w'\<lparr>streams := (streams w')(i := s\<lparr>os_visible := os_visible s @ take k buffer,
                                            os_pending := drop k buffer, os_bad := True\<rparr>)\<rparr>))"

definition stream_flush :: "stream_id \<Rightarrow> io_world \<Rightarrow> io_world" where
  "stream_flush i w =
     (let s = streams w i in
      if os_bad s then w
      else (case next_outcome w of
          (IoOk _, w') \<Rightarrow>
            w'\<lparr>streams := (streams w')(i := s\<lparr>os_visible := os_visible s @ os_pending s, os_pending := []\<rparr>)\<rparr>
        | (IoFail k, w') \<Rightarrow>
            w'\<lparr>streams := (streams w')(i := s\<lparr>os_visible := os_visible s @ take k (os_pending s),
                                            os_pending := drop k (os_pending s), os_bad := True\<rparr>)\<rparr>))"

section \<open>File system calls\<close>

datatype fs_error = NoSuchFile | OtherFsError

text \<open>\<open>std::filesystem::remove\<close> of a file that does not exist is not an error.\<close>

definition fs_remove :: "string \<Rightarrow> io_world \<Rightarrow> fs_error option \<times> io_world" where
  "fs_remove p w =
     (case next_outcome w of
        (IoFail _, w') \<Rightarrow> (Some OtherFsError, w')
      | (IoOk _, w') \<Rightarrow> (None, w'\<lparr>disk := (disk w')(p := None)\<rparr>))"

definition fs_exists :: "string \<Rightarrow> io_world \<Rightarrow> (fs_error option \<times> bool) \<times> io_world" where
  "fs_exists p w =
     (case next_outcome w of
        (IoFail _, w') \<Rightarrow> ((Some OtherFsError, False), w')
      | (IoOk _, w') \<Rightarrow> ((None, disk w' p \<noteq> None), w'))"

definition fs_rename :: "string \<Rightarrow> string \<Rightarrow> io_world \<Rightarrow> fs_error option \<times> io_world" where
  "fs_rename src dst w =
     (case next_outcome w of
        (IoFail _, w') \<Rightarrow> (Some OtherFsError, w')
      | (IoOk _, w') \<Rightarrow>
          (case disk w' src of
             None \<Rightarrow> (Some NoSuchFile, w')
           | Some bs \<Rightarrow> (None, w'\<lparr>disk := (disk w')(src := None, dst \<mapsto> bs)\<rparr>)))"

definition fs_file_size :: "string \<Rightarrow> io_world \<Rightarrow> (fs_error + nat) \<times> io_world" where
  "fs_file_size p w =
     (case next_outcome w of
        (IoFail _, w') \<Rightarrow> (Inl OtherFsError, w')
      | (IoOk _, w') \<Rightarrow>
          (case disk w' p of None \<Rightarrow> (Inl NoSuchFile, w') | Some bs \<Rightarrow> (Inr (length bs), w')))"

text \<open>A call that touches only the environment, as a step of an object within it.\<close>

definition on_world :: "(io_world, 'a) exec \<Rightarrow> ('s \<times> io_world, 'a) exec" where
  "on_world f = (\<lambda>(s, w). case f w of (r, w') \<Rightarrow> (r, s, w'))"

section \<open>What an outcome leaves alone\<close>

text \<open>No call is going to fail.\<close>

definition all_ok :: "io_world \<Rightarrow> bool" where
  "all_ok w \<longleftrightarrow> list_all (\<lambda>r. case r of IoOk _ \<Rightarrow> True | IoFail _ \<Rightarrow> False) (outcomes w)"

lemma all_ok_fields [simp]:
  "all_ok (w\<lparr>disk := d\<rparr>) = all_ok w" "all_ok (w\<lparr>streams := s\<rparr>) = all_ok w"
  "all_ok (w\<lparr>steady_now := t\<rparr>) = all_ok w" "all_ok (append_disk p bs w) = all_ok w"
  by (simp_all add: all_ok_def append_disk_def)

lemma all_ok_next:
  "all_ok w \<Longrightarrow> next_outcome w = (r, w') \<Longrightarrow> all_ok w' \<and> (\<exists>k. r = IoOk k)"
  by (auto simp: all_ok_def next_outcome_def split: list.splits io_outcome.splits)

lemma next_outcome_frame:
  "next_outcome w = (r, w') \<Longrightarrow> disk w' = disk w \<and> streams w' = streams w \<and>
     steady_now w' = steady_now w \<and> time_zone w' = time_zone w \<and> (all_ok w \<longrightarrow> all_ok w')"
  by (auto simp: next_outcome_def all_ok_def split: list.splits)

lemma content_frame: "disk w' = disk w \<Longrightarrow> content w' p = content w p"
  by (simp add: content_def)

lemma append_disk_content [simp]:
  "content (append_disk p bs w) q = (if q = p then content w p @ bs else content w q)"
  by (simp add: append_disk_def content_def)

lemma append_disk_fields [simp]:
  "steady_now (append_disk p bs w) = steady_now w" "time_zone (append_disk p bs w) = time_zone w"
  "streams (append_disk p bs w) = streams w" "outcomes (append_disk p bs w) = outcomes w"
  "disk (append_disk p bs w) = (disk w)(p \<mapsto> content w p @ bs)"
  by (simp_all add: append_disk_def)

section \<open>What a stream has been given\<close>

text \<open>The bytes given to a stream are in its file or still in its buffer, in this order.\<close>

definition stream_text :: "ofstream \<Rightarrow> io_world \<Rightarrow> string" where
  "stream_text f w = content w (of_path f) @ of_pending f"

definition stream_good :: "ofstream \<Rightarrow> io_world \<Rightarrow> bool" where
  "stream_good f w \<longleftrightarrow> of_open f \<and> \<not> of_bad f \<and> disk w (of_path f) \<noteq> None"

lemma content_prefix_text [simp]: "prefix (content w (of_path f)) (stream_text f w)"
  by (simp add: stream_text_def)

text \<open>A call on the stream of one file: nothing else changes and the file only grows.\<close>

definition only_grows :: "string \<Rightarrow> io_world \<Rightarrow> io_world \<Rightarrow> bool" where
  "only_grows p w w' \<longleftrightarrow> (\<forall>q. q \<noteq> p \<longrightarrow> disk w' q = disk w q) \<and> prefix (content w p) (content w' p) \<and>
     (disk w p \<noteq> None \<longrightarrow> disk w' p \<noteq> None) \<and>
     steady_now w' = steady_now w \<and> time_zone w' = time_zone w \<and> streams w' = streams w \<and>
     (all_ok w \<longrightarrow> all_ok w')"

lemma only_grows_refl [simp]: "only_grows p w w"
  by (simp add: only_grows_def)

lemma only_grows_trans: "only_grows p w1 w2 \<Longrightarrow> only_grows p w2 w3 \<Longrightarrow> only_grows p w1 w3"
  by (auto simp: only_grows_def)

lemma only_grows_append:
  "next_outcome w = (r, w') \<Longrightarrow> only_grows p w (append_disk p bs w')"
  by (auto simp: only_grows_def append_disk_def content_def dest: next_outcome_frame split: option.splits)

lemma content_next: "next_outcome w = (r, w') \<Longrightarrow> content w' p = content w p"
  by (simp add: content_def next_outcome_frame)

lemma ofstream_write_spec:
  assumes "stream_good f w" and "ofstream_write bs (f, w) = (f', w')"
  shows "of_path f' = of_path f \<and> of_open f' \<and> stream_text f' w' = stream_text f w @ bs \<and>
    only_grows (of_path f) w w' \<and> disk w' (of_path f) \<noteq> None"
proof -
  obtain r v where r: "next_outcome w = (r, v)" by (cases "next_outcome w")
  note facts = content_next [OF r] only_grows_append [OF r]
  show ?thesis
    using assms r facts
    by (cases r)
      (auto simp: ofstream_write_def stream_good_def stream_text_def Let_def take_drop_joined2
        simp del: take_append drop_append)
qed

lemma ofstream_flush_spec:
  assumes "stream_good f w" and "ofstream_flush (f, w) = (f', w')"
  shows "of_path f' = of_path f \<and> of_open f' \<and> stream_text f' w' = stream_text f w \<and>
    only_grows (of_path f) w w' \<and> disk w' (of_path f) \<noteq> None \<and> (\<not> of_bad f' \<longrightarrow> of_pending f' = [])"
proof -
  obtain r v where r: "next_outcome w = (r, v)" by (cases "next_outcome w")
  note facts = content_next [OF r] only_grows_append [OF r]
  show ?thesis
    using assms r facts
    by (cases r) (auto simp: ofstream_flush_def stream_good_def stream_text_def)
qed

lemma ofstream_open_spec:
  assumes "\<not> of_open f" and "ofstream_open p trunc (f, w) = (f', w')"
  shows "(of_open f' \<longrightarrow> stream_good f' w' \<and> of_path f' = p \<and> of_pending f' = [] \<and>
      content w' p = (if trunc then [] else content w p)) \<and> (\<not> of_open f' \<longrightarrow> disk w' = disk w) \<and>
    (\<forall>q. q \<noteq> p \<longrightarrow> disk w' q = disk w q) \<and>
    steady_now w' = steady_now w \<and> time_zone w' = time_zone w \<and> streams w' = streams w \<and>
    (all_ok w \<longrightarrow> all_ok w')"
proof -
  obtain r v where r: "next_outcome w = (r, v)" by (cases "next_outcome w")
  show ?thesis
    using assms r next_outcome_frame [OF r] content_next [OF r]
    by (cases r) (auto simp: ofstream_open_def stream_good_def content_def)
qed

section \<open>A concrete environment\<close>

text \<open>No files yet, every call succeeds, the clock reads one tick: used to run the sinks on examples.\<close>

definition idle_stream :: out_stream where
  "idle_stream = \<lparr>os_visible = [], os_pending = [], os_bad = False, os_unitbuf = False\<rparr>"

definition idle_world :: io_world where
  "idle_world =
     \<lparr>disk = (\<lambda>_. None), outcomes = [], steady_now = 1,
      time_zone = (\<lambda>_. \<lparr>tm_year = 126, tm_mon = 0, tm_mday = 1, tm_hour = 0, tm_min = 0, tm_sec = 0\<rparr>),
      streams = (\<lambda>i. idle_stream\<lparr>os_unitbuf := (i = StdErr)\<rparr>)\<rparr>"

text \<open>An environment for sinks that do not use it.\<close>

definition memory_world :: io_world where
  "memory_world = \<lparr>disk = (\<lambda>_. None), outcomes = [], steady_now = 0, time_zone = (\<lambda>_. undefined), streams = (\<lambda>_. undefined)\<rparr>"

end
