(* ===== verification/Sink_Interface.thy ===== *)
theory Sink_Interface
  imports Io_World
begin

text \<open>
  The abstract class \<open>Sink\<close> of \<open>include/hlog/sink.h\<close>: its four virtual functions as a record of
  computations on the sink's state, together with the default implementations of the last two.
  The state includes the environment the sink writes to.
\<close>

record 'st sink_ops =
  op_write :: "LogMessage \<Rightarrow> ('st, unit) exec"
  op_flush :: "('st, unit) exec"
  op_next :: "'st \<Rightarrow> int"
  op_due :: "int \<Rightarrow> ('st, bool) exec"

definition default_NextAutoFlushTime :: "'st \<Rightarrow> int" where
  "default_NextAutoFlushTime st = time_max"

definition default_FlushIfDue :: "int \<Rightarrow> ('st, bool) exec" where
  "default_FlushIfDue now = ret False"

text \<open>
  Calls on a sink together with its environment: writes at given clock readings, flushes and
  deadline checks.  In a sequence the first exception is the last call, as it is in the worker.
\<close>

datatype sink_call = CallWrite LogMessage int | CallFlush | CallFlushIfDue int

definition set_clock :: "int \<Rightarrow> 's \<times> io_world \<Rightarrow> 's \<times> io_world" where
  "set_clock t = (\<lambda>(s, w). (s, w\<lparr>steady_now := t\<rparr>))"

fun run_call :: "('s \<times> io_world) sink_ops \<Rightarrow> sink_call \<Rightarrow> ('s \<times> io_world, unit) exec" where
  "run_call ops (CallWrite m t) st = op_write ops m (set_clock t st)"
| "run_call ops CallFlush st = op_flush ops st"
| "run_call ops (CallFlushIfDue now) st = andthen (op_due ops now) (\<lambda>_. ret ()) st"

fun run_calls :: "('s \<times> io_world) sink_ops \<Rightarrow> sink_call list \<Rightarrow> ('s \<times> io_world, unit) exec" where
  "run_calls ops [] st = (Inr (), st)"
| "run_calls ops (c # cs) st = andthen (run_call ops c) (\<lambda>_. run_calls ops cs) st"

text \<open>The messages written by a sequence of calls.\<close>

fun writes :: "sink_call list \<Rightarrow> LogMessage list" where
  "writes [] = []"
| "writes (CallWrite m t # cs) = m # writes cs"
| "writes (c # cs) = writes cs"

lemma writes_append [simp]: "writes (cs @ ds) = writes cs @ writes ds"
  by (induction cs rule: writes.induct) simp_all

text \<open>
  What the worker relies on, whatever the sink: \<open>inv\<close> is the invariant of a sink in good
  condition, \<open>accepted\<close> the bytes the sink has taken over for output and not yet discarded, oldest
  first, \<open>durable\<close> those of them that have left the process, \<open>line\<close> the text a message becomes, and \<open>lossy\<close> says
  whether the sink may discard at all.  A successful write adds the
  line of its message at the end and may discard only old bytes at the front; a successful flush
  makes everything durable; a deadline check does nothing before the time the sink asked for, and
  does something at or after it.  No call changes how later messages are formatted.
\<close>

definition same_format :: "(LogMessage \<Rightarrow> 'st \<Rightarrow> string) \<Rightarrow> ('st \<Rightarrow> bool) \<Rightarrow> 'st \<Rightarrow> 'st \<Rightarrow> bool" where
  "same_format line lossy st st' \<longleftrightarrow> lossy st' = lossy st \<and> (\<forall>m. line m st' = line m st)"

locale sink_contract =
  fixes ops :: "'st sink_ops"
    and inv :: "'st \<Rightarrow> bool"
    and accepted :: "'st \<Rightarrow> string"
    and durable :: "'st \<Rightarrow> string"
    and line :: "LogMessage \<Rightarrow> 'st \<Rightarrow> string"
    and lossy :: "'st \<Rightarrow> bool"
  assumes write_law: "inv st \<Longrightarrow> op_write ops m st = (Inr (), st') \<Longrightarrow>
      inv st' \<and> same_format line lossy st st' \<and>
      (\<exists>old kept. accepted st = old @ kept \<and> accepted st' = kept @ line m st \<and> (lossy st \<or> old = []))"
    and flush_law: "inv st \<Longrightarrow> op_flush ops st = (Inr (), st') \<Longrightarrow>
      inv st' \<and> same_format line lossy st st' \<and> accepted st' = accepted st \<and> durable st' = accepted st'"
    and due_law: "inv st \<Longrightarrow> op_due ops now st = (Inr b, st') \<Longrightarrow>
      inv st' \<and> same_format line lossy st st' \<and> accepted st' = accepted st \<and> (\<not> b \<longrightarrow> st' = st)"
    and early_law: "inv st \<Longrightarrow> now < op_next ops st \<Longrightarrow> op_due ops now st = (Inr False, st)"
    and fires_law: "inv st \<Longrightarrow> op_next ops st \<le> now \<Longrightarrow> op_next ops st < time_max \<Longrightarrow>
      op_due ops now st \<noteq> (Inr False, st')"

text \<open>Calls one after the other, on a sink that does not read the clock into its text.\<close>

locale sink_run = sink_contract ops inv accepted durable line lossy
  for ops :: "('s \<times> io_world) sink_ops" and inv accepted durable line lossy +
  assumes clock_law: "inv st \<Longrightarrow> inv (set_clock t st) \<and> accepted (set_clock t st) = accepted st \<and>
      same_format line lossy st (set_clock t st)"
begin

definition lines :: "'s \<times> io_world \<Rightarrow> sink_call list \<Rightarrow> string" where
  "lines st cs = concat (map (\<lambda>m. line m st) (writes cs))"

lemma run_call_law:
  assumes inv: "inv st" and run: "run_call ops c st = (Inr (), st')"
  shows "inv st' \<and> same_format line lossy st st' \<and> (c = CallFlush \<longrightarrow> durable st' = accepted st') \<and>
    (\<exists>old kept. accepted st = old @ kept \<and> accepted st' = kept @ lines st [c] \<and> (lossy st \<and> writes [c] \<noteq> [] \<or> old = []))"
proof (cases c)
  case (CallWrite m t)
  note C = clock_law [OF inv, of t]
  have "op_write ops m (set_clock t st) = (Inr (), st')" using run CallWrite by simp
  from write_law [OF conjunct1 [OF C] this] C show ?thesis
    using CallWrite by (auto simp: same_format_def lines_def)
next
  case CallFlush
  with flush_law [OF inv] run show ?thesis by (simp add: lines_def)
next
  case (CallFlushIfDue now)
  then obtain b where "op_due ops now st = (Inr b, st')" using run by (auto split: prod.splits sum.splits)
  from due_law [OF inv this] CallFlushIfDue show ?thesis by (simp add: lines_def)
qed

lemma run_calls_end:
  "run_calls ops (cs @ [c]) st = (Inr (), st') \<Longrightarrow>
     \<exists>st1. run_calls ops cs st = (Inr (), st1) \<and> run_call ops c st1 = (Inr (), st')"
  by (induction cs arbitrary: st) (auto split: prod.splits sum.splits)

text \<open>
  After any calls that all returned, what the sink still has of its old text and the lines of the messages
  is what it has accepted; the line of the last message is at its end, and a flush as the last call has made it all durable.
\<close>

lemma run_delivers:
  assumes "inv st" and "run_calls ops cs st = (Inr (), st')"
  shows "inv st' \<and> same_format line lossy st st' \<and>
    (\<exists>old. accepted st @ lines st cs = old @ accepted st' \<and> (lossy st \<or> old = [])) \<and>
    (writes cs \<noteq> [] \<longrightarrow> suffix (line (last (writes cs)) st) (accepted st')) \<and>
    (cs \<noteq> [] \<and> last cs = CallFlush \<longrightarrow> durable st' = accepted st')"
  using assms(2)
proof (induction cs arbitrary: st' rule: rev_induct)
  case Nil
  then show ?case using assms(1) by (simp add: same_format_def lines_def)
next
  case (snoc c cs)
  obtain st1 where one: "run_calls ops cs st = (Inr (), st1)" "run_call ops c st1 = (Inr (), st')"
    using run_calls_end [OF snoc.prems] by blast
  note IH = snoc.IH [OF one(1)]
  then have inv1: "inv st1" and fmt: "same_format line lossy st st1" by blast+
  note step = run_call_law [OF inv1 one(2)]
  obtain old where old: "accepted st @ lines st cs = old @ accepted st1" "lossy st \<or> old = []" using IH by blast
  obtain old' kept where k: "accepted st1 = old' @ kept" "accepted st' = kept @ lines st1 [c]"
    "lossy st1 \<and> writes [c] \<noteq> [] \<or> old' = []" using step by blast
  have l: "lines st1 [c] = lines st [c]" using fmt by (simp add: lines_def same_format_def)
  have all: "accepted st @ lines st (cs @ [c]) = (old @ old') @ accepted st'"
    using old(1) k(1,2) l by (simp add: lines_def)
  have "lossy st \<or> old @ old' = []" using old(2) k(3) fmt by (auto simp: same_format_def)
  moreover have "suffix (line (last (writes (cs @ [c]))) st) (accepted st')" if "writes (cs @ [c]) \<noteq> []"
  proof (cases c)
    case (CallWrite m t)
    then show ?thesis using k(2) l by (simp add: lines_def suffix_def)
  next
    case CallFlush
    then show ?thesis using IH k that by (simp add: lines_def)
  next
    case (CallFlushIfDue now)
    then show ?thesis using IH k that by (simp add: lines_def)
  qed
  ultimately show ?case using step fmt all by (auto simp: same_format_def)
qed

end

end
