(* ===== verification/Async_Logger.thy ===== *)
theory Async_Logger
  imports Sink_Interface Ring_Buffer Slot_Queue
begin

text \<open>
  \<open>AsyncLogger\<close> of \<open>include/hlog/async_logger.h\<close> and \<open>src/core/async_logger.cpp\<close>.  Client threads
  run \<open>Log\<close>, \<open>Flush\<close> and \<open>Stop\<close>, one worker thread runs \<open>WorkerLoop\<close>.  Each thread is a program
  counter; its step is one access to the shared state: an atomic load, store or read-modify-write,
  one operation of the queue, one call of the sink.  The point names say what is done next.

  The queue is the slot queue that the ring buffer refines, kept with the positions claimed since
  the start: \<open>lg_slots\<close> are all slots ever claimed, \<open>lg_taken\<close> counts those the worker has taken and
  \<open>lg_released\<close> those whose cell the worker has given back.  An enqueue is refused exactly when the
  cell of its position has not been given back.

  A condition variable and the notification of an atomic variable are counters of notifications:
  a thread that blocks remembers the count and may go on once it has changed.
\<close>

section \<open>Options and the shared state\<close>

datatype OverflowPolicy = Block | DropNewest

record AsyncLoggerOptions =
  opt_queue_size :: u64
  opt_overflow_policy :: OverflowPolicy
  opt_level :: LogLevel
  opt_flush_level :: LogLevel

definition default_AsyncLoggerOptions :: AsyncLoggerOptions where
  "default_AsyncLoggerOptions =
     \<lparr>opt_queue_size = 8192, opt_overflow_policy = Block, opt_level = Info, opt_flush_level = Error\<rparr>"

record LoggerStats =
  stat_enqueued :: u64
  stat_dropped :: u64
  stat_written :: u64
  stat_pending :: u64

definition kOperationGateClosedBit :: u64 where
  "kOperationGateClosedBit = push_bit 63 1"

definition kActiveOperationMask :: u64 where
  "kActiveOperationMask = NOT kOperationGateClosedBit"

text \<open>
  The fields from \<open>hist_calls\<close> on are history: steps add to them and never read them.  They hold the
  calls made on the sink, the messages whose write returned, the number of slots claimed when each
  flush ticket was drawn, and the number of slots taken before the last successful flush of the sink.
\<close>

record 's AsyncLogger =
  lg_name :: string
  lg_sink :: "'s \<times> io_world"
  lg_slots :: "QueueItem slots"
  lg_taken :: nat
  lg_released :: nat
  lg_capacity :: nat
  lg_overflow_policy :: OverflowPolicy
  lg_operation_state :: u64
  lg_level :: LogLevel
  lg_flush_level :: LogLevel
  lg_wake_signal :: u64
  lg_flush_request :: u64
  lg_flush_complete :: u64
  lg_worker_failed :: bool
  lg_enqueued :: u64
  lg_dropped :: u64
  lg_written :: u64
  lg_wake_notified :: nat
  lg_complete_notified :: nat
  lg_background_failure :: "exn option"
  lg_failure_message :: string
  lg_worker_finished :: bool
  lg_joined :: bool
  hist_calls :: "sink_call list"
  hist_written :: "LogMessage list"
  hist_tickets :: "nat list"
  hist_flushed :: nat

text \<open>A null pointer to the sink is \<open>None\<close>; otherwise the worker is started by the caller of the model.\<close>

definition AsyncLogger_new :: "string \<Rightarrow> ('s \<times> io_world) option \<Rightarrow> AsyncLoggerOptions \<Rightarrow> exn + 's AsyncLogger" where
  "AsyncLogger_new name sink options =
     (case sink of
        None \<Rightarrow> Inl (InvalidArgument ''AsyncLogger requires a valid sink'')
      | Some s \<Rightarrow> Inr
          \<lparr>lg_name = name, lg_sink = s, lg_slots = [], lg_taken = 0, lg_released = 0,
           lg_capacity = unat (RoundUpPowerOfTwo (opt_queue_size options)),
           lg_overflow_policy = opt_overflow_policy options, lg_operation_state = 0,
           lg_level = opt_level options, lg_flush_level = opt_flush_level options,
           lg_wake_signal = 0, lg_flush_request = 0, lg_flush_complete = 0, lg_worker_failed = False,
           lg_enqueued = 0, lg_dropped = 0, lg_written = 0, lg_wake_notified = 0, lg_complete_notified = 0,
           lg_background_failure = None, lg_failure_message = [], lg_worker_finished = False, lg_joined = False,
           hist_calls = [], hist_written = [], hist_tickets = [], hist_flushed = 0\<rparr>)"

definition Stats :: "'s AsyncLogger \<Rightarrow> LoggerStats" where
  "Stats lg = \<lparr>stat_enqueued = lg_enqueued lg, stat_dropped = lg_dropped lg, stat_written = lg_written lg,
     stat_pending = (if lg_written lg \<le> lg_enqueued lg then lg_enqueued lg - lg_written lg else 0)\<rparr>"

definition SetLevel :: "LogLevel \<Rightarrow> 's AsyncLogger \<Rightarrow> 's AsyncLogger" where
  "SetLevel l lg = lg\<lparr>lg_level := l\<rparr>"

definition SetFlushLevel :: "LogLevel \<Rightarrow> 's AsyncLogger \<Rightarrow> 's AsyncLogger" where
  "SetFlushLevel l lg = lg\<lparr>lg_flush_level := l\<rparr>"

definition gate_closed :: "u64 \<Rightarrow> bool" where
  "gate_closed state \<longleftrightarrow> state AND kOperationGateClosedBit \<noteq> 0"

definition StopRequested :: "'s AsyncLogger \<Rightarrow> bool" where
  "StopRequested lg \<longleftrightarrow> gate_closed (lg_operation_state lg)"

definition ActiveOperationCount :: "'s AsyncLogger \<Rightarrow> u64" where
  "ActiveOperationCount lg = lg_operation_state lg AND kActiveOperationMask"

definition HasWorkerFailure :: "'s AsyncLogger \<Rightarrow> bool" where
  "HasWorkerFailure lg \<longleftrightarrow> lg_worker_failed lg"

section \<open>The queue\<close>

definition queue_full :: "'s AsyncLogger \<Rightarrow> bool" where
  "queue_full lg \<longleftrightarrow> lg_released lg + lg_capacity lg \<le> length (lg_slots lg)"

definition queue_claim :: "'s AsyncLogger \<Rightarrow> 's AsyncLogger" where
  "queue_claim lg = lg\<lparr>lg_slots := slot_claim (lg_slots lg)\<rparr>"

definition queue_publish :: "nat \<Rightarrow> QueueItem \<Rightarrow> 's AsyncLogger \<Rightarrow> 's AsyncLogger" where
  "queue_publish position item lg = lg\<lparr>lg_slots := slot_publish position item (lg_slots lg)\<rparr>"

text \<open>What the worker finds at the head: nothing while the oldest slot is not published.\<close>

definition queue_head :: "'s AsyncLogger \<Rightarrow> QueueItem option" where
  "queue_head lg = (case slot_take (drop (lg_taken lg) (lg_slots lg)) of None \<Rightarrow> None | Some (item, _) \<Rightarrow> Some item)"

section \<open>The client threads\<close>

datatype logger_call = LogCall LogLevel SourceLocation "LogArg list" | FlushCall

datatype client_pc =
    ClientIdle
  | StartLoad logger_call
  | StartCas logger_call u64
  | LogCheckFailed LogLevel SourceLocation "LogArg list"
  | LogCheckLevel LogLevel SourceLocation "LogArg list"
  | LogBuild LogLevel SourceLocation "LogArg list"
  | LogUndefined
  | FlushCheckJoinable
  | FlushCheckFailed
  | FlushDrawTicket
  | PubCount logger_call QueueItem bool
  | PubCheckFailed logger_call QueueItem bool
  | PubTry logger_call QueueItem bool
  | PubWrite logger_call QueueItem nat
  | PubSignal logger_call QueueItem
  | PubNotify logger_call QueueItem
  | PubUncount logger_call QueueItem bool
  | PubDrop logger_call
  | FlushLoad u64
  | FlushLoopFailed u64 u64
  | FlushWait u64 u64
  | FlushBlocked u64 u64 nat
  | FlushLast u64
  | FinishOp logger_call bool
  | FinishSignal logger_call bool
  | FinishNotify logger_call bool
  | Returned logger_call bool
  | StopLoad
  | StopCas u64
  | StopSignal
  | StopNotify
  | StopJoin
  | StopReturned

definition is_log :: "QueueItem \<Rightarrow> bool" where
  "is_log item \<longleftrightarrow> item_type item = LogItem"

definition log_item :: "'s AsyncLogger \<Rightarrow> u64 \<Rightarrow> int \<Rightarrow> LogLevel \<Rightarrow> SourceLocation \<Rightarrow> LogPayload \<Rightarrow> QueueItem" where
  "log_item lg tid now level source payload = default_item
     \<lparr>item_type := LogItem,
      item_message := \<lparr>msg_timestamp = now, msg_level = level, msg_logger_name = lg_name lg,
        msg_thread_id = tid, msg_source = source, msg_payload = payload\<rparr>\<rparr>"

definition flush_item :: "u64 \<Rightarrow> QueueItem" where
  "flush_item ticket = default_item\<lparr>item_type := FlushItem, item_ticket := ticket\<rparr>"

text \<open>After the operation has been let in, and after \<open>Publish\<close> has returned true.\<close>

fun started :: "logger_call \<Rightarrow> client_pc" where
  "started (LogCall level source args) = LogCheckFailed level source args"
| "started FlushCall = FlushCheckJoinable"

fun published :: "logger_call \<Rightarrow> QueueItem \<Rightarrow> client_pc" where
  "published (LogCall level source args) item = FinishOp (LogCall level source args) True"
| "published FlushCall item = FlushLoad (item_ticket item)"

text \<open>
  One step of a client: \<open>tid\<close> is the hash of its thread id, \<open>spurious\<close> lets a weak compare-exchange
  fail, \<open>now\<close> is the reading of the system clock.  A thread that waits stays where it is.
\<close>

fun client_step :: "u64 \<Rightarrow> bool \<Rightarrow> int \<Rightarrow> client_pc \<Rightarrow> 's AsyncLogger \<Rightarrow> client_pc \<times> 's AsyncLogger" where
  "client_step tid spurious now (StartLoad call) lg =
     (if gate_closed (lg_operation_state lg) then Returned call False
      else StartCas call (lg_operation_state lg), lg)"
| "client_step tid spurious now (StartCas call state) lg =
     (if lg_operation_state lg = state \<and> \<not> spurious
      then (started call, lg\<lparr>lg_operation_state := state + 1\<rparr>)
      else (if gate_closed (lg_operation_state lg) then Returned call False
            else StartCas call (lg_operation_state lg), lg))"
| "client_step tid spurious now (LogCheckFailed level source args) lg =
     (if HasWorkerFailure lg then FinishOp (LogCall level source args) False
      else LogCheckLevel level source args, lg)"
| "client_step tid spurious now (LogCheckLevel level source args) lg =
     (if ShouldLog level (lg_level lg) then LogBuild level source args
      else FinishOp (LogCall level source args) False, lg)"
| "client_step tid spurious now (LogBuild level source args) lg =
     (case BuildPayload args of
        None \<Rightarrow> LogUndefined
      | Some payload \<Rightarrow> PubCount (LogCall level source args) (log_item lg tid now level source payload)
          (lg_overflow_policy lg = Block), lg)"
| "client_step tid spurious now FlushCheckJoinable lg =
     (if lg_joined lg then FinishOp FlushCall False else FlushCheckFailed, lg)"
| "client_step tid spurious now FlushCheckFailed lg =
     (if HasWorkerFailure lg then FinishOp FlushCall False else FlushDrawTicket, lg)"
| "client_step tid spurious now FlushDrawTicket lg =
     (let ticket = lg_flush_request lg + 1 in
      (PubCount FlushCall (flush_item ticket) True,
       lg\<lparr>lg_flush_request := ticket, hist_tickets := hist_tickets lg @ [length (lg_slots lg)]\<rparr>))"
| "client_step tid spurious now (PubCount call item block_on_full) lg =
     (PubCheckFailed call item block_on_full,
      if is_log item then lg\<lparr>lg_enqueued := lg_enqueued lg + 1\<rparr> else lg)"
| "client_step tid spurious now (PubCheckFailed call item block_on_full) lg =
     (if HasWorkerFailure lg then PubUncount call item False else PubTry call item block_on_full, lg)"
| "client_step tid spurious now (PubTry call item block_on_full) lg =
     (if queue_full lg
      then (if block_on_full then PubCheckFailed call item True else PubUncount call item True, lg)
      else (PubWrite call item (length (lg_slots lg)), queue_claim lg))"
| "client_step tid spurious now (PubWrite call item position) lg =
     (PubSignal call item, queue_publish position item lg)"
| "client_step tid spurious now (PubSignal call item) lg =
     (PubNotify call item, lg\<lparr>lg_wake_signal := lg_wake_signal lg + 1\<rparr>)"
| "client_step tid spurious now (PubNotify call item) lg =
     (published call item, lg\<lparr>lg_wake_notified := lg_wake_notified lg + 1\<rparr>)"
| "client_step tid spurious now (PubUncount call item was_full) lg =
     (if was_full \<and> is_log item then PubDrop call else FinishOp call False,
      if is_log item then lg\<lparr>lg_enqueued := lg_enqueued lg - 1\<rparr> else lg)"
| "client_step tid spurious now (PubDrop call) lg =
     (FinishOp call False, lg\<lparr>lg_dropped := lg_dropped lg + 1\<rparr>)"
| "client_step tid spurious now (FlushLoad ticket) lg =
     (if lg_flush_complete lg < ticket then FlushLoopFailed ticket (lg_flush_complete lg) else FlushLast ticket, lg)"
| "client_step tid spurious now (FlushLoopFailed ticket completed) lg =
     (if HasWorkerFailure lg then FinishOp FlushCall False else FlushWait ticket completed, lg)"
| "client_step tid spurious now (FlushWait ticket completed) lg =
     (if lg_flush_complete lg \<noteq> completed then FlushLoad ticket
      else FlushBlocked ticket completed (lg_complete_notified lg), lg)"
| "client_step tid spurious now (FlushBlocked ticket completed seen) lg =
     (if lg_complete_notified lg \<noteq> seen then FlushWait ticket completed
      else FlushBlocked ticket completed seen, lg)"
| "client_step tid spurious now (FlushLast ticket) lg = (FinishOp FlushCall (\<not> HasWorkerFailure lg), lg)"
| "client_step tid spurious now (FinishOp call result) lg =
     (let previous = lg_operation_state lg;
          remaining = (previous AND kActiveOperationMask) - 1 in
      (if gate_closed previous \<and> remaining = 0 then FinishSignal call result else Returned call result,
       lg\<lparr>lg_operation_state := previous - 1\<rparr>))"
| "client_step tid spurious now (FinishSignal call result) lg =
     (FinishNotify call result, lg\<lparr>lg_wake_signal := lg_wake_signal lg + 1\<rparr>)"
| "client_step tid spurious now (FinishNotify call result) lg =
     (Returned call result, lg\<lparr>lg_wake_notified := lg_wake_notified lg + 1\<rparr>)"
| "client_step tid spurious now StopLoad lg =
     (if gate_closed (lg_operation_state lg) then StopJoin else StopCas (lg_operation_state lg), lg)"
| "client_step tid spurious now (StopCas state) lg =
     (if lg_operation_state lg = state \<and> \<not> spurious
      then (StopSignal, lg\<lparr>lg_operation_state := state OR kOperationGateClosedBit\<rparr>)
      else (if gate_closed (lg_operation_state lg) then StopJoin else StopCas (lg_operation_state lg), lg))"
| "client_step tid spurious now StopSignal lg = (StopNotify, lg\<lparr>lg_wake_signal := lg_wake_signal lg + 1\<rparr>)"
| "client_step tid spurious now StopNotify lg = (StopJoin, lg\<lparr>lg_wake_notified := lg_wake_notified lg + 1\<rparr>)"
| "client_step tid spurious now StopJoin lg =
     (if lg_joined lg then (StopReturned, lg)
      else if lg_worker_finished lg then (StopReturned, lg\<lparr>lg_joined := True\<rparr>)
      else (StopJoin, lg))"
| "client_step tid spurious now pc lg = (pc, lg)"

section \<open>The worker thread\<close>

text \<open>
  Where an item is handled: in the drain loop, with the flush requests seen so far in this round,
  or after the second attempt to dequeue.
\<close>

datatype handle_place = InDrain bool | InRetry

datatype worker_pc =
    WorkerTop
  | Drain bool bool
  | DrainRelease handle_place QueueItem
  | Handle handle_place QueueItem
  | CountWritten handle_place LogLevel
  | LoadFlushLevel handle_place LogLevel
  | StoreTicket handle_place u64
  | NotifyFlushers handle_place
  | FlushRequired
  | CheckDue bool
  | CheckStop bool
  | CheckActive bool
  | LoadSignal
  | Retry u64
  | RetryFlush
  | WaitDeadline u64
  | WaitSignal u64 int
  | WaitFailed u64 int
  | WaitStop u64 int
  | WaitActive u64 int
  | WaitEnter u64 int
  | WaitBlocked u64 int nat
  | FinalFlush
  | RecordFailure exn
  | FailStopLoad
  | FailStopCas u64
  | FailSetFailed
  | FailLoadTicket
  | FailStoreTicket u64
  | FailNotifyFlushers
  | FailSignal
  | FailNotify
  | WorkerDone

text \<open>The value of \<open>HandleItem\<close> goes into \<open>flush_required\<close>.\<close>

fun handled :: "handle_place \<Rightarrow> bool \<Rightarrow> worker_pc" where
  "handled (InDrain flush_required) b = Drain True (b \<or> flush_required)"
| "handled InRetry b = (if b then RetryFlush else WorkerTop)"

definition after_progress :: "bool \<Rightarrow> worker_pc" where
  "after_progress made_progress = (if made_progress then WorkerTop else LoadSignal)"

fun exn_what :: "exn \<Rightarrow> string" where
  "exn_what (InvalidArgument s) = s"
| "exn_what (RuntimeError s) = s"
| "exn_what (OtherStdException s) = s"
| "exn_what NonStdException = ''unknown async logger worker failure''"

text \<open>The object behind \<open>sink_\<close> after a call, and the point the worker goes on at.\<close>

definition sink_called :: "sink_call \<Rightarrow> 's \<times> io_world \<Rightarrow> 's AsyncLogger \<Rightarrow> 's AsyncLogger" where
  "sink_called c st lg = lg\<lparr>lg_sink := st, hist_calls := hist_calls lg @ [c]\<rparr>"

definition flush_sink :: "('s \<times> io_world) sink_ops \<Rightarrow> worker_pc \<Rightarrow> 's AsyncLogger \<Rightarrow> worker_pc \<times> 's AsyncLogger" where
  "flush_sink ops next_pc lg =
     (case op_flush ops (lg_sink lg) of
        (Inl e, st) \<Rightarrow> (RecordFailure e, sink_called CallFlush st lg)
      | (Inr _, st) \<Rightarrow> (next_pc, sink_called CallFlush st (lg\<lparr>hist_flushed := lg_taken lg\<rparr>)))"

definition write_sink :: "('s \<times> io_world) sink_ops \<Rightarrow> LogMessage \<Rightarrow> int \<Rightarrow> worker_pc \<Rightarrow> 's AsyncLogger \<Rightarrow> worker_pc \<times> 's AsyncLogger" where
  "write_sink ops m now next_pc lg =
     (case op_write ops m (set_clock now (lg_sink lg)) of
        (Inl e, st) \<Rightarrow> (RecordFailure e, sink_called (CallWrite m now) st lg)
      | (Inr _, st) \<Rightarrow> (next_pc, sink_called (CallWrite m now) st (lg\<lparr>hist_written := hist_written lg @ [m]\<rparr>)))"

definition check_sink :: "('s \<times> io_world) sink_ops \<Rightarrow> int \<Rightarrow> bool \<Rightarrow> 's AsyncLogger \<Rightarrow> worker_pc \<times> 's AsyncLogger" where
  "check_sink ops now made_progress lg =
     (case op_due ops now (lg_sink lg) of
        (Inl e, st) \<Rightarrow> (RecordFailure e, sink_called (CallFlushIfDue now) st lg)
      | (Inr b, st) \<Rightarrow> (CheckStop (b \<or> made_progress), sink_called (CallFlushIfDue now) st lg))"

lemmas sink_step_defs = flush_sink_def write_sink_def check_sink_def sink_called_def

text \<open>
  One step of the worker: \<open>now\<close> is the reading of the steady clock, \<open>spurious\<close> a spurious failure of
  a weak compare-exchange or a spurious wakeup.
\<close>

fun worker_step :: "('s \<times> io_world) sink_ops \<Rightarrow> bool \<Rightarrow> int \<Rightarrow> worker_pc \<Rightarrow> 's AsyncLogger \<Rightarrow> worker_pc \<times> 's AsyncLogger" where
  "worker_step ops spurious now WorkerTop lg = (Drain False False, lg)"
| "worker_step ops spurious now (Drain made_progress flush_required) lg =
     (case queue_head lg of
        Some item \<Rightarrow> (DrainRelease (InDrain flush_required) item, lg\<lparr>lg_taken := lg_taken lg + 1\<rparr>)
      | None \<Rightarrow> (if flush_required then FlushRequired else CheckDue made_progress, lg))"
| "worker_step ops spurious now (DrainRelease place item) lg =
     (Handle place item, lg\<lparr>lg_released := lg_released lg + 1\<rparr>)"
| "worker_step ops spurious now (Handle place item) lg =
     (if is_log item
      then write_sink ops (item_message item) now (CountWritten place (msg_level (item_message item))) lg
      else flush_sink ops (StoreTicket place (item_ticket item)) lg)"
| "worker_step ops spurious now (CountWritten place level) lg =
     (LoadFlushLevel place level, lg\<lparr>lg_written := lg_written lg + 1\<rparr>)"
| "worker_step ops spurious now (LoadFlushLevel place level) lg =
     (handled place (ShouldLog level (lg_flush_level lg)), lg)"
| "worker_step ops spurious now (StoreTicket place ticket) lg =
     (NotifyFlushers place, lg\<lparr>lg_flush_complete := ticket\<rparr>)"
| "worker_step ops spurious now (NotifyFlushers place) lg =
     (handled place False, lg\<lparr>lg_complete_notified := lg_complete_notified lg + 1\<rparr>)"
| "worker_step ops spurious now FlushRequired lg = flush_sink ops (CheckDue True) lg"
| "worker_step ops spurious now (CheckDue made_progress) lg = check_sink ops now made_progress lg"
| "worker_step ops spurious now (CheckStop made_progress) lg =
     (if StopRequested lg then CheckActive made_progress else after_progress made_progress, lg)"
| "worker_step ops spurious now (CheckActive made_progress) lg =
     (if ActiveOperationCount lg = 0 then FinalFlush else after_progress made_progress, lg)"
| "worker_step ops spurious now LoadSignal lg = (Retry (lg_wake_signal lg), lg)"
| "worker_step ops spurious now (Retry signal) lg =
     (case queue_head lg of
        Some item \<Rightarrow> (DrainRelease InRetry item, lg\<lparr>lg_taken := lg_taken lg + 1\<rparr>)
      | None \<Rightarrow> (WaitDeadline signal, lg))"
| "worker_step ops spurious now RetryFlush lg = flush_sink ops WorkerTop lg"
| "worker_step ops spurious now (WaitDeadline signal) lg = (WaitSignal signal (op_next ops (lg_sink lg)), lg)"
| "worker_step ops spurious now (WaitSignal signal deadline) lg =
     (if lg_wake_signal lg \<noteq> signal then WorkerTop else WaitFailed signal deadline, lg)"
| "worker_step ops spurious now (WaitFailed signal deadline) lg =
     (if HasWorkerFailure lg then WorkerTop else WaitStop signal deadline, lg)"
| "worker_step ops spurious now (WaitStop signal deadline) lg =
     (if StopRequested lg then WaitActive signal deadline else WaitEnter signal deadline, lg)"
| "worker_step ops spurious now (WaitActive signal deadline) lg =
     (if ActiveOperationCount lg = 0 then WorkerTop else WaitEnter signal deadline, lg)"
| "worker_step ops spurious now (WaitEnter signal deadline) lg =
     (WaitBlocked signal deadline (lg_wake_notified lg), lg)"
| "worker_step ops spurious now (WaitBlocked signal deadline seen) lg =
     (if lg_wake_notified lg \<noteq> seen \<or> spurious then WaitSignal signal deadline
      else if deadline \<noteq> time_max \<and> deadline \<le> now then WorkerTop
      else WaitBlocked signal deadline seen, lg)"
| "worker_step ops spurious now FinalFlush lg =
     (case flush_sink ops WorkerDone lg of
        (WorkerDone, lg') \<Rightarrow> (WorkerDone, lg'\<lparr>lg_worker_finished := True\<rparr>)
      | (pc, lg') \<Rightarrow> (pc, lg'))"
| "worker_step ops spurious now (RecordFailure e) lg =
     (FailStopLoad,
      if lg_background_failure lg = None
      then lg\<lparr>lg_background_failure := Some e, lg_failure_message := exn_what e\<rparr> else lg)"
| "worker_step ops spurious now FailStopLoad lg =
     (if gate_closed (lg_operation_state lg) then FailSetFailed else FailStopCas (lg_operation_state lg), lg)"
| "worker_step ops spurious now (FailStopCas state) lg =
     (if lg_operation_state lg = state \<and> \<not> spurious
      then (FailSetFailed, lg\<lparr>lg_operation_state := state OR kOperationGateClosedBit\<rparr>)
      else (if gate_closed (lg_operation_state lg) then FailSetFailed else FailStopCas (lg_operation_state lg), lg))"
| "worker_step ops spurious now FailSetFailed lg = (FailLoadTicket, lg\<lparr>lg_worker_failed := True\<rparr>)"
| "worker_step ops spurious now FailLoadTicket lg = (FailStoreTicket (lg_flush_request lg), lg)"
| "worker_step ops spurious now (FailStoreTicket ticket) lg = (FailNotifyFlushers, lg\<lparr>lg_flush_complete := ticket\<rparr>)"
| "worker_step ops spurious now FailNotifyFlushers lg =
     (FailSignal, lg\<lparr>lg_complete_notified := lg_complete_notified lg + 1\<rparr>)"
| "worker_step ops spurious now FailSignal lg = (FailNotify, lg\<lparr>lg_wake_signal := lg_wake_signal lg + 1\<rparr>)"
| "worker_step ops spurious now FailNotify lg =
     (WorkerDone, lg\<lparr>lg_wake_notified := lg_wake_notified lg + 1, lg_worker_finished := True\<rparr>)"
| "worker_step ops spurious now WorkerDone lg = (WorkerDone, lg)"

section \<open>The system\<close>

record 's logger_sys =
  sys_logger :: "'s AsyncLogger"
  sys_worker :: worker_pc
  sys_clients :: "client_pc list"

text \<open>
  \<open>hash\<close> gives the hash of the thread id of each client.  Clients call what they like, in any order
  and at any time; the levels may be set at any time.
\<close>

inductive logger_step :: "('s \<times> io_world) sink_ops \<Rightarrow> (nat \<Rightarrow> u64) \<Rightarrow> 's logger_sys \<Rightarrow> 's logger_sys \<Rightarrow> bool"
  for ops hash where
  client_calls: "t < length (sys_clients st) \<Longrightarrow> sys_clients st ! t = ClientIdle \<Longrightarrow> pc' \<in> {StartLoad call, StopLoad} \<Longrightarrow>
    logger_step ops hash st (st\<lparr>sys_clients := (sys_clients st)[t := pc']\<rparr>)"
| client_moves: "t < length (sys_clients st) \<Longrightarrow>
    client_step (hash t) spurious now (sys_clients st ! t) (sys_logger st) = (pc', lg') \<Longrightarrow>
    logger_step ops hash st (st\<lparr>sys_logger := lg', sys_clients := (sys_clients st)[t := pc']\<rparr>)"
| client_returns: "t < length (sys_clients st) \<Longrightarrow> sys_clients st ! t \<in> {Returned call b, StopReturned} \<Longrightarrow>
    logger_step ops hash st (st\<lparr>sys_clients := (sys_clients st)[t := ClientIdle]\<rparr>)"
| level_set: "logger_step ops hash st (st\<lparr>sys_logger := SetLevel l (sys_logger st)\<rparr>)"
| flush_level_set: "logger_step ops hash st (st\<lparr>sys_logger := SetFlushLevel l (sys_logger st)\<rparr>)"
| worker_moves: "worker_step ops spurious now (sys_worker st) (sys_logger st) = (pc', lg') \<Longrightarrow>
    logger_step ops hash st (st\<lparr>sys_logger := lg', sys_worker := pc'\<rparr>)"

definition logger_start :: "'s AsyncLogger \<Rightarrow> nat \<Rightarrow> 's logger_sys" where
  "logger_start lg n = \<lparr>sys_logger = lg, sys_worker = WorkerTop, sys_clients = replicate n ClientIdle\<rparr>"

end
