(* ===== verification/Logger_Gate.thy ===== *)
theory Logger_Gate
  imports Async_Logger
begin

text \<open>
  The gate of the logger: \<open>operation_state_\<close> holds the number of operations that have been let in
  and have not finished, and a bit that says whether the gate is closed.
\<close>

section \<open>The word and what it counts\<close>

definition op_word :: "bool \<Rightarrow> nat \<Rightarrow> u64" where
  "op_word shut n = of_nat (n + (if shut then 2 ^ 63 else 0))"

lemma unat_op_word: "n < 2 ^ 63 \<Longrightarrow> unat (op_word shut n) = n + (if shut then 2 ^ 63 else 0)"
  unfolding op_word_def by (rule unat_of_nat_fits) simp

lemma op_word_gate [simp]:
  assumes "n < 2 ^ 63"
  shows "gate_closed (op_word shut n) = shut"
proof -
  have "gate_closed (op_word shut n) \<longleftrightarrow> bit (op_word shut n) 63"
    by (simp add: gate_closed_def kOperationGateClosedBit_def bit_iff_and_push_bit_not_eq_0)
  also have "\<dots> \<longleftrightarrow> odd (unat (op_word shut n) div 2 ^ 63)" by (rule bit_unat)
  also have "\<dots> \<longleftrightarrow> shut" using assms unat_op_word [OF assms] by simp
  finally show ?thesis .
qed

lemma op_word_active [simp]:
  assumes "n < 2 ^ 63"
  shows "op_word shut n AND kActiveOperationMask = of_nat n"
proof -
  have mask: "kActiveOperationMask = mask 63" by code_simp
  have "unat (op_word shut n AND kActiveOperationMask) = take_bit 63 (unat (op_word shut n))"
    unfolding mask by (simp add: unsigned_take_bit_eq flip: take_bit_eq_mask)
  also have "\<dots> = n" using assms unat_op_word [OF assms] by (simp add: take_bit_eq_mod)
  finally have "of_nat (unat (op_word shut n AND kActiveOperationMask)) = (of_nat n :: u64)" by (rule arg_cong)
  then show ?thesis by simp
qed

lemma op_word_steps [simp]:
  "op_word shut n + 1 = op_word shut (Suc n)"
  "0 < n \<Longrightarrow> op_word shut n - 1 = op_word shut (n - 1)"
  "n < 2 ^ 63 \<Longrightarrow> op_word shut n OR kOperationGateClosedBit = op_word True n"
proof -
  show "op_word shut n + 1 = op_word shut (Suc n)" by (simp add: op_word_def)
  show "op_word shut n - 1 = op_word shut (n - 1)" if "0 < n"
    using that by (cases n) (simp_all add: op_word_def)
  show "op_word shut n OR kOperationGateClosedBit = op_word True n" if "n < 2 ^ 63"
  proof (cases shut)
    case True
    then have "bit (op_word shut n) 63" using op_word_gate [OF that, of shut]
      by (simp add: gate_closed_def kOperationGateClosedBit_def bit_iff_and_push_bit_not_eq_0)
    then have "op_word shut n OR kOperationGateClosedBit = op_word shut n"
      unfolding kOperationGateClosedBit_def
      by (intro bit_word_eqI, rename_tac m, case_tac "m = 63") (auto simp: bit_or_iff bit_push_bit_iff bit_1_iff simp del: push_bit_of_1)
    then show ?thesis using True by simp
  next
    case False
    then have "\<not> bit (op_word shut n) 63" using op_word_gate [OF that, of shut]
      by (simp add: gate_closed_def kOperationGateClosedBit_def bit_iff_and_push_bit_not_eq_0)
    then have "op_word shut n OR kOperationGateClosedBit = op_word shut n + kOperationGateClosedBit"
      unfolding kOperationGateClosedBit_def
      by (intro disjunctive_add [symmetric], rename_tac m, case_tac "m = 63")
        (auto simp: bit_push_bit_iff bit_1_iff simp del: push_bit_of_1 dest: bit_imp_le_length)
    then show ?thesis using False by (simp add: op_word_def kOperationGateClosedBit_def)
  qed
qed

section \<open>Who is inside\<close>

fun inside :: "client_pc \<Rightarrow> bool" where
  "inside ClientIdle = False"
| "inside (StartLoad c) = False"
| "inside (StartCas c s) = False"
| "inside (FinishSignal c b) = False"
| "inside (FinishNotify c b) = False"
| "inside (Returned c b) = False"
| "inside StopLoad = False"
| "inside (StopCas s) = False"
| "inside StopSignal = False"
| "inside StopNotify = False"
| "inside StopJoin = False"
| "inside StopReturned = False"
| "inside _ = True"

definition inside_count :: "client_pc list \<Rightarrow> nat" where
  "inside_count cs = length (filter inside cs)"

lemma inside_count_update:
  "t < length cs \<Longrightarrow> inside_count (cs[t := pc']) + (if inside (cs ! t) then 1 else 0) = inside_count cs + (if inside pc' then 1 else 0)"
  unfolding inside_count_def by (rule filter_update_count)

lemma inside_count_le: "inside_count cs \<le> length cs"
  by (simp add: inside_count_def)

lemma inside_count_pos: "t < length cs \<Longrightarrow> inside (cs ! t) \<Longrightarrow> 0 < inside_count cs"
  by (auto simp: inside_count_def length_greater_0_conv filter_empty_conv simp del: length_greater_0_conv)

text \<open>The state a compare-exchange of \<open>TryStartOperation\<close> expects has its gate open.\<close>

fun expects_open :: "client_pc \<Rightarrow> bool" where
  "expects_open (StartCas c s) \<longleftrightarrow> \<not> gate_closed s"
| "expects_open _ \<longleftrightarrow> True"

definition gate_inv :: "'s logger_sys \<Rightarrow> bool" where
  "gate_inv st \<longleftrightarrow> (\<exists>shut. lg_operation_state (sys_logger st) = op_word shut (inside_count (sys_clients st))) \<and>
     list_all expects_open (sys_clients st)"

text \<open>What a client step does to the word.\<close>

lemma published_inside [simp]: "inside (published c item)" "inside (started c)" "expects_open (published c item)" "expects_open (started c)"
  by (cases c; simp)+

lemma client_step_state:
  assumes run: "client_step tid spurious now pc lg = (pc', lg')" and s: "lg_operation_state lg = op_word shut n" and n: "n < 2 ^ 63"
    and pos: "inside pc \<Longrightarrow> 0 < n" and ok: "expects_open pc"
  shows "(lg_operation_state lg' = op_word shut n \<and> inside pc' = inside pc) \<or>
    (lg_operation_state lg' = op_word True n \<and> \<not> inside pc' \<and> \<not> inside pc) \<or>
    (\<not> shut \<and> lg_operation_state lg' = op_word False (Suc n) \<and> inside pc' \<and> \<not> inside pc) \<or>
    (lg_operation_state lg' = op_word shut (n - 1) \<and> \<not> inside pc' \<and> inside pc)"
proof (cases pc)
  case (StartCas c w)
  have g: "gate_closed (op_word shut n) = shut" using n by simp
  show ?thesis
  proof (cases "lg_operation_state lg = w \<and> \<not> spurious")
    case True
    then have "\<not> shut" using ok StartCas s g by auto
    moreover have "lg' = lg\<lparr>lg_operation_state := op_word shut n + 1\<rparr>" "pc' = started c" using run StartCas True s by auto
    ultimately show ?thesis using StartCas by (simp only:) simp
  next
    case False
    then show ?thesis using run StartCas s by (auto split: if_splits)
  qed
next
  case (FinishOp c b)
  then have "0 < n" using pos by simp
  moreover have "lg' = lg\<lparr>lg_operation_state := op_word shut n - 1\<rparr>" "\<not> inside pc'"
    using run FinishOp s by (auto simp: Let_def split: if_splits)
  ultimately show ?thesis using FinishOp by (simp only:) simp
next
  case (StopCas w)
  show ?thesis
  proof (cases "lg_operation_state lg = w \<and> \<not> spurious")
    case True
    then have "lg' = lg\<lparr>lg_operation_state := op_word shut n OR kOperationGateClosedBit\<rparr>" "pc' = StopSignal"
      using run StopCas s by auto
    then show ?thesis using StopCas n by (simp only:) simp
  next
    case False
    then show ?thesis using run StopCas s by (auto split: if_splits)
  qed
next
  case (LogBuild l src args)
  then show ?thesis using run s by (auto split: option.splits)
qed (use run s in \<open>auto simp: Let_def queue_claim_def queue_publish_def split: if_splits\<close>)

lemma client_step_expects: "client_step tid spurious now pc lg = (pc', lg') \<Longrightarrow> expects_open pc \<Longrightarrow> expects_open pc'"
  by (cases pc) (auto simp: Let_def split: if_splits option.splits)

lemma worker_step_state:
  assumes run: "worker_step ops spurious now pc lg = (pc', lg')" and s: "lg_operation_state lg = op_word shut n" and n: "n < 2 ^ 63"
  shows "lg_operation_state lg' = op_word shut n \<or> lg_operation_state lg' = op_word True n"
proof (cases pc)
  case (FailStopCas w)
  show ?thesis
  proof (cases "lg_operation_state lg = w \<and> \<not> spurious")
    case True
    then have "lg' = lg\<lparr>lg_operation_state := op_word shut n OR kOperationGateClosedBit\<rparr>"
      using run FailStopCas s by auto
    then show ?thesis using n by (simp only:) simp
  next
    case False
    then show ?thesis using run FailStopCas s by (auto split: if_splits)
  qed
qed (use run s in \<open>auto simp: sink_step_defs split: if_splits option.splits prod.splits sum.splits\<close>)

section \<open>Every step keeps the count\<close>

lemma inside_count_same:
  "t < length cs \<Longrightarrow> inside pc' = inside (cs ! t) \<Longrightarrow> inside_count (cs[t := pc']) = inside_count cs"
  using inside_count_update [of t cs pc'] by (simp split: if_splits)

lemma gate_step:
  assumes step: "logger_step ops hash st st'" and inv: "gate_inv st" and few: "length (sys_clients st) < 2 ^ 63"
  shows "gate_inv st' \<and> length (sys_clients st') = length (sys_clients st) \<and>
    (StopRequested (sys_logger st) \<longrightarrow> StopRequested (sys_logger st') \<and>
      (\<forall>t. t < length (sys_clients st) \<longrightarrow> inside (sys_clients st' ! t) \<longrightarrow> inside (sys_clients st ! t)))"
proof -
  let ?n = "inside_count (sys_clients st)"
  obtain shut where s: "lg_operation_state (sys_logger st) = op_word shut ?n" and e: "list_all expects_open (sys_clients st)"
    using inv unfolding gate_inv_def by blast
  have n: "?n < 2 ^ 63" using few inside_count_le [of "sys_clients st"] by simp
  have g: "StopRequested (sys_logger st) = shut" unfolding StopRequested_def s by (rule op_word_gate [OF n])
  show ?thesis
    using step
  proof cases
    case (client_calls t pc' call)
    then have i: "inside pc' = inside (sys_clients st ! t)" "\<not> inside pc'" "expects_open pc'" by auto
    from client_calls i s g e list_all_update [OF e i(3)] inside_count_same [OF client_calls(2) i(1)] show ?thesis
      by (auto simp: gate_inv_def nth_list_update)
  next
    case (client_moves t spurious now pc' lg')
    let ?pc = "sys_clients st ! t"
    have ok: "expects_open ?pc" using e client_moves(2) by (simp add: list_all_length)
    have ok': "list_all expects_open ((sys_clients st)[t := pc'])"
      by (rule list_all_update [OF e client_step_expects [OF client_moves(3) ok]])
    have pos: "inside ?pc \<Longrightarrow> 0 < ?n" by (rule inside_count_pos [OF client_moves(2)])
    have cnt: "inside_count ((sys_clients st)[t := pc']) + (if inside ?pc then 1 else 0) = ?n + (if inside pc' then 1 else 0)"
      by (rule inside_count_update [OF client_moves(2)])
    have res: "gate_inv st'" if "lg_operation_state lg' = op_word shut' (inside_count ((sys_clients st)[t := pc']))" for shut'
      using client_moves(1) ok' that by (auto simp: gate_inv_def)
    have "(StopRequested lg' \<longleftrightarrow> shut') \<and> gate_inv st'"
      if "lg_operation_state lg' = op_word shut' m" "m = inside_count ((sys_clients st)[t := pc'])" "m < 2 ^ 63" for shut' m
      using that res [of shut'] by (simp add: StopRequested_def)
    note R = this
    have bound: "inside_count ((sys_clients st)[t := pc']) < 2 ^ 63"
      using few inside_count_le [of "(sys_clients st)[t := pc']"] by simp
    from client_step_state [OF client_moves(3) s n pos ok]
    consider "lg_operation_state lg' = op_word shut ?n" "inside pc' = inside ?pc"
      | "lg_operation_state lg' = op_word True ?n" "\<not> inside pc'" "\<not> inside ?pc"
      | "\<not> shut" "lg_operation_state lg' = op_word False (Suc ?n)" "inside pc'" "\<not> inside ?pc"
      | "lg_operation_state lg' = op_word shut (?n - 1)" "\<not> inside pc'" "inside ?pc" by blast
    then have "gate_inv st' \<and> (shut \<longrightarrow> StopRequested lg' \<and> (inside pc' \<longrightarrow> inside ?pc))"
    proof cases
      case 1
      then show ?thesis using R [of shut ?n] cnt bound by (auto split: if_splits)
    next
      case 2
      then show ?thesis using R [of True ?n] cnt bound by (auto split: if_splits)
    next
      case 3
      then show ?thesis using R [of False "Suc ?n"] cnt bound by (auto split: if_splits)
    next
      case 4
      then have "inside_count ((sys_clients st)[t := pc']) = ?n - 1" using cnt by simp
      then show ?thesis using R [of shut "?n - 1"] bound 4 by auto
    qed
    then show ?thesis using client_moves(1,2) g by (auto simp: nth_list_update)
  next
    case (client_returns t call b)
    then have i: "inside ClientIdle = inside (sys_clients st ! t)" "\<not> inside ClientIdle" "expects_open ClientIdle" by auto
    from client_returns i s g e list_all_update [OF e i(3)] inside_count_same [OF client_returns(2) i(1)] show ?thesis
      by (auto simp: gate_inv_def nth_list_update)
  next
    case (worker_moves spurious now pc' lg')
    from worker_step_state [OF worker_moves(2) s n] show ?thesis
      using worker_moves(1) e g n by (auto simp: gate_inv_def StopRequested_def)
  qed (use s e g in \<open>auto simp: gate_inv_def StopRequested_def SetLevel_def SetFlushLevel_def\<close>)
qed

lemma gate_start:
  "lg_operation_state lg = 0 \<Longrightarrow> gate_inv (logger_start lg n)"
  by (auto simp: gate_inv_def logger_start_def inside_count_def op_word_def list_all_iff intro!: exI [of _ False])

text \<open>A logger that has just been constructed, with a queue size that can be rounded up.\<close>

definition fresh_logger :: "'s AsyncLogger \<Rightarrow> bool" where
  "fresh_logger lg \<longleftrightarrow> (\<exists>name sink options. AsyncLogger_new name (Some sink) options = Inr lg \<and> unat (opt_queue_size options) \<le> 2 ^ 63)"

text \<open>The states reached from a fresh logger shared by \<open>n\<close> client threads.\<close>

definition logger_reach :: "('s \<times> io_world) sink_ops \<Rightarrow> (nat \<Rightarrow> u64) \<Rightarrow> 's AsyncLogger \<Rightarrow> nat \<Rightarrow> 's logger_sys \<Rightarrow> bool" where
  "logger_reach ops hash lg n st \<longleftrightarrow> fresh_logger lg \<and> n < 2 ^ 63 \<and> rtranclp (logger_step ops hash) (logger_start lg n) st"

lemma reach_gate:
  assumes "logger_reach ops hash lg n st"
  shows "gate_inv st \<and> length (sys_clients st) = n"
proof -
  have "rtranclp (logger_step ops hash) (logger_start lg n) st" and n: "n < 2 ^ 63"
    and f: "lg_operation_state lg = 0"
    using assms by (auto simp: logger_reach_def fresh_logger_def AsyncLogger_new_def)
  then show ?thesis
  proof (induction rule: rtranclp_induct)
    case base
    show ?case using gate_start [OF f] by (simp add: logger_start_def)
  next
    case (step st st')
    then show ?case using gate_step [of ops hash st st'] by simp
  qed
qed

text \<open>
  C8. The gate.  In every reachable state the lower bits of \<open>operation_state_\<close> are the number of
  calls of \<open>Log\<close> and \<open>Flush\<close> that have been let in and not finished.  Once the gate is closed it
  stays closed, and from then on no step of any thread lets a further call in.
\<close>

theorem logger_gate:
  assumes "logger_reach ops hash lg n st" and "logger_step ops hash st st'"
  shows "unat (ActiveOperationCount (sys_logger st)) = length (filter inside (sys_clients st)) \<and>
    (StopRequested (sys_logger st) \<longrightarrow> StopRequested (sys_logger st') \<and>
      (\<forall>t < n. inside (sys_clients st' ! t) \<longrightarrow> inside (sys_clients st ! t)))"
proof -
  have inv: "gate_inv st" and len: "length (sys_clients st) = n" using reach_gate [OF assms(1)] by blast+
  have n: "n < 2 ^ 63" using assms(1) by (simp add: logger_reach_def)
  let ?n = "inside_count (sys_clients st)"
  have m: "?n < 2 ^ 63" using inside_count_le [of "sys_clients st"] len n by simp
  then have "unat (of_nat ?n :: u64) = ?n" by (intro unat_of_nat_fits) simp
  moreover obtain shut where "lg_operation_state (sys_logger st) = op_word shut ?n" using inv by (auto simp: gate_inv_def)
  ultimately have "unat (ActiveOperationCount (sys_logger st)) = ?n" using m by (simp add: ActiveOperationCount_def)
  with gate_step [OF assms(2) inv] len n show ?thesis by (simp add: inside_count_def)
qed

end
