(* ===== verification/Logger_Invariant.thy ===== *)
theory Logger_Invariant
  imports Logger_Gate
begin

text \<open>
  How invariants of the logger are proved: a global part \<open>G\<close> about the shared state and the worker,
  a part \<open>K\<close> about the point of each client and a part \<open>D\<close> about two different clients.  It is
  enough to look at one step of one thread and at what it does to one other thread.  \<open>bound\<close> limits
  the runs considered and \<open>known\<close> is what has been proved before.
\<close>

locale logger_invariant =
  fixes ops :: "('s \<times> io_world) sink_ops"
    and hash :: "nat \<Rightarrow> u64"
    and lg0 :: "'s AsyncLogger"
    and n :: nat
    and bound :: "'s AsyncLogger \<Rightarrow> bool"
    and known :: "'s AsyncLogger \<Rightarrow> worker_pc \<Rightarrow> client_pc \<Rightarrow> bool"
    and G :: "'s AsyncLogger \<Rightarrow> worker_pc \<Rightarrow> bool"
    and K :: "'s AsyncLogger \<Rightarrow> worker_pc \<Rightarrow> client_pc \<Rightarrow> bool"
    and D :: "client_pc \<Rightarrow> client_pc \<Rightarrow> bool"
  assumes bound_back: "logger_step ops hash st st' \<Longrightarrow> bound (sys_logger st') \<Longrightarrow> bound (sys_logger st)"
    and known_reach: "logger_reach ops hash lg0 n st \<Longrightarrow> bound (sys_logger st) \<Longrightarrow>
      pc \<in> insert ClientIdle (set (sys_clients st)) \<Longrightarrow> known (sys_logger st) (sys_worker st) pc"
    and start: "fresh_logger lg0 \<Longrightarrow> G lg0 WorkerTop"
    and outside: "\<not> inside pc \<Longrightarrow> K lg w pc" "\<not> inside pc \<Longrightarrow> D pc qc"
    and D_sym: "D pc qc \<Longrightarrow> D qc pc"
    and client: "known lg w pc \<Longrightarrow> bound lg' \<Longrightarrow> G lg w \<Longrightarrow> K lg w pc \<Longrightarrow>
      client_step tid spurious now pc lg = (pc', lg') \<Longrightarrow> G lg' w \<and> K lg' w pc'"
    and other: "known lg w pc \<Longrightarrow> known lg w qc \<Longrightarrow> bound lg' \<Longrightarrow> G lg w \<Longrightarrow> K lg w pc \<Longrightarrow> K lg w qc \<Longrightarrow> D pc qc \<Longrightarrow>
      client_step tid spurious now pc lg = (pc', lg') \<Longrightarrow> K lg' w qc \<and> D pc' qc"
    and worker: "known lg w ClientIdle \<Longrightarrow> bound lg' \<Longrightarrow> G lg w \<Longrightarrow>
      worker_step ops spurious now w lg = (w', lg') \<Longrightarrow> G lg' w'"
    and worker_other: "known lg w qc \<Longrightarrow> known lg w ClientIdle \<Longrightarrow> bound lg' \<Longrightarrow> G lg w \<Longrightarrow> K lg w qc \<Longrightarrow>
      worker_step ops spurious now w lg = (w', lg') \<Longrightarrow> K lg' w' qc"
    and levels: "G lg w \<Longrightarrow> G (SetLevel l lg) w" "K lg w pc \<Longrightarrow> K (SetLevel l lg) w pc"
      "G lg w \<Longrightarrow> G (SetFlushLevel l lg) w" "K lg w pc \<Longrightarrow> K (SetFlushLevel l lg) w pc"
begin

definition holds :: "'s logger_sys \<Rightarrow> bool" where
  "holds st \<longleftrightarrow> G (sys_logger st) (sys_worker st) \<and>
     (\<forall>t < length (sys_clients st). K (sys_logger st) (sys_worker st) (sys_clients st ! t)) \<and>
     (\<forall>t < length (sys_clients st). \<forall>u < length (sys_clients st). t \<noteq> u \<longrightarrow> D (sys_clients st ! t) (sys_clients st ! u))"

lemma client_keeps:
  assumes inv: "holds st" and t: "t < length (sys_clients st)"
    and G: "G lg' (sys_worker st)" and K: "K lg' (sys_worker st) pc'"
    and others: "\<And>u. u < length (sys_clients st) \<Longrightarrow> u \<noteq> t \<Longrightarrow>
      K lg' (sys_worker st) (sys_clients st ! u) \<and> D pc' (sys_clients st ! u)"
  shows "holds (st\<lparr>sys_logger := lg', sys_clients := (sys_clients st)[t := pc']\<rparr>)"
  using inv t G K others D_sym by (simp add: holds_def nth_list_update)

lemma step_keeps:
  assumes step: "logger_step ops hash st st'" and inv: "holds st" and b: "bound (sys_logger st')"
    and known: "\<And>pc. pc \<in> insert ClientIdle (set (sys_clients st)) \<Longrightarrow> known (sys_logger st) (sys_worker st) pc"
  shows "holds st'"
  using step
proof cases
  case (client_calls t pc' call)
  then have "\<not> inside pc'" by auto
  from client_keeps [OF inv client_calls(2), of "sys_logger st" pc'] inv outside [OF this] client_calls(1)
  show ?thesis by (simp add: holds_def)
next
  case (client_returns t call b)
  from client_keeps [OF inv client_returns(2), of "sys_logger st" ClientIdle] inv outside [of ClientIdle] client_returns(1)
  show ?thesis by (simp add: holds_def)
next
  case (client_moves t spurious now pc' lg')
  let ?pc = "sys_clients st ! t"
  have b': "bound lg'" using b client_moves(1) by simp
  have I: "G (sys_logger st) (sys_worker st)" "K (sys_logger st) (sys_worker st) ?pc" using inv client_moves(2) by (auto simp: holds_def)
  have k: "known (sys_logger st) (sys_worker st) ?pc" using known client_moves(2) by simp
  have "K lg' (sys_worker st) (sys_clients st ! u) \<and> D pc' (sys_clients st ! u)" if "u < length (sys_clients st)" "u \<noteq> t" for u
    using other [OF k known b' I _ _ client_moves(3)] inv that client_moves(2) by (simp add: holds_def)
  with client [OF k b' I client_moves(3)] show ?thesis
    unfolding client_moves(1) by (intro client_keeps [OF inv client_moves(2)]) simp_all
next
  case (worker_moves spurious now pc' lg')
  have b': "bound lg'" using b worker_moves(1) by simp
  have I: "G (sys_logger st) (sys_worker st)" using inv by (simp add: holds_def)
  have k: "known (sys_logger st) (sys_worker st) ClientIdle" using known by simp
  from worker [OF k b' I worker_moves(2)] worker_other [OF known k b' I _ worker_moves(2)] inv worker_moves(1)
  show ?thesis by (simp add: holds_def)
qed (use inv levels in \<open>simp_all add: holds_def\<close>)

lemma reach_holds: "logger_reach ops hash lg0 n st \<Longrightarrow> bound (sys_logger st) \<Longrightarrow> holds st"
proof -
  assume reach: "logger_reach ops hash lg0 n st" and b: "bound (sys_logger st)"
  then have path: "rtranclp (logger_step ops hash) (logger_start lg0 n) st" and f: "fresh_logger lg0" "n < 2 ^ 63"
    by (simp_all add: logger_reach_def)
  from path b show "holds st"
  proof (induction rule: rtranclp_induct)
    case base
    show ?case using start [OF f(1)] outside [of ClientIdle] by (simp add: holds_def logger_start_def)
  next
    case (step st st')
    have b: "bound (sys_logger st)" using bound_back [OF step(2)] step(4) .
    have "logger_reach ops hash lg0 n st" using step(1) f by (simp add: logger_reach_def)
    from step_keeps [OF step(2) step(3) [OF b] step(4) known_reach [OF this b]] show ?case .
  qed
qed

lemma reach_parts:
  assumes "logger_reach ops hash lg0 n st" and "bound (sys_logger st)"
  shows "G (sys_logger st) (sys_worker st)"
    and "t < length (sys_clients st) \<Longrightarrow> K (sys_logger st) (sys_worker st) (sys_clients st ! t)"
    and "pc \<in> insert ClientIdle (set (sys_clients st)) \<Longrightarrow> K (sys_logger st) (sys_worker st) pc"
  using reach_holds [OF assms] outside [of ClientIdle] by (auto simp: holds_def in_set_conv_nth)

end

end
