(* ===== verification/Logger_Queue.thy ===== *)
theory Logger_Queue
  imports Logger_Invariant
begin

text \<open>
  The queue between the clients and the worker: the positions taken and released, the item in the
  worker's hands, and the slots that clients have claimed and not published.
\<close>

section \<open>The invariant\<close>

text \<open>The item the worker has taken and not finished handing to the sink.\<close>

fun in_hand :: "worker_pc \<Rightarrow> QueueItem option" where
  "in_hand (DrainRelease place item) = Some item"
| "in_hand (Handle place item) = Some item"
| "in_hand _ = None"

fun unreleased :: "worker_pc \<Rightarrow> nat" where
  "unreleased (DrainRelease place item) = 1"
| "unreleased _ = 0"

definition queue_inv :: "'s AsyncLogger \<Rightarrow> worker_pc \<Rightarrow> bool" where
  "queue_inv lg w \<longleftrightarrow> lg_taken lg = lg_released lg + unreleased w \<and> lg_taken lg \<le> length (lg_slots lg) \<and>
     length (lg_slots lg) \<le> lg_released lg + lg_capacity lg \<and>
     (\<forall>q < lg_taken lg. lg_slots lg ! q \<noteq> None) \<and>
     (\<forall>item. in_hand w = Some item \<longrightarrow> 0 < lg_taken lg \<and> lg_slots lg ! (lg_taken lg - 1) = Some item) \<and>
     (lg_overflow_policy lg = Block \<longrightarrow> lg_dropped lg = 0)"

text \<open>The item, and the way the call deals with a full queue, fit the call.\<close>

definition fits :: "'s AsyncLogger \<Rightarrow> logger_call \<Rightarrow> QueueItem \<Rightarrow> bool \<Rightarrow> bool" where
  "fits lg call item block_on_full \<longleftrightarrow> (is_log item \<longleftrightarrow> call \<noteq> FlushCall) \<and>
     (\<not> block_on_full \<longrightarrow> lg_overflow_policy lg = DropNewest \<and> call \<noteq> FlushCall)"

fun client_queue_ok :: "'s AsyncLogger \<Rightarrow> client_pc \<Rightarrow> bool" where
  "client_queue_ok lg (PubCount call item b) \<longleftrightarrow> fits lg call item b"
| "client_queue_ok lg (PubCheckFailed call item b) \<longleftrightarrow> fits lg call item b"
| "client_queue_ok lg (PubTry call item b) \<longleftrightarrow> fits lg call item b"
| "client_queue_ok lg (PubWrite call item p) \<longleftrightarrow> fits lg call item True \<and> p < length (lg_slots lg) \<and> lg_slots lg ! p = None"
| "client_queue_ok lg (PubSignal call item) \<longleftrightarrow> fits lg call item True"
| "client_queue_ok lg (PubNotify call item) \<longleftrightarrow> fits lg call item True"
| "client_queue_ok lg (PubUncount call item was_full) \<longleftrightarrow> fits lg call item (\<not> was_full)"
| "client_queue_ok lg (PubDrop call) \<longleftrightarrow> lg_overflow_policy lg = DropNewest"
| "client_queue_ok lg _ \<longleftrightarrow> True"

fun write_position :: "client_pc \<Rightarrow> nat option" where
  "write_position (PubWrite call item p) = Some p"
| "write_position _ = None"

definition writers_apart :: "client_pc \<Rightarrow> client_pc \<Rightarrow> bool" where
  "writers_apart pc qc \<longleftrightarrow> write_position pc = None \<or> write_position pc \<noteq> write_position qc"

lemma queue_head_Some:
  "queue_head lg = Some item \<longleftrightarrow> lg_taken lg < length (lg_slots lg) \<and> lg_slots lg ! lg_taken lg = Some item"
proof (cases "lg_taken lg < length (lg_slots lg)")
  case True
  then show ?thesis by (cases "lg_slots lg ! lg_taken lg") (simp_all add: queue_head_def flip: Cons_nth_drop_Suc)
qed (simp add: queue_head_def)

lemma step_keeps_sizes:
  "client_step tid spurious now pc lg = (pc', lg') \<Longrightarrow>
     lg_capacity lg' = lg_capacity lg \<and> lg_overflow_policy lg' = lg_overflow_policy lg \<and>
     lg_taken lg' = lg_taken lg \<and> lg_released lg' = lg_released lg \<and> lg_name lg' = lg_name lg"
  by (cases pc) (auto simp: queue_claim_def queue_publish_def Let_def split: if_splits option.splits)

lemma fits_mono: "lg_overflow_policy lg' = lg_overflow_policy lg \<Longrightarrow> fits lg' = fits lg"
  by (simp add: fits_def fun_eq_iff)

text \<open>Slots only get more: a claim adds one at the end, a publication fills an empty one.\<close>

lemma client_step_slots:
  assumes "client_step tid spurious now pc lg = (pc', lg')"
  shows "(lg_slots lg' = lg_slots lg \<and> write_position pc' = None \<and> (\<forall>c item p. pc \<noteq> PubWrite c item p)) \<or>
    (\<exists>c item b. pc = PubTry c item b \<and> pc' = PubWrite c item (length (lg_slots lg)) \<and> \<not> queue_full lg \<and>
       lg' = queue_claim lg) \<or>
    (\<exists>c item p. pc = PubWrite c item p \<and> pc' = PubSignal c item \<and> lg' = queue_publish p item lg)"
proof -
  have "write_position (started c) = None" "write_position (published c item) = None" for c item by (cases c; simp)+
  then show ?thesis
    using assms by (cases pc) (auto simp: Let_def split: if_splits option.splits)
qed

lemma client_queue_inv:
  assumes inv: "queue_inv lg w" and ok: "client_queue_ok lg pc" and run: "client_step tid spurious now pc lg = (pc', lg')"
  shows "queue_inv lg' w \<and> client_queue_ok lg' pc'"
proof -
  have p: "lg_overflow_policy lg' = lg_overflow_policy lg" using step_keeps_sizes [OF run] by simp
  have pub: "client_queue_ok x (started c)" "client_queue_ok x (published c item)" for x :: "'a AsyncLogger" and c item
    by (cases c; simp)+
  have "client_queue_ok lg' pc'"
    using ok run pub by (cases pc) (auto simp: Let_def fits_def queue_claim_def queue_publish_def slot_claim_def log_item_def flush_item_def is_log_def
      default_item_def split: if_splits option.splits intro: OverflowPolicy.exhaust)
  moreover have "queue_inv lg' w"
    using inv ok run
    by (cases pc) (auto simp: queue_inv_def Let_def queue_claim_def queue_publish_def slot_claim_def slot_publish_def
      queue_full_def nth_append nth_list_update split: if_splits option.splits)
  ultimately show ?thesis by blast
qed

lemma client_queue_other:
  assumes ok: "client_queue_ok lg pc" and ok2: "client_queue_ok lg qc" and ap: "writers_apart pc qc"
    and run: "client_step tid spurious now pc lg = (pc', lg')"
  shows "client_queue_ok lg' qc \<and> writers_apart pc' qc"
proof -
  have f: "fits lg' = fits lg" "lg_overflow_policy lg' = lg_overflow_policy lg"
    using step_keeps_sizes [OF run] by (auto intro: fits_mono)
  from client_step_slots [OF run] show ?thesis
    using ok ok2 ap by (cases qc) (auto simp: f writers_apart_def queue_claim_def queue_publish_def slot_claim_def slot_publish_def
      nth_append nth_list_update)
qed

lemma worker_queue_inv:
  assumes inv: "queue_inv lg w" and run: "worker_step ops spurious now w lg = (w', lg')"
  shows "queue_inv lg' w' \<and> lg_slots lg' = lg_slots lg \<and> lg_overflow_policy lg' = lg_overflow_policy lg"
proof -
  have "in_hand (handled pl b) = None" "unreleased (handled pl b) = 0" "in_hand (after_progress b) = None"
    "unreleased (after_progress b) = 0" for pl b
    by (cases pl; simp add: after_progress_def)+
  then show ?thesis
    using inv run by (cases w) (auto simp: queue_inv_def sink_step_defs queue_head_Some less_Suc_eq split: if_splits option.splits prod.splits sum.splits)
qed

lemma queue_start: "fresh_logger lg \<Longrightarrow> queue_inv lg WorkerTop"
  by (auto simp: fresh_logger_def AsyncLogger_new_def queue_inv_def)

lemma outside_ok: "\<not> inside pc \<Longrightarrow> client_queue_ok lg pc" "\<not> inside pc \<Longrightarrow> writers_apart pc qc"
  by (cases pc; simp add: writers_apart_def)+

lemma writers_apart_sym: "writers_apart pc qc \<Longrightarrow> writers_apart qc pc"
  by (auto simp: writers_apart_def)

lemma queue_levels:
  "queue_inv (SetLevel l lg) w = queue_inv lg w" "client_queue_ok (SetLevel l lg) pc = client_queue_ok lg pc"
  "queue_inv (SetFlushLevel l lg) w = queue_inv lg w" "client_queue_ok (SetFlushLevel l lg) pc = client_queue_ok lg pc"
  by (cases pc; simp add: queue_inv_def SetLevel_def SetFlushLevel_def fits_def)+

lemma worker_queue_other: "client_queue_ok lg qc \<Longrightarrow> worker_step ops spurious now w lg = (w', lg') \<Longrightarrow> queue_inv lg w \<Longrightarrow>
    client_queue_ok lg' qc"
  using worker_queue_inv [of lg w ops spurious now w' lg'] by (cases qc) (auto simp: fits_def)

interpretation queue: logger_invariant ops hash lg n "\<lambda>_. True" "\<lambda>_ _ _. True" queue_inv "\<lambda>lg w. client_queue_ok lg" writers_apart
  for ops hash lg n
  by unfold_locales
    (auto simp: queue_levels outside_ok queue_start writers_apart_sym
      dest: client_queue_inv client_queue_other worker_queue_inv worker_queue_other)

section \<open>What the worker and the clients do to the queue\<close>

definition queue_of :: "'s AsyncLogger \<Rightarrow> QueueItem slots" where
  "queue_of lg = drop (lg_taken lg) (lg_slots lg)"

lemma client_slot_step:
  assumes inv: "queue_inv lg w" and ok: "client_queue_ok lg pc" and run: "client_step tid spurious now pc lg = (pc', lg')"
  shows "slot_step (lg_capacity lg) (queue_of lg) (queue_of lg')"
proof -
  have t: "lg_taken lg' = lg_taken lg" using step_keeps_sizes [OF run] by simp
  from client_step_slots [OF run] show ?thesis
  proof (elim disjE exE conjE)
    assume "lg_slots lg' = lg_slots lg"
    then show ?thesis using t slot_stutter by (simp add: queue_of_def)
  next
    assume c: "\<not> queue_full lg" "lg' = queue_claim lg"
    then have "length (queue_of lg) < lg_capacity lg" "queue_of lg' = slot_claim (queue_of lg)"
      using inv by (auto simp: queue_inv_def queue_full_def queue_of_def queue_claim_def slot_claim_def)
    then show ?thesis using slot_claims by simp
  next
    fix c item p assume c: "pc = PubWrite c item p" "lg' = queue_publish p item lg"
    then have p: "p < length (lg_slots lg)" "lg_slots lg ! p = None" using ok by simp_all
    then have le: "lg_taken lg \<le> p" using inv by (auto simp: queue_inv_def not_less [symmetric])
    have "queue_of lg' = slot_publish (p - lg_taken lg) item (queue_of lg)"
      using c le by (simp add: queue_of_def queue_publish_def slot_publish_def drop_update_swap)
    moreover have "p - lg_taken lg < length (queue_of lg)" "queue_of lg ! (p - lg_taken lg) = None"
      using p le by (simp_all add: queue_of_def)
    ultimately show ?thesis using slot_publishes by simp
  qed
qed

lemma worker_slot_step:
  assumes inv: "queue_inv lg w" and run: "worker_step ops spurious now w lg = (w', lg')"
  shows "slot_step capacity (queue_of lg) (queue_of lg')"
proof -
  have s: "lg_slots lg' = lg_slots lg" using worker_queue_inv [OF inv run] by simp
  have "lg_taken lg' = lg_taken lg \<or> (\<exists>item. queue_head lg = Some item \<and> lg_taken lg' = Suc (lg_taken lg))"
    using run by (cases w) (auto simp: sink_step_defs split: if_splits option.splits prod.splits sum.splits)
  then show ?thesis
  proof (elim disjE exE conjE)
    assume "lg_taken lg' = lg_taken lg"
    then show ?thesis using s slot_stutter by (simp add: queue_of_def)
  next
    fix item assume h: "queue_head lg = Some item" "lg_taken lg' = Suc (lg_taken lg)"
    then have "slot_take (queue_of lg) = Some (item, queue_of lg')"
      using s by (auto simp: queue_head_Some queue_of_def simp flip: Cons_nth_drop_Suc)
    then show ?thesis by (rule slot_takes)
  qed
qed

text \<open>
  C6. The logger uses its queue as a slot queue.  Every step of any thread is a step of the slot
  queue of the buffer's capacity on the items between clients and worker: a claim below the capacity,
  the publication of a claimed slot, the removal of the oldest published one, or nothing.  Under
  the policy \<open>Block\<close> no message is ever dropped.
\<close>

theorem logger_refines_slots:
  assumes "logger_reach ops hash lg n st" and "logger_step ops hash st st'"
  shows "slot_step (lg_capacity (sys_logger st)) (queue_of (sys_logger st)) (queue_of (sys_logger st')) \<and>
    length (queue_of (sys_logger st)) \<le> lg_capacity (sys_logger st) \<and>
    (lg_overflow_policy (sys_logger st) = Block \<longrightarrow> lg_dropped (sys_logger st) = 0)"
proof -
  note Q = queue.reach_parts [OF assms(1) TrueI]
  have "length (queue_of (sys_logger st)) \<le> lg_capacity (sys_logger st)"
    using Q(1) by (auto simp: queue_inv_def queue_of_def)
  moreover have "lg_overflow_policy (sys_logger st) = Block \<longrightarrow> lg_dropped (sys_logger st) = 0"
    using Q(1) by (simp add: queue_inv_def)
  moreover have "slot_step (lg_capacity (sys_logger st)) (queue_of (sys_logger st)) (queue_of (sys_logger st'))"
    using assms(2)
  proof cases
    case (client_moves t spurious now pc' lg')
    then show ?thesis using client_slot_step [OF Q(1) Q(2) client_moves(3)] by simp
  next
    case (worker_moves spurious now pc' lg')
    then show ?thesis using worker_slot_step [OF Q(1) worker_moves(2)] by simp
  qed (simp_all add: slot_stutter queue_of_def SetLevel_def SetFlushLevel_def)
  ultimately show ?thesis by blast
qed

end
