(* ===== verification/Logger_History.thy ===== *)
theory Logger_History
  imports Logger_Queue
begin

text \<open>
  What reaches the sink: the messages of the items in the order their slots were claimed, each
  handed over once, and the flushes that follow them.
\<close>

section \<open>Items, calls and messages\<close>

fun logs :: "QueueItem slots \<Rightarrow> LogMessage list" where
  "logs [] = []"
| "logs (None # xs) = logs xs"
| "logs (Some item # xs) = (if is_log item then item_message item # logs xs else logs xs)"

lemma logs_append [simp]: "logs (xs @ ys) = logs xs @ logs ys"
  by (induction xs rule: logs.induct) simp_all

lemma logs_take_Suc: "q < length xs \<Longrightarrow> xs ! q = Some item \<Longrightarrow>
    logs (take (Suc q) xs) = logs (take q xs) @ (if is_log item then [item_message item] else [])"
  by (simp add: take_Suc_conv_app_nth)

lemma run_calls_snoc: "run_calls ops cs s0 = (Inr (), s) \<Longrightarrow> run_calls ops (cs @ [c]) s0 = run_call ops c s"
  by (induction cs arbitrary: s0) (auto split: prod.splits sum.splits)

text \<open>The number of items whose handling has begun, and the exception that has ended the worker's loop.\<close>

definition begun :: "'s AsyncLogger \<Rightarrow> worker_pc \<Rightarrow> nat" where
  "begun lg w = (case in_hand w of None \<Rightarrow> lg_taken lg | Some _ \<Rightarrow> lg_taken lg - 1)"

fun worker_error :: "'s AsyncLogger \<Rightarrow> worker_pc \<Rightarrow> exn option" where
  "worker_error lg (RecordFailure e) = Some e"
| "worker_error lg w = lg_background_failure lg"

fun failing :: "worker_pc \<Rightarrow> bool" where
  "failing FailStopLoad = True"
| "failing (FailStopCas s) = True"
| "failing FailSetFailed = True"
| "failing FailLoadTicket = True"
| "failing (FailStoreTicket t) = True"
| "failing FailNotifyFlushers = True"
| "failing FailSignal = True"
| "failing FailNotify = True"
| "failing _ = False"

fun uncounted :: "worker_pc \<Rightarrow> nat" where
  "uncounted (CountWritten place level) = 1"
| "uncounted _ = 0"

definition history_inv :: "('s \<times> io_world) sink_ops \<Rightarrow> 's \<times> io_world \<Rightarrow> 's AsyncLogger \<Rightarrow> worker_pc \<Rightarrow> bool" where
  "history_inv ops s0 lg w \<longleftrightarrow>
     run_calls ops (hist_calls lg) s0 = (case worker_error lg w of None \<Rightarrow> Inr () | Some e \<Rightarrow> Inl e, lg_sink lg) \<and>
     writes (hist_calls lg) = logs (take (begun lg w) (lg_slots lg)) \<and>
     prefix (hist_written lg) (logs (take (begun lg w) (lg_slots lg))) \<and>
     length (logs (take (begun lg w) (lg_slots lg))) \<le> length (hist_written lg) + (if worker_error lg w = None then 0 else 1) \<and>
     lg_written lg + of_nat (uncounted w) = of_nat (length (hist_written lg)) \<and>
     (lg_background_failure lg \<noteq> None \<longrightarrow> failing w \<or> w = WorkerDone) \<and>
     (failing w \<longrightarrow> lg_background_failure lg \<noteq> None) \<and>
     (lg_failure_message lg = (case lg_background_failure lg of None \<Rightarrow> [] | Some e \<Rightarrow> exn_what e))"

text \<open>A flush of the sink came after all messages among the first \<open>hist_flushed\<close> slots.\<close>

definition flushed_inv :: "('s \<times> io_world) sink_ops \<Rightarrow> 's \<times> io_world \<Rightarrow> 's AsyncLogger \<Rightarrow> bool" where
  "flushed_inv ops s0 lg \<longleftrightarrow> hist_flushed lg \<le> lg_taken lg \<and>
     (0 < hist_flushed lg \<longrightarrow> (\<exists>before after. hist_calls lg = before @ CallFlush # after \<and>
        writes before = logs (take (hist_flushed lg) (lg_slots lg)) \<and> fst (run_calls ops (before @ [CallFlush]) s0) = Inr ()))"

lemma claimed_after: "queue_inv lg w \<Longrightarrow> lg_slots lg ! p = None \<Longrightarrow> lg_taken lg \<le> p"
  by (auto simp: queue_inv_def not_less [symmetric])

lemma slots_before:
  assumes inv: "queue_inv lg w" and ok: "client_queue_ok lg pc" and run: "client_step tid spurious now pc lg = (pc', lg')"
    and k: "k \<le> lg_taken lg"
  shows "take k (lg_slots lg') = take k (lg_slots lg)"
proof -
  have t: "lg_taken lg \<le> length (lg_slots lg)" using inv by (simp add: queue_inv_def)
  from client_step_slots [OF run] show ?thesis
    using ok k t claimed_after [OF inv]
    by (auto simp: queue_claim_def queue_publish_def slot_claim_def slot_publish_def intro!: take_update_cancel le_trans [OF k])
qed

lemma client_step_history:
  "client_step tid spurious now pc lg = (pc', lg') \<Longrightarrow>
     hist_calls lg' = hist_calls lg \<and> hist_written lg' = hist_written lg \<and> hist_flushed lg' = hist_flushed lg \<and>
     lg_sink lg' = lg_sink lg \<and> lg_written lg' = lg_written lg \<and> lg_background_failure lg' = lg_background_failure lg \<and>
     lg_failure_message lg' = lg_failure_message lg \<and> lg_worker_failed lg' = lg_worker_failed lg \<and>
     lg_flush_complete lg' = lg_flush_complete lg \<and> lg_complete_notified lg' = lg_complete_notified lg \<and>
     lg_worker_finished lg' = lg_worker_finished lg"
  by (cases pc) (auto simp: queue_claim_def queue_publish_def Let_def split: if_splits option.splits)

lemma begun_le: "begun lg w \<le> lg_taken lg"
  by (simp add: begun_def split: option.splits)

lemma client_history_inv:
  assumes inv: "queue_inv lg w" and ok: "client_queue_ok lg pc" and run: "client_step tid spurious now pc lg = (pc', lg')"
    and h: "history_inv ops s0 lg w" "flushed_inv ops s0 lg"
  shows "history_inv ops s0 lg' w \<and> flushed_inv ops s0 lg'"
proof -
  note S = slots_before [OF inv ok run] and H = client_step_history [OF run] and Z = step_keeps_sizes [OF run]
  have b: "begun lg' w = begun lg w" using Z by (simp add: begun_def split: option.splits)
  have e: "worker_error lg' w = worker_error lg w" using H by (cases w) simp_all
  have f: "hist_flushed lg \<le> lg_taken lg" using h(2) by (simp add: flushed_inv_def)
  have "history_inv ops s0 lg' w = history_inv ops s0 lg w"
    unfolding history_inv_def e b S [OF begun_le] by (simp only: H)
  moreover have "flushed_inv ops s0 lg'" using h(2) S [OF f] H Z by (simp add: flushed_inv_def)
  ultimately show ?thesis using h(1) by blast
qed

lemma prefix_full: "prefix xs ys \<Longrightarrow> length ys \<le> length xs \<Longrightarrow> xs = ys"
  by (auto elim!: prefixE)

lemma history_clean:
  assumes "history_inv ops s0 lg w" and "worker_error lg w = None"
  shows "run_calls ops (hist_calls lg) s0 = (Inr (), lg_sink lg)" "writes (hist_calls lg) = hist_written lg"
    "hist_written lg = logs (take (begun lg w) (lg_slots lg))"
proof -
  have e: "prefix (hist_written lg) (logs (take (begun lg w) (lg_slots lg)))"
    "length (logs (take (begun lg w) (lg_slots lg))) \<le> length (hist_written lg)"
    "writes (hist_calls lg) = logs (take (begun lg w) (lg_slots lg))"
    using assms by (simp_all add: history_inv_def)
  show "hist_written lg = logs (take (begun lg w) (lg_slots lg))" using prefix_full [OF e(1,2)] .
  then show "writes (hist_calls lg) = hist_written lg" using e(3) by simp
  show "run_calls ops (hist_calls lg) s0 = (Inr (), lg_sink lg)" using assms by (simp add: history_inv_def)
qed

lemma calls_sink_clean:
  assumes h: "history_inv ops s0 lg w" and w: "\<not> failing w" "w \<noteq> WorkerDone" "\<forall>e. w \<noteq> RecordFailure e"
  shows "lg_background_failure lg = None" "worker_error lg w = None"
proof -
  show bf: "lg_background_failure lg = None" using h w by (auto simp: history_inv_def)
  then show "worker_error lg w = None" using w by (cases w) simp_all
qed

text \<open>A step that calls the sink, and one that does not.\<close>

lemma history_call:
  assumes h: "history_inv ops s0 lg w" and clean: "worker_error lg w = None" "lg_background_failure lg = None"
    and call: "run_call ops c (lg_sink lg) = (r, st)"
    and w': "w' = (case r of Inl e \<Rightarrow> RecordFailure e | Inr _ \<Rightarrow> next_pc)"
    and next_pc: "\<not> failing next_pc" "\<forall>e. next_pc \<noteq> RecordFailure e" "uncounted next_pc = length (writes [c])" "uncounted w = 0"
    and lg': "lg' = lg\<lparr>lg_sink := st, hist_calls := hist_calls lg @ [c],
      hist_written := hist_written lg @ (case r of Inl _ \<Rightarrow> [] | Inr _ \<Rightarrow> writes [c]), hist_flushed := f\<rparr>"
    and taken: "logs (take (lg_taken lg) (lg_slots lg)) = logs (take (begun lg w) (lg_slots lg)) @ writes [c]"
    and free: "in_hand next_pc = None"
  shows "history_inv ops s0 lg' w'"
proof -
  note C = history_clean [OF h clean(1)]
  have run: "run_calls ops (hist_calls lg @ [c]) s0 = (r, st)" using run_calls_snoc [OF C(1)] call by simp
  have msg: "lg_failure_message lg = []" "lg_written lg = of_nat (length (hist_written lg))"
    using h clean next_pc(4) by (simp_all add: history_inv_def)
  have len: "length (writes [c]) \<le> 1" by (cases c) simp_all
  show ?thesis
  proof (cases r)
    case (Inl e)
    then show ?thesis
      using run msg taken clean C len unfolding lg' w' history_inv_def by (simp add: begun_def)
  next
    case (Inr u)
    have "worker_error lg' next_pc = None" using clean(2) next_pc(1,2) lg' by (cases next_pc) simp_all
    then show ?thesis
      using Inr run msg taken clean C next_pc free unfolding w' history_inv_def by (simp add: begun_def lg')
  qed
qed

lemma history_quiet:
  assumes h: "history_inv ops s0 lg w"
    and "hist_calls lg' = hist_calls lg" "hist_written lg' = hist_written lg" "lg_sink lg' = lg_sink lg" "lg_slots lg' = lg_slots lg"
    and "begun lg' w' = begun lg w" "worker_error lg' w' = worker_error lg w"
    and "lg_written lg' + of_nat (uncounted w') = lg_written lg + of_nat (uncounted w)"
    and "lg_background_failure lg' \<noteq> None \<longrightarrow> failing w' \<or> w' = WorkerDone" "failing w' \<longrightarrow> lg_background_failure lg' \<noteq> None"
    and "lg_failure_message lg' = (case lg_background_failure lg' of None \<Rightarrow> [] | Some e \<Rightarrow> exn_what e)"
  shows "history_inv ops s0 lg' w'"
  using h assms(9-11) unfolding history_inv_def assms(2-8) by blast

lemma history_failure:
  "history_inv ops s0 lg w \<Longrightarrow> lg_background_failure lg \<noteq> None \<Longrightarrow> failing w \<or> w = WorkerDone"
  "history_inv ops s0 lg w \<Longrightarrow> failing w \<Longrightarrow> lg_background_failure lg \<noteq> None"
  "history_inv ops s0 lg w \<Longrightarrow> lg_failure_message lg = (case lg_background_failure lg of None \<Rightarrow> [] | Some e \<Rightarrow> exn_what e)"
  by (simp_all add: history_inv_def)

fun calls_sink :: "worker_pc \<Rightarrow> bool" where
  "calls_sink (Handle place item) = True"
| "calls_sink FlushRequired = True"
| "calls_sink (CheckDue b) = True"
| "calls_sink RetryFlush = True"
| "calls_sink FinalFlush = True"
| "calls_sink _ = False"

lemma handled_simps [simp]:
  "\<not> failing (handled pl b)" "handled pl b \<noteq> WorkerDone" "handled pl b \<noteq> RecordFailure e" "uncounted (handled pl b) = 0"
  "in_hand (handled pl b) = None" "worker_error lg (handled pl b) = lg_background_failure lg"
  "\<not> failing (after_progress c)" "after_progress c \<noteq> WorkerDone" "after_progress c \<noteq> RecordFailure e" "uncounted (after_progress c) = 0"
  "in_hand (after_progress c) = None" "worker_error lg (after_progress c) = lg_background_failure lg"
  by (cases pl; simp add: after_progress_def)+

lemma worker_history_quiet:
  assumes inv: "queue_inv lg w" and run: "worker_step ops spurious now w lg = (w', lg')" and h: "history_inv ops s0 lg w"
    and quiet: "\<not> calls_sink w"
  shows "history_inv ops s0 lg' w'"
proof -
  note F = history_failure [OF h]
  have "\<forall>e. w = RecordFailure e \<longrightarrow> lg_background_failure lg = None"
    using F(1) by (cases "lg_background_failure lg") auto
  with quiet F show ?thesis
    by (intro history_quiet [OF h]; use run in \<open>cases w; force simp: begun_def split: if_splits option.splits\<close>)
qed

text \<open>The messages begun once the item in hand, if any, has been handed to the sink.\<close>

lemma taken_logs:
  assumes "queue_inv lg w"
  shows "logs (take (lg_taken lg) (lg_slots lg)) = logs (take (begun lg w) (lg_slots lg)) @
    (case in_hand w of None \<Rightarrow> [] | Some item \<Rightarrow> if is_log item then [item_message item] else [])"
proof (cases "in_hand w")
  case (Some item)
  then have t: "0 < lg_taken lg" "lg_slots lg ! (lg_taken lg - 1) = Some item" "lg_taken lg \<le> length (lg_slots lg)"
    using assms unfolding queue_inv_def by blast+
  then have "lg_taken lg - 1 < length (lg_slots lg)" "Suc (lg_taken lg - 1) = lg_taken lg" by simp_all
  with logs_take_Suc [OF this(1) t(2)] Some show ?thesis by (simp add: begun_def)
qed (simp add: begun_def)

lemma flushed_more_calls:
  "flushed_inv ops s0 lg \<Longrightarrow> hist_flushed lg' = hist_flushed lg \<Longrightarrow> lg_slots lg' = lg_slots lg \<Longrightarrow> lg_taken lg \<le> lg_taken lg' \<Longrightarrow>
   hist_calls lg' = hist_calls lg @ cs \<Longrightarrow> flushed_inv ops s0 lg'"
  by (fastforce simp: flushed_inv_def)

lemma flush_history:
  assumes inv: "queue_inv lg w" and h: "history_inv ops s0 lg w" and fl: "flushed_inv ops s0 lg"
    and w: "calls_sink w" "\<And>pl item. w = Handle pl item \<Longrightarrow> \<not> is_log item"
    and run: "flush_sink ops next_pc lg = (w', lg')"
    and next_pc: "\<not> failing next_pc" "\<forall>e. next_pc \<noteq> RecordFailure e" "uncounted next_pc = 0" "in_hand next_pc = None"
  shows "history_inv ops s0 lg' w' \<and> flushed_inv ops s0 lg'"
proof -
  have plain: "\<not> failing w" "w \<noteq> WorkerDone" "\<forall>e. w \<noteq> RecordFailure e" "uncounted w = 0" using w(1) by (cases w; simp)+
  note clean = calls_sink_clean [OF h plain(1-3)]
  note C = history_clean [OF h clean(2)]
  obtain r st where call: "op_flush ops (lg_sink lg) = (r, st)" by (cases "op_flush ops (lg_sink lg)")
  define f where "f = (case r of Inl _ \<Rightarrow> hist_flushed lg | Inr _ \<Rightarrow> lg_taken lg)"
  have tl: "logs (take (lg_taken lg) (lg_slots lg)) = logs (take (begun lg w) (lg_slots lg)) @ writes [CallFlush]"
    using taken_logs [OF inv] w by (cases w) auto
  have w': "w' = (case r of Inl e \<Rightarrow> RecordFailure e | Inr _ \<Rightarrow> next_pc)"
    and lg': "lg' = lg\<lparr>lg_sink := st, hist_calls := hist_calls lg @ [CallFlush],
      hist_written := hist_written lg @ (case r of Inl _ \<Rightarrow> [] | Inr _ \<Rightarrow> writes [CallFlush]), hist_flushed := f\<rparr>"
    using run call by (auto simp: sink_step_defs f_def split: sum.splits)
  have "history_inv ops s0 lg' w'"
    by (rule history_call [OF h clean(2,1) _ w' next_pc(1,2) _ plain(4) lg' tl next_pc(4)]) (simp_all add: call next_pc)
  moreover have "flushed_inv ops s0 lg'"
  proof (cases r)
    case (Inl e)
    then show ?thesis by (intro flushed_more_calls [OF fl, of _ "[CallFlush]"]) (simp_all add: lg' f_def)
  next
    case (Inr u)
    have "fst (run_calls ops (hist_calls lg @ [CallFlush]) s0) = Inr ()" using run_calls_snoc [OF C(1)] call Inr by simp
    moreover have "hist_calls lg @ [CallFlush] = hist_calls lg @ CallFlush # []"
      "writes (hist_calls lg) = logs (take (lg_taken lg) (lg_slots lg))" using C tl by simp_all
    ultimately have "\<exists>before after. hist_calls lg @ [CallFlush] = before @ CallFlush # after \<and>
        writes before = logs (take (lg_taken lg) (lg_slots lg)) \<and> fst (run_calls ops (before @ [CallFlush]) s0) = Inr ()" by blast
    then show ?thesis using Inr lg' by (simp add: flushed_inv_def f_def)
  qed
  ultimately show ?thesis by blast
qed

lemma write_history:
  assumes inv: "queue_inv lg w" and h: "history_inv ops s0 lg w" and fl: "flushed_inv ops s0 lg"
    and w: "w = Handle pl item" "is_log item"
    and run: "write_sink ops (item_message item) now (CountWritten pl level) lg = (w', lg')"
  shows "history_inv ops s0 lg' w' \<and> flushed_inv ops s0 lg'"
proof -
  have plain: "\<not> failing w" "w \<noteq> WorkerDone" "\<forall>e. w \<noteq> RecordFailure e" "uncounted w = 0" using w(1) by simp_all
  note clean = calls_sink_clean [OF h plain(1-3)]
  obtain r st where call: "op_write ops (item_message item) (set_clock now (lg_sink lg)) = (r, st)"
    by (cases "op_write ops (item_message item) (set_clock now (lg_sink lg))")
  let ?c = "CallWrite (item_message item) now"
  have tl: "logs (take (lg_taken lg) (lg_slots lg)) = logs (take (begun lg w) (lg_slots lg)) @ writes [?c]"
    using taken_logs [OF inv] w by simp
  have w': "w' = (case r of Inl e \<Rightarrow> RecordFailure e | Inr _ \<Rightarrow> CountWritten pl level)"
    and lg': "lg' = lg\<lparr>lg_sink := st, hist_calls := hist_calls lg @ [?c],
      hist_written := hist_written lg @ (case r of Inl _ \<Rightarrow> [] | Inr _ \<Rightarrow> writes [?c]), hist_flushed := hist_flushed lg\<rparr>"
    using run call by (auto simp: sink_step_defs split: sum.splits)
  have "history_inv ops s0 lg' w'"
    by (rule history_call [OF h clean(2,1) _ w' _ _ _ plain(4) lg' tl]) (simp_all add: call)
  moreover have "flushed_inv ops s0 lg'"
    by (rule flushed_more_calls [OF fl, of _ "[?c]"]) (simp_all add: lg')
  ultimately show ?thesis by blast
qed

lemma check_history:
  assumes inv: "queue_inv lg w" and h: "history_inv ops s0 lg w" and fl: "flushed_inv ops s0 lg"
    and w: "w = CheckDue b" and run: "check_sink ops now b lg = (w', lg')"
  shows "history_inv ops s0 lg' w' \<and> flushed_inv ops s0 lg'"
proof -
  have plain: "\<not> failing w" "w \<noteq> WorkerDone" "\<forall>e. w \<noteq> RecordFailure e" "uncounted w = 0" using w by simp_all
  note clean = calls_sink_clean [OF h plain(1-3)]
  obtain r0 st where call: "op_due ops now (lg_sink lg) = (r0, st)" by (cases "op_due ops now (lg_sink lg)")
  define r where "r = (case r0 of Inl e \<Rightarrow> Inl e | Inr _ \<Rightarrow> Inr ())"
  define next_pc where "next_pc = (case r0 of Inl e \<Rightarrow> CheckStop b | Inr x \<Rightarrow> CheckStop (x \<or> b))"
  have pc: "\<not> failing next_pc" "\<forall>e. next_pc \<noteq> RecordFailure e" "uncounted next_pc = 0" "in_hand next_pc = None"
    by (simp_all add: next_pc_def split: sum.splits)
  let ?c = "CallFlushIfDue now"
  have tl: "logs (take (lg_taken lg) (lg_slots lg)) = logs (take (begun lg w) (lg_slots lg)) @ writes [?c]"
    using taken_logs [OF inv] w by simp
  have w': "w' = (case r of Inl e \<Rightarrow> RecordFailure e | Inr _ \<Rightarrow> next_pc)"
    and lg': "lg' = lg\<lparr>lg_sink := st, hist_calls := hist_calls lg @ [?c],
      hist_written := hist_written lg @ (case r of Inl _ \<Rightarrow> [] | Inr _ \<Rightarrow> writes [?c]), hist_flushed := hist_flushed lg\<rparr>"
    using run call by (auto simp: sink_step_defs r_def next_pc_def split: sum.splits)
  have "history_inv ops s0 lg' w'"
    by (rule history_call [OF h clean(2,1) _ w' pc(1,2) _ plain(4) lg' tl pc(4)])
      (simp_all add: call r_def pc split: sum.splits)
  moreover have "flushed_inv ops s0 lg'"
    by (rule flushed_more_calls [OF fl, of _ "[?c]"]) (simp_all add: lg')
  ultimately show ?thesis by blast
qed

lemma history_finished: "history_inv ops s0 (lg\<lparr>lg_worker_finished := b\<rparr>) w = history_inv ops s0 lg w"
    "flushed_inv ops s0 (lg\<lparr>lg_worker_finished := b\<rparr>) = flushed_inv ops s0 lg"
proof -
  have "worker_error (lg\<lparr>lg_worker_finished := b\<rparr>) w = worker_error lg w"
    "begun (lg\<lparr>lg_worker_finished := b\<rparr>) w = begun lg w"
    by (cases w; simp) (simp add: begun_def split: option.splits)
  then show "history_inv ops s0 (lg\<lparr>lg_worker_finished := b\<rparr>) w = history_inv ops s0 lg w"
    by (simp add: history_inv_def)
  show "flushed_inv ops s0 (lg\<lparr>lg_worker_finished := b\<rparr>) = flushed_inv ops s0 lg" by (simp add: flushed_inv_def)
qed

lemma worker_history_inv:
  assumes inv: "queue_inv lg w" and run: "worker_step ops spurious now w lg = (w', lg')"
    and h: "history_inv ops s0 lg w" and fl: "flushed_inv ops s0 lg"
  shows "history_inv ops s0 lg' w' \<and> flushed_inv ops s0 lg'"
proof (cases "calls_sink w")
  case False
  have s: "lg_slots lg' = lg_slots lg" using worker_queue_inv [OF inv run] by simp
  have "hist_flushed lg' = hist_flushed lg \<and> hist_calls lg' = hist_calls lg \<and> lg_taken lg \<le> lg_taken lg'"
    using run False by (cases w) (auto split: if_splits option.splits)
  then have "flushed_inv ops s0 lg'" using s by (intro flushed_more_calls [OF fl, of _ "[]"]) simp_all
  then show ?thesis using worker_history_quiet [OF inv run h False] by blast
next
  case True
  show ?thesis
  proof (cases w)
    case (Handle pl item)
    show ?thesis
    proof (cases "is_log item")
      case True
      then show ?thesis using write_history [OF inv h fl Handle] run Handle by simp
    next
      case False
      then show ?thesis using flush_history [OF inv h fl \<open>calls_sink w\<close>] run Handle by simp
    qed
  next
    case (CheckDue b)
    then show ?thesis using check_history [OF inv h fl CheckDue] run by simp
  next
    case FlushRequired
    then show ?thesis using flush_history [OF inv h fl True] run by simp
  next
    case RetryFlush
    then show ?thesis using flush_history [OF inv h fl True] run by simp
  next
    case FinalFlush
    obtain pc lg1 where f: "flush_sink ops WorkerDone lg = (pc, lg1)" by (cases "flush_sink ops WorkerDone lg")
    then have "history_inv ops s0 lg1 pc \<and> flushed_inv ops s0 lg1"
      using flush_history [OF inv h fl True] FinalFlush by simp
    moreover have "lg' = lg1 \<or> lg' = lg1\<lparr>lg_worker_finished := True\<rparr>" "w' = pc"
      using run f FinalFlush by (auto simp: split: worker_pc.splits)
    ultimately show ?thesis using history_finished by fastforce
  qed (use True in simp_all)
qed

lemma history_start: "fresh_logger lg \<Longrightarrow> history_inv ops (lg_sink lg) lg WorkerTop \<and> flushed_inv ops (lg_sink lg) lg"
  by (auto simp: fresh_logger_def AsyncLogger_new_def history_inv_def flushed_inv_def begun_def)

lemma history_levels:
  "history_inv ops s0 (SetLevel l lg) w = history_inv ops s0 lg w" "flushed_inv ops s0 (SetLevel l lg) = flushed_inv ops s0 lg"
  "history_inv ops s0 (SetFlushLevel l lg) w = history_inv ops s0 lg w" "flushed_inv ops s0 (SetFlushLevel l lg) = flushed_inv ops s0 lg"
proof -
  have "worker_error (SetLevel l lg) w = worker_error lg w" "worker_error (SetFlushLevel l lg) w = worker_error lg w"
    "begun (SetLevel l lg) w = begun lg w" "begun (SetFlushLevel l lg) w = begun lg w"
    by (cases w; simp add: SetLevel_def SetFlushLevel_def begun_def)+
  then show "history_inv ops s0 (SetLevel l lg) w = history_inv ops s0 lg w"
    "history_inv ops s0 (SetFlushLevel l lg) w = history_inv ops s0 lg w"
    by (simp_all add: history_inv_def) (simp_all add: SetLevel_def SetFlushLevel_def)
qed (simp_all add: flushed_inv_def SetLevel_def SetFlushLevel_def)

interpretation history: logger_invariant ops hash lg n "\<lambda>_. True" "\<lambda>lg' w pc. queue_inv lg' w \<and> client_queue_ok lg' pc"
  "\<lambda>lg' w. history_inv ops (lg_sink lg) lg' w \<and> flushed_inv ops (lg_sink lg) lg'" "\<lambda>_ _ _. True" "\<lambda>_ _. True"
  for ops hash lg n
proof (unfold_locales; (intro TrueI conjI)?)
  show "queue_inv (sys_logger st) (sys_worker st)" "client_queue_ok (sys_logger st) pc"
    if "logger_reach ops hash lg n st" "pc \<in> insert ClientIdle (set (sys_clients st))" for st pc
    using queue.reach_parts [OF that(1) TrueI] that(2) by blast+
qed (auto simp: history_start history_levels dest: client_history_inv worker_history_inv)

section \<open>In order, once, and flushed\<close>

lemma handed_over:
  assumes "logger_reach ops hash lg n st"
  shows "\<exists>k. k \<le> lg_taken (sys_logger st) \<and> lg_taken (sys_logger st) \<le> Suc k \<and> lg_taken (sys_logger st) \<le> length (lg_slots (sys_logger st)) \<and>
    writes (hist_calls (sys_logger st)) = logs (take k (lg_slots (sys_logger st)))"
proof -
  have "queue_inv (sys_logger st) (sys_worker st)" using queue.reach_parts [OF assms TrueI] by blast
  moreover have "history_inv ops (lg_sink lg) (sys_logger st) (sys_worker st)" using history.reach_parts [OF assms TrueI] by blast
  ultimately show ?thesis using begun_le [of "sys_logger st" "sys_worker st"]
    by (intro exI [of _ "begun (sys_logger st) (sys_worker st)"]) (auto simp: history_inv_def begun_def queue_inv_def split: option.splits)
qed

text \<open>
  C2. In order and exactly once.  In every reachable state the messages handed to the sink are the
  messages of the oldest slots, in the order the slots were claimed, without gap or repetition, up
  to the item the worker has just taken.  Unless the sink has thrown, every write has returned, the
  sink is in the state these calls leave it in, and \<open>written_\<close> counts the messages; if it has
  thrown, the last message at most was not written.
\<close>

theorem logger_fifo:
  assumes "logger_reach ops hash lg n st"
  shows "\<exists>k. k \<le> lg_taken (sys_logger st) \<and> lg_taken (sys_logger st) \<le> Suc k \<and> lg_taken (sys_logger st) \<le> length (lg_slots (sys_logger st)) \<and>
    writes (hist_calls (sys_logger st)) = logs (take k (lg_slots (sys_logger st))) \<and>
    prefix (hist_written (sys_logger st)) (logs (take k (lg_slots (sys_logger st)))) \<and>
    (case worker_error (sys_logger st) (sys_worker st) of
       None \<Rightarrow> run_calls ops (hist_calls (sys_logger st)) (lg_sink lg) = (Inr (), lg_sink (sys_logger st)) \<and>
         hist_written (sys_logger st) = logs (take k (lg_slots (sys_logger st))) \<and>
         (uncounted (sys_worker st) = 0 \<longrightarrow> lg_written (sys_logger st) = of_nat (length (hist_written (sys_logger st))))
     | Some e \<Rightarrow> run_calls ops (hist_calls (sys_logger st)) (lg_sink lg) = (Inl e, lg_sink (sys_logger st)) \<and>
         length (writes (hist_calls (sys_logger st))) \<le> Suc (length (hist_written (sys_logger st))))"
proof -
  have Q: "queue_inv (sys_logger st) (sys_worker st)" using queue.reach_parts [OF assms TrueI] by blast
  have H: "history_inv ops (lg_sink lg) (sys_logger st) (sys_worker st)" using history.reach_parts [OF assms TrueI] by blast
  let ?k = "begun (sys_logger st) (sys_worker st)"
  have "lg_taken (sys_logger st) \<le> Suc ?k" "lg_taken (sys_logger st) \<le> length (lg_slots (sys_logger st))"
    using Q by (auto simp: begun_def queue_inv_def split: option.splits)
  moreover have "worker_error (sys_logger st) (sys_worker st) = None \<Longrightarrow> hist_written (sys_logger st) = logs (take ?k (lg_slots (sys_logger st)))"
    using history_clean [OF H] by blast
  ultimately show ?thesis
    using H begun_le [of "sys_logger st" "sys_worker st"] by (intro exI [of _ ?k]) (auto simp: history_inv_def split: option.splits)
qed

end
