(* ===== verification/Logger_Flush.thy ===== *)
theory Logger_Flush
  imports Logger_History
begin

text \<open>
  \<open>Flush\<close>: tickets are drawn in order, travel through the queue and come back as completed; whoever
  sees a completed ticket that is not smaller than its own may return.
\<close>

section \<open>Tickets\<close>

text \<open>The number of slots claimed when the ticket was drawn.\<close>

definition ticket_at :: "'s AsyncLogger \<Rightarrow> u64 \<Rightarrow> nat" where
  "ticket_at lg t = hist_tickets lg ! (unat t - 1)"

definition valid_ticket :: "'s AsyncLogger \<Rightarrow> u64 \<Rightarrow> bool" where
  "valid_ticket lg t \<longleftrightarrow> 1 \<le> unat t \<and> unat t \<le> length (hist_tickets lg)"

text \<open>All slots claimed before the ticket was drawn have been handled and flushed.\<close>

definition covered :: "'s AsyncLogger \<Rightarrow> u64 \<Rightarrow> bool" where
  "covered lg t \<longleftrightarrow> t = 0 \<or> (valid_ticket lg t \<and> ticket_at lg t < hist_flushed lg)"

definition item_tick :: "QueueItem \<Rightarrow> u64 option" where
  "item_tick item = (if is_log item then None else Some (item_ticket item))"

fun pc_ticket :: "client_pc \<Rightarrow> u64 option" where
  "pc_ticket (PubCount c item b) = item_tick item"
| "pc_ticket (PubCheckFailed c item b) = item_tick item"
| "pc_ticket (PubTry c item b) = item_tick item"
| "pc_ticket (PubWrite c item p) = item_tick item"
| "pc_ticket (PubSignal c item) = item_tick item"
| "pc_ticket (PubNotify c item) = item_tick item"
| "pc_ticket (FlushLoad t) = Some t"
| "pc_ticket (FlushLoopFailed t c) = Some t"
| "pc_ticket (FlushWait t c) = Some t"
| "pc_ticket (FlushBlocked t c g) = Some t"
| "pc_ticket (FlushLast t) = Some t"
| "pc_ticket _ = None"

text \<open>Between the store of a completed ticket and its notification.\<close>

fun notifying :: "worker_pc \<Rightarrow> bool" where
  "notifying (NotifyFlushers pl) = True"
| "notifying FailNotifyFlushers = True"
| "notifying _ = False"

definition flush_inv :: "'s AsyncLogger \<Rightarrow> worker_pc \<Rightarrow> bool" where
  "flush_inv lg w \<longleftrightarrow> lg_flush_request lg = of_nat (length (hist_tickets lg)) \<and> sorted (hist_tickets lg) \<and>
     (\<forall>m \<in> set (hist_tickets lg). m \<le> length (lg_slots lg)) \<and>
     (\<forall>p item t. p < length (lg_slots lg) \<longrightarrow> lg_slots lg ! p = Some item \<longrightarrow> item_tick item = Some t \<longrightarrow>
        valid_ticket lg t \<and> ticket_at lg t \<le> p) \<and>
     (\<not> lg_worker_failed lg \<longrightarrow> covered lg (lg_flush_complete lg)) \<and>
     (\<forall>pl t. w = StoreTicket pl t \<longrightarrow> covered lg t) \<and>
     (w = FailLoadTicket \<or> (\<exists>t. w = FailStoreTicket t) \<longrightarrow> lg_worker_failed lg)"

definition client_flush_ok :: "'s AsyncLogger \<Rightarrow> worker_pc \<Rightarrow> client_pc \<Rightarrow> bool" where
  "client_flush_ok lg w pc \<longleftrightarrow> (\<forall>t. pc_ticket pc = Some t \<longrightarrow> valid_ticket lg t) \<and>
     (\<forall>c item p t. pc = PubWrite c item p \<longrightarrow> item_tick item = Some t \<longrightarrow> ticket_at lg t \<le> p) \<and>
     (\<forall>t. pc = FlushLast t \<longrightarrow> lg_worker_failed lg \<or> covered lg t) \<and>
     (\<forall>t c g. pc = FlushLoopFailed t c \<or> pc = FlushWait t c \<or> pc = FlushBlocked t c g \<longrightarrow> c < t) \<and>
     (\<forall>t c g. pc = FlushBlocked t c g \<longrightarrow> g \<le> lg_complete_notified lg \<and>
        (g = lg_complete_notified lg \<longrightarrow> c = lg_flush_complete lg \<or> notifying w))"

lemma ticket_grows:
  assumes "hist_tickets lg' = hist_tickets lg @ ms"
  shows "valid_ticket lg t \<Longrightarrow> valid_ticket lg' t" "valid_ticket lg t \<Longrightarrow> ticket_at lg' t = ticket_at lg t"
    "covered lg t \<Longrightarrow> hist_flushed lg \<le> hist_flushed lg' \<Longrightarrow> covered lg' t"
  using assms by (auto simp: valid_ticket_def ticket_at_def covered_def nth_append)

lemma valid_at: "flush_inv lg w \<Longrightarrow> valid_ticket lg t \<Longrightarrow> ticket_at lg t \<le> length (lg_slots lg)"
proof -
  assume inv: "flush_inv lg w" and v: "valid_ticket lg t"
  then have "ticket_at lg t \<in> set (hist_tickets lg)" by (auto simp: valid_ticket_def ticket_at_def)
  then show ?thesis using inv by (simp add: flush_inv_def)
qed

lemma covered_below:
  assumes inv: "flush_inv lg w" and c: "covered lg c" "t \<le> c" and v: "valid_ticket lg t"
  shows "covered lg t"
proof -
  have le: "unat t \<le> unat c" using c(2) by (simp add: word_le_nat_alt)
  then have "c \<noteq> 0" using v by (auto simp: valid_ticket_def)
  then have vc: "valid_ticket lg c" "ticket_at lg c < hist_flushed lg" using c(1) by (auto simp: covered_def)
  then have "ticket_at lg t \<le> ticket_at lg c"
    using inv v le unfolding ticket_at_def by (intro sorted_nth_mono) (auto simp: flush_inv_def valid_ticket_def)
  then show ?thesis using v vc by (simp add: covered_def)
qed

text \<open>A client step draws a ticket or leaves the tickets alone.\<close>

lemma client_step_tickets:
  assumes "client_step tid spurious now pc lg = (pc', lg')"
  shows "(hist_tickets lg' = hist_tickets lg \<and> lg_flush_request lg' = lg_flush_request lg) \<or>
    (pc = FlushDrawTicket \<and> pc' = PubCount FlushCall (flush_item (lg_flush_request lg + 1)) True \<and>
     lg' = lg\<lparr>lg_flush_request := lg_flush_request lg + 1, hist_tickets := hist_tickets lg @ [length (lg_slots lg)]\<rparr>)"
  using assms by (cases pc) (auto simp: queue_claim_def queue_publish_def Let_def split: if_splits option.splits)

lemma covered_same:
  "hist_tickets lg' = hist_tickets lg \<Longrightarrow> valid_ticket lg' = valid_ticket lg"
  "hist_tickets lg' = hist_tickets lg \<Longrightarrow> ticket_at lg' = ticket_at lg"
  "hist_tickets lg' = hist_tickets lg \<Longrightarrow> hist_flushed lg' = hist_flushed lg \<Longrightarrow> covered lg' = covered lg"
  by (simp_all add: valid_ticket_def ticket_at_def covered_def fun_eq_iff)

text \<open>The slots after a client step hold what they held, and perhaps the item the client published.\<close>

lemma slots_after:
  assumes run: "client_step tid spurious now pc lg = (pc', lg')" and s: "p < length (lg_slots lg')" "lg_slots lg' ! p = Some item"
  shows "(p < length (lg_slots lg) \<and> lg_slots lg ! p = Some item) \<or> (\<exists>c. pc = PubWrite c item p)"
  using client_step_slots [OF run] s
  by (auto simp: queue_claim_def queue_publish_def slot_claim_def slot_publish_def nth_append split: if_splits)
    (metis nth_list_update_eq nth_list_update_neq option.inject)

lemma slots_not_fewer: "client_step tid spurious now pc lg = (pc', lg') \<Longrightarrow> length (lg_slots lg) \<le> length (lg_slots lg')"
  by (drule client_step_slots) (auto simp: queue_claim_def queue_publish_def)

lemma draw_ticket_inv:
  assumes b: "length (hist_tickets lg) + 1 < 2 ^ 64" and inv: "flush_inv lg w"
    and lg': "lg' = lg\<lparr>lg_flush_request := lg_flush_request lg + 1, hist_tickets := hist_tickets lg @ [length (lg_slots lg)]\<rparr>"
  shows "flush_inv lg' w" "valid_ticket lg' (lg_flush_request lg + 1)"
proof -
  have ts: "hist_tickets lg' = hist_tickets lg @ [length (lg_slots lg)]" using lg' by simp
  have r: "lg_flush_request lg + 1 = of_nat (Suc (length (hist_tickets lg)))" using inv by (simp add: flush_inv_def)
  have "unat (of_nat (Suc (length (hist_tickets lg))) :: u64) = Suc (length (hist_tickets lg))"
    using b by (intro unat_of_nat_fits) simp
  then show "valid_ticket lg' (lg_flush_request lg + 1)" unfolding r valid_ticket_def ts by simp
  have "sorted (hist_tickets lg')" using inv by (simp add: flush_inv_def ts sorted_append)
  moreover have "valid_ticket lg' t" "ticket_at lg' t = ticket_at lg t" if "valid_ticket lg t" for t
    using ticket_grows(1,2) [OF ts] that by blast+
  moreover have "covered lg' t" if "covered lg t" for t using ticket_grows(3) [OF ts that] lg' by simp
  ultimately show "flush_inv lg' w"
    using inv r unfolding flush_inv_def by (simp add: lg')
qed

text \<open>Where the points of \<open>Flush\<close> are entered from.\<close>

lemma entered_from:
  assumes run: "client_step tid spurious now pc lg = (pc', lg')"
  shows "client_queue_ok lg pc \<Longrightarrow> pc \<noteq> FlushDrawTicket \<Longrightarrow> pc_ticket pc' = Some t \<Longrightarrow> pc_ticket pc = Some t"
    and "pc' = PubWrite c item p \<Longrightarrow> p = length (lg_slots lg) \<and> (\<exists>b. pc = PubTry c item b)"
    and "pc' = FlushLast t \<Longrightarrow> pc = FlushLoad t \<and> t \<le> lg_flush_complete lg"
    and "pc' = FlushLoopFailed t k \<Longrightarrow> pc = FlushLoad t \<and> k < t"
    and "pc' = FlushWait t k \<Longrightarrow> pc = FlushLoopFailed t k \<or> (\<exists>g. pc = FlushBlocked t k g)"
    and "pc' = FlushBlocked t k g \<Longrightarrow> pc = FlushBlocked t k g \<or>
      (pc = FlushWait t k \<and> g = lg_complete_notified lg \<and> k = lg_flush_complete lg)"
proof -
  have pub: "published d item' = (if d = FlushCall then FlushLoad (item_ticket item') else FinishOp d True)" for d item'
    by (cases d) simp_all
  have sta: "pc_ticket (started d) = None" "started d \<noteq> FlushLast x" "started d \<noteq> PubWrite d' i q" "started d \<noteq> FlushLoopFailed x y"
    "started d \<noteq> FlushWait x y" "started d \<noteq> FlushBlocked x y z" for d x d' i q y z by (cases d; simp)+
  show "client_queue_ok lg pc \<Longrightarrow> pc \<noteq> FlushDrawTicket \<Longrightarrow> pc_ticket pc' = Some t \<Longrightarrow> pc_ticket pc = Some t"
    using run by (cases pc) (auto simp: pub sta Let_def item_tick_def fits_def log_item_def is_log_def split: if_splits option.splits)
  show "pc' = PubWrite c item p \<Longrightarrow> p = length (lg_slots lg) \<and> (\<exists>b. pc = PubTry c item b)"
    using run by (cases pc) (auto simp: pub sta Let_def split: if_splits option.splits)
  show "pc' = FlushLast t \<Longrightarrow> pc = FlushLoad t \<and> t \<le> lg_flush_complete lg"
    using run by (cases pc) (auto simp: pub sta Let_def split: if_splits option.splits)
  show "pc' = FlushLoopFailed t k \<Longrightarrow> pc = FlushLoad t \<and> k < t"
    using run by (cases pc) (auto simp: pub sta Let_def split: if_splits option.splits)
  show "pc' = FlushWait t k \<Longrightarrow> pc = FlushLoopFailed t k \<or> (\<exists>g. pc = FlushBlocked t k g)"
    using run by (cases pc) (auto simp: pub sta Let_def split: if_splits option.splits)
  show "pc' = FlushBlocked t k g \<Longrightarrow> pc = FlushBlocked t k g \<or>
      (pc = FlushWait t k \<and> g = lg_complete_notified lg \<and> k = lg_flush_complete lg)"
    using run by (cases pc) (auto simp: pub sta Let_def split: if_splits option.splits)
qed

lemma client_flush_inv:
  assumes q: "queue_inv lg w" "client_queue_ok lg pc" and b: "length (hist_tickets lg') < 2 ^ 64"
    and inv: "flush_inv lg w" and ok: "client_flush_ok lg w pc" and run: "client_step tid spurious now pc lg = (pc', lg')"
  shows "flush_inv lg' w \<and> client_flush_ok lg' w pc'"
proof (cases "pc = FlushDrawTicket")
  case True
  then have lg': "lg' = lg\<lparr>lg_flush_request := lg_flush_request lg + 1, hist_tickets := hist_tickets lg @ [length (lg_slots lg)]\<rparr>"
    and pc': "pc' = PubCount FlushCall (flush_item (lg_flush_request lg + 1)) True"
    using run by (auto simp: Let_def)
  have b': "length (hist_tickets lg) + 1 < 2 ^ 64" using b lg' by simp
  show ?thesis
    using draw_ticket_inv [OF b' inv lg'] pc'
    by (simp add: client_flush_ok_def item_tick_def flush_item_def is_log_def default_item_def)
next
  case False
  then have t: "hist_tickets lg' = hist_tickets lg" "lg_flush_request lg' = lg_flush_request lg"
    using client_step_tickets [OF run] by auto
  note H = client_step_history [OF run] and E = entered_from [OF run]
  have same: "valid_ticket lg' = valid_ticket lg" "ticket_at lg' = ticket_at lg" "covered lg' = covered lg"
    using covered_same [OF t(1)] H by simp_all
  have slots: "valid_ticket lg t \<and> ticket_at lg t \<le> p"
    if "p < length (lg_slots lg')" "lg_slots lg' ! p = Some item" "item_tick item = Some t" for p item t
    using slots_after [OF run that(1,2)] inv ok that(3) by (auto simp: flush_inv_def client_flush_ok_def)
  have "flush_inv lg' w"
    using inv slots slots_not_fewer [OF run] unfolding flush_inv_def t same by (auto simp: H intro: le_trans)
  moreover have "client_flush_ok lg' w pc'"
  proof -
    have v: "valid_ticket lg x" if "pc_ticket pc' = Some x" for x
      using E(1) [OF q(2) False that] ok by (simp add: client_flush_ok_def)
    have "ticket_at lg x \<le> p" if "pc' = PubWrite c item p" "item_tick item = Some x" for c item p x
      using E(2) [OF that(1)] valid_at [OF inv v] that by simp
    moreover have "lg_worker_failed lg \<or> covered lg x" if "pc' = FlushLast x" for x
      using E(3) [OF that] covered_below [OF inv] v inv that by (auto simp: flush_inv_def)
    moreover have "k < x" if "pc' = FlushLoopFailed x k \<or> pc' = FlushWait x k \<or> pc' = FlushBlocked x k g" for x k g
      using that E(4-6) ok by (auto simp: client_flush_ok_def)
    moreover have "g \<le> lg_complete_notified lg \<and> (g = lg_complete_notified lg \<longrightarrow> k = lg_flush_complete lg \<or> notifying w)"
      if "pc' = FlushBlocked x k g" for x k g
      using E(6) [OF that] ok by (auto simp: client_flush_ok_def)
    ultimately show ?thesis using v unfolding client_flush_ok_def same by (simp add: H)
  qed
  ultimately show ?thesis by blast
qed

lemma client_flush_other:
  assumes ok: "client_flush_ok lg w qc" and run: "client_step tid spurious now pc lg = (pc', lg')"
  shows "client_flush_ok lg' w qc"
proof -
  note H = client_step_history [OF run]
  obtain ms where t: "hist_tickets lg' = hist_tickets lg @ ms" using client_step_tickets [OF run] by auto
  note G = ticket_grows [OF t]
  have v: "\<And>t. pc_ticket qc = Some t \<Longrightarrow> valid_ticket lg t" using ok by (simp add: client_flush_ok_def)
  have "ticket_at lg' x = ticket_at lg x" if "pc_ticket qc = Some x" for x using G(2) v that by blast
  then show ?thesis
    using ok G H unfolding client_flush_ok_def by simp blast
qed

lemma worker_step_tickets:
  assumes run: "worker_step ops spurious now w lg = (w', lg')"
  shows "hist_tickets lg' = hist_tickets lg \<and> lg_flush_request lg' = lg_flush_request lg"
    and "hist_flushed lg' = hist_flushed lg \<or> (calls_sink w \<and> hist_flushed lg' = lg_taken lg)"
    and "lg_worker_failed lg \<longrightarrow> lg_worker_failed lg'"
    and "lg_flush_complete lg' = lg_flush_complete lg \<or> (\<exists>pl. w = StoreTicket pl (lg_flush_complete lg')) \<or>
      w = FailStoreTicket (lg_flush_complete lg')"
    and "w' = StoreTicket pl t \<Longrightarrow> \<exists>item. w = Handle pl item \<and> item_tick item = Some t \<and> hist_flushed lg' = lg_taken lg"
    and "w' = FailLoadTicket \<or> (\<exists>t. w' = FailStoreTicket t) \<Longrightarrow> w = FailLoadTicket \<or> lg_worker_failed lg'"
    and "lg_complete_notified lg' = (if notifying w then Suc (lg_complete_notified lg) else lg_complete_notified lg)"
    and "(\<exists>pl t. w = StoreTicket pl t) \<or> (\<exists>t. w = FailStoreTicket t) \<Longrightarrow> notifying w'"
proof -
  have ne: "handled pl b \<noteq> StoreTicket pl' t'" "handled pl b \<noteq> FailLoadTicket" "handled pl b \<noteq> FailStoreTicket t'"
    "after_progress b \<noteq> StoreTicket pl' t'" "after_progress b \<noteq> FailLoadTicket" "after_progress b \<noteq> FailStoreTicket t'"
    for pl b pl' t' by (cases pl; simp add: after_progress_def)+
  note S = sink_step_defs
  show "hist_tickets lg' = hist_tickets lg \<and> lg_flush_request lg' = lg_flush_request lg"
    "hist_flushed lg' = hist_flushed lg \<or> (calls_sink w \<and> hist_flushed lg' = lg_taken lg)"
    "lg_worker_failed lg \<longrightarrow> lg_worker_failed lg'"
    "lg_flush_complete lg' = lg_flush_complete lg \<or> (\<exists>pl. w = StoreTicket pl (lg_flush_complete lg')) \<or>
      w = FailStoreTicket (lg_flush_complete lg')"
    "lg_complete_notified lg' = (if notifying w then Suc (lg_complete_notified lg) else lg_complete_notified lg)"
    using run by (cases w; auto simp: S split: if_splits option.splits prod.splits sum.splits)+
  show "w' = StoreTicket pl t \<Longrightarrow> \<exists>item. w = Handle pl item \<and> item_tick item = Some t \<and> hist_flushed lg' = lg_taken lg"
    using run by (cases w) (auto simp: S ne item_tick_def split: if_splits option.splits prod.splits sum.splits)
  show "w' = FailLoadTicket \<or> (\<exists>t. w' = FailStoreTicket t) \<Longrightarrow> w = FailLoadTicket \<or> lg_worker_failed lg'"
    using run by (cases w) (auto simp: S ne split: if_splits option.splits prod.splits sum.splits)
  show "(\<exists>pl t. w = StoreTicket pl t) \<or> (\<exists>t. w = FailStoreTicket t) \<Longrightarrow> notifying w'"
    using run by auto
qed

lemma worker_flush_inv:
  assumes q: "queue_inv lg w" and fl: "hist_flushed lg \<le> lg_taken lg" and inv: "flush_inv lg w"
    and run: "worker_step ops spurious now w lg = (w', lg')"
  shows "flush_inv lg' w'"
proof -
  note W = worker_step_tickets [OF run]
  have slots: "lg_slots lg' = lg_slots lg" using worker_queue_inv [OF q run] by simp
  have t: "hist_tickets lg' = hist_tickets lg @ []" using W(1) by simp
  have more: "hist_flushed lg \<le> hist_flushed lg'" using W(2) fl by auto
  have same: "valid_ticket lg' = valid_ticket lg" "ticket_at lg' = ticket_at lg" using covered_same [of lg' lg] W(1) by simp_all
  have cov: "covered lg' x" if "covered lg x" for x using ticket_grows(3) [OF t that more] .
  have fail: "w = FailLoadTicket \<or> (\<exists>x. w = FailStoreTicket x) \<Longrightarrow> lg_worker_failed lg" using inv by (simp add: flush_inv_def)
  have "covered lg' (lg_flush_complete lg')" if "\<not> lg_worker_failed lg'"
    using W(3,4) that inv cov fail by (auto simp: flush_inv_def)
  moreover have "covered lg' x" if st: "w' = StoreTicket pl x" for pl x
  proof -
    obtain item where i: "w = Handle pl item" "item_tick item = Some x" "hist_flushed lg' = lg_taken lg" using W(5) [OF st] by blast
    then have h: "0 < lg_taken lg" "lg_slots lg ! (lg_taken lg - 1) = Some item" "lg_taken lg \<le> length (lg_slots lg)"
      using q unfolding queue_inv_def by auto
    moreover have "lg_taken lg - 1 < length (lg_slots lg)" using h by simp
    ultimately have "valid_ticket lg x \<and> ticket_at lg x \<le> lg_taken lg - 1" using inv i(2) unfolding flush_inv_def by blast
    then show ?thesis using h(1) i(3) by (simp add: covered_def same) linarith
  qed
  moreover have "lg_worker_failed lg'" if "w' = FailLoadTicket \<or> (\<exists>x. w' = FailStoreTicket x)"
    using W(3,6) that fail by blast
  ultimately show ?thesis using inv W(1) unfolding flush_inv_def slots same by simp
qed

lemma worker_flush_other:
  assumes q: "queue_inv lg w" and fl: "hist_flushed lg \<le> lg_taken lg" and inv: "client_flush_ok lg w qc"
    and run: "worker_step ops spurious now w lg = (w', lg')"
  shows "client_flush_ok lg' w' qc"
proof -
  note W = worker_step_tickets [OF run]
  have t: "hist_tickets lg' = hist_tickets lg @ []" using W(1) by simp
  have more: "hist_flushed lg \<le> hist_flushed lg'" using W(2) fl by auto
  have same: "valid_ticket lg' = valid_ticket lg" "ticket_at lg' = ticket_at lg" using covered_same [of lg' lg] W(1) by simp_all
  have cov: "covered lg' x" if "covered lg x" for x using ticket_grows(3) [OF t that more] .
  have "g \<le> lg_complete_notified lg' \<and> (g = lg_complete_notified lg' \<longrightarrow> c = lg_flush_complete lg' \<or> notifying w')"
    if "qc = FlushBlocked x c g" for x c g
    using inv that W(4,7,8) unfolding client_flush_ok_def by (auto split: if_splits)
  then show ?thesis
    using inv cov W(3) unfolding client_flush_ok_def same by simp blast
qed

lemma few_tickets_back: "logger_step ops hash st st' \<Longrightarrow> length (hist_tickets (sys_logger st')) < 2 ^ 64 \<Longrightarrow>
    length (hist_tickets (sys_logger st)) < 2 ^ 64"
proof (induction rule: logger_step.induct)
  case (client_moves t st spurious now pc' lg')
  then show ?case using client_step_tickets [OF client_moves(2)] by auto
next
  case (worker_moves spurious now st pc' lg')
  then show ?case using worker_step_tickets(1) [OF worker_moves(1)] by simp
qed (simp_all add: SetLevel_def SetFlushLevel_def)

lemma flush_levels:
  "flush_inv (SetLevel l lg) w = flush_inv lg w" "client_flush_ok (SetLevel l lg) w pc = client_flush_ok lg w pc"
  "flush_inv (SetFlushLevel l lg) w = flush_inv lg w" "client_flush_ok (SetFlushLevel l lg) w pc = client_flush_ok lg w pc"
proof -
  have "valid_ticket (SetLevel l lg) = valid_ticket lg" "ticket_at (SetLevel l lg) = ticket_at lg" "covered (SetLevel l lg) = covered lg"
    "valid_ticket (SetFlushLevel l lg) = valid_ticket lg" "ticket_at (SetFlushLevel l lg) = ticket_at lg"
    "covered (SetFlushLevel l lg) = covered lg"
    by (simp_all add: SetLevel_def SetFlushLevel_def valid_ticket_def ticket_at_def covered_def fun_eq_iff)
  note E = this
  show "flush_inv (SetLevel l lg) w = flush_inv lg w" "client_flush_ok (SetLevel l lg) w pc = client_flush_ok lg w pc"
    "flush_inv (SetFlushLevel l lg) w = flush_inv lg w" "client_flush_ok (SetFlushLevel l lg) w pc = client_flush_ok lg w pc"
    unfolding flush_inv_def client_flush_ok_def E by (simp_all add: SetLevel_def SetFlushLevel_def)
qed

lemma flush_start: "fresh_logger lg \<Longrightarrow> flush_inv lg WorkerTop"
  by (auto simp: fresh_logger_def AsyncLogger_new_def flush_inv_def covered_def)

lemma flush_outside: "\<not> inside pc \<Longrightarrow> client_flush_ok lg w pc"
  by (cases pc) (simp_all add: client_flush_ok_def)

interpretation flush: logger_invariant ops hash lg n "\<lambda>lg'. length (hist_tickets lg') < 2 ^ 64"
  "\<lambda>lg' w pc. queue_inv lg' w \<and> client_queue_ok lg' pc \<and> hist_flushed lg' \<le> lg_taken lg'"
  flush_inv client_flush_ok "\<lambda>_ _. True"
  for ops hash lg n
proof (unfold_locales; (intro TrueI conjI)?)
  fix st pc
  assume r: "logger_reach ops hash lg n st" and p: "pc \<in> insert ClientIdle (set (sys_clients st))"
  show "queue_inv (sys_logger st) (sys_worker st)" "client_queue_ok (sys_logger st) pc"
    using queue.reach_parts [OF r TrueI] p by blast+
  show "hist_flushed (sys_logger st) \<le> lg_taken (sys_logger st)"
    using history.reach_parts(1) [OF r TrueI] by (simp add: flushed_inv_def)
qed (auto simp: flush_levels flush_start flush_outside
  dest: few_tickets_back client_flush_inv client_flush_other worker_flush_inv worker_flush_other)

text \<open>
  C3. What \<open>Flush\<close> promises.  When a call of \<open>Flush\<close> is about to return true, every message whose
  slot had been claimed when the call drew its ticket has been written to the sink, in order, and a
  flush of the sink that came after these writes has returned without an exception.
\<close>

theorem logger_flush_covers:
  assumes "logger_reach ops hash lg n st" and "length (hist_tickets (sys_logger st)) < 2 ^ 64"
    and "t < length (sys_clients st)" and "sys_clients st ! t = FlushLast ticket" and "\<not> HasWorkerFailure (sys_logger st)"
  shows "\<exists>before after.
    hist_calls (sys_logger st) = before @ CallFlush # after \<and>
    prefix (logs (take (hist_tickets (sys_logger st) ! (unat ticket - 1)) (lg_slots (sys_logger st)))) (writes before) \<and>
    fst (run_calls ops (before @ [CallFlush]) (lg_sink lg)) = Inr ()"
proof -
  let ?l = "sys_logger st"
  have F: "client_flush_ok ?l (sys_worker st) (FlushLast ticket)" using flush.reach_parts(2) [OF assms(1-3)] assms(4) by simp
  then have v: "valid_ticket ?l ticket" and c: "covered ?l ticket"
    using assms(5) by (auto simp: client_flush_ok_def HasWorkerFailure_def)
  then have at: "ticket_at ?l ticket < hist_flushed ?l" by (auto simp: covered_def valid_ticket_def)
  have "flushed_inv ops (lg_sink lg) ?l" using history.reach_parts(1) [OF assms(1) TrueI] by blast
  then obtain before after where c: "hist_calls ?l = before @ CallFlush # after"
    "writes before = logs (take (hist_flushed ?l) (lg_slots ?l))" "fst (run_calls ops (before @ [CallFlush]) (lg_sink lg)) = Inr ()"
    using at by (auto simp: flushed_inv_def)
  have "take (hist_flushed ?l) (lg_slots ?l) = take (ticket_at ?l ticket) (lg_slots ?l) @
      take (hist_flushed ?l - ticket_at ?l ticket) (drop (ticket_at ?l ticket) (lg_slots ?l))"
    using at by (simp flip: take_add)
  then have "prefix (logs (take (ticket_at ?l ticket) (lg_slots ?l))) (writes before)" using c(2) by simp
  with c(1,3) show ?thesis unfolding ticket_at_def by blast
qed

end
