(* ===== verification/Logger_Failure.thy ===== *)
theory Logger_Failure
  imports Logger_Flush
begin

text \<open>
  The end of the worker: an exception from the sink closes the gate, is recorded and sets free
  whoever waits in \<open>Flush\<close>; without one the worker leaves after a last flush.
\<close>

section \<open>The invariant\<close>

fun gate_shut_at :: "worker_pc \<Rightarrow> bool" where
  "gate_shut_at (CheckActive b) = True"
| "gate_shut_at FinalFlush = True"
| "gate_shut_at FailSetFailed = True"
| "gate_shut_at FailLoadTicket = True"
| "gate_shut_at (FailStoreTicket t) = True"
| "gate_shut_at FailNotifyFlushers = True"
| "gate_shut_at FailSignal = True"
| "gate_shut_at FailNotify = True"
| "gate_shut_at WorkerDone = True"
| "gate_shut_at _ = False"

fun failed_at :: "worker_pc \<Rightarrow> bool" where
  "failed_at FailLoadTicket = True"
| "failed_at (FailStoreTicket t) = True"
| "failed_at FailNotifyFlushers = True"
| "failed_at FailSignal = True"
| "failed_at FailNotify = True"
| "failed_at _ = False"

definition failure_inv :: "'s AsyncLogger \<Rightarrow> worker_pc \<Rightarrow> bool" where
  "failure_inv lg w \<longleftrightarrow> (gate_shut_at w \<longrightarrow> StopRequested lg) \<and>
     (lg_worker_failed lg \<longleftrightarrow> failed_at w \<or> (w = WorkerDone \<and> lg_background_failure lg \<noteq> None)) \<and>
     (lg_worker_finished lg \<longleftrightarrow> w = WorkerDone) \<and>
     (w = WorkerDone \<and> lg_background_failure lg = None \<longrightarrow> (\<exists>before. hist_calls lg = before @ [CallFlush]))"

text \<open>The tickets of the calls that may still wait for their completion.\<close>

fun waiting_ticket :: "client_pc \<Rightarrow> u64 option" where
  "waiting_ticket (PubTry c item b) = item_tick item"
| "waiting_ticket (PubWrite c item p) = item_tick item"
| "waiting_ticket (PubSignal c item) = item_tick item"
| "waiting_ticket (PubNotify c item) = item_tick item"
| "waiting_ticket (FlushLoad t) = Some t"
| "waiting_ticket (FlushLoopFailed t c) = Some t"
| "waiting_ticket (FlushWait t c) = Some t"
| "waiting_ticket (FlushBlocked t c g) = Some t"
| "waiting_ticket _ = None"

text \<open>The least ticket the worker's failure sets free.\<close>

fun set_free :: "'s AsyncLogger \<Rightarrow> worker_pc \<Rightarrow> u64 option" where
  "set_free lg (FailStoreTicket r) = Some r"
| "set_free lg FailNotifyFlushers = Some (lg_flush_complete lg)"
| "set_free lg FailSignal = Some (lg_flush_complete lg)"
| "set_free lg FailNotify = Some (lg_flush_complete lg)"
| "set_free lg WorkerDone = (if lg_worker_failed lg then Some (lg_flush_complete lg) else None)"
| "set_free lg _ = None"

definition client_free :: "'s AsyncLogger \<Rightarrow> worker_pc \<Rightarrow> client_pc \<Rightarrow> bool" where
  "client_free lg w pc \<longleftrightarrow> (\<forall>t r. waiting_ticket pc = Some t \<longrightarrow> set_free lg w = Some r \<longrightarrow> t \<le> r)"

definition gate_known :: "'s AsyncLogger \<Rightarrow> client_pc \<Rightarrow> bool" where
  "gate_known lg pc \<longleftrightarrow> expects_open pc \<and>
     (\<exists>shut m. lg_operation_state lg = op_word shut m \<and> m < 2 ^ 63 \<and> (inside pc \<longrightarrow> 0 < m))"

lemma gate_kept:
  assumes k: "gate_known lg pc" and run: "client_step tid spurious now pc lg = (pc', lg')" and s: "StopRequested lg"
  shows "StopRequested lg'"
proof -
  obtain shut m where m: "lg_operation_state lg = op_word shut m" "m < 2 ^ 63" "inside pc \<Longrightarrow> 0 < m" and e: "expects_open pc"
    using k by (auto simp: gate_known_def)
  then have shut using s by (simp add: StopRequested_def)
  with client_step_state [OF run m e] m show ?thesis by (auto simp: StopRequested_def)
qed

lemma gate_kept_worker:
  assumes k: "gate_known lg pc" and run: "worker_step ops spurious now w lg = (w', lg')" and s: "StopRequested lg"
  shows "StopRequested lg'"
proof -
  obtain shut m where m: "lg_operation_state lg = op_word shut m" "m < 2 ^ 63" using k by (auto simp: gate_known_def)
  then have shut using s by (simp add: StopRequested_def)
  with worker_step_state [OF run m] m show ?thesis by (auto simp: StopRequested_def)
qed

lemma reach_gate_known:
  assumes "logger_reach ops hash lg n st" and "pc \<in> insert ClientIdle (set (sys_clients st))"
  shows "gate_known (sys_logger st) pc"
proof -
  let ?m = "inside_count (sys_clients st)"
  have g: "gate_inv st" "length (sys_clients st) = n" "n < 2 ^ 63"
    using reach_gate [OF assms(1)] assms(1) by (auto simp: logger_reach_def)
  have "?m < 2 ^ 63" using inside_count_le [of "sys_clients st"] g by simp
  moreover have "inside pc \<Longrightarrow> 0 < ?m" using assms(2) inside_count_pos by (fastforce simp: in_set_conv_nth)
  moreover have "expects_open pc" using g(1) assms(2) by (auto simp: gate_inv_def list_all_iff)
  ultimately show ?thesis using g(1) by (auto simp: gate_known_def gate_inv_def)
qed

section \<open>Every step keeps it\<close>

lemma client_failure_inv:
  assumes k: "gate_known lg pc" and inv: "failure_inv lg w" and run: "client_step tid spurious now pc lg = (pc', lg')"
  shows "failure_inv lg' w"
  using inv gate_kept [OF k run] client_step_history [OF run] step_keeps_sizes [OF run] by (simp add: failure_inv_def)

lemma set_free_same:
  assumes "client_step tid spurious now pc lg = (pc', lg')"
  shows "set_free lg' w = set_free lg w"
  using client_step_history [OF assms] by (cases w) simp_all

lemma set_free_failed: "failure_inv lg w \<Longrightarrow> set_free lg w = Some r \<Longrightarrow> lg_worker_failed lg"
  by (cases w) (auto simp: failure_inv_def split: if_splits)

text \<open>A call starts to wait only after it has seen that the worker has not failed.\<close>

lemma waits_from:
  assumes q: "client_queue_ok lg pc" and run: "client_step tid spurious now pc lg = (pc', lg')" and w: "waiting_ticket pc' = Some t"
  shows "waiting_ticket pc = Some t \<or> \<not> lg_worker_failed lg"
proof -
  have "published d item' = (if d = FlushCall then FlushLoad (item_ticket item') else FinishOp d True)" for d item'
    by (cases d) simp_all
  moreover have "waiting_ticket (started d) = None" for d by (cases d) simp_all
  ultimately show ?thesis
    using q run w by (cases pc) (auto simp: HasWorkerFailure_def Let_def item_tick_def fits_def split: if_splits option.splits)
qed

lemma client_free_step:
  assumes q: "client_queue_ok lg pc" and inv: "failure_inv lg w" and ok: "client_free lg w pc"
    and run: "client_step tid spurious now pc lg = (pc', lg')"
  shows "client_free lg' w pc'"
  using waits_from [OF q run] ok set_free_failed [OF inv] unfolding client_free_def set_free_same [OF run] by blast

lemma worker_failure_inv:
  assumes k: "gate_known lg pc" and h: "history_inv ops s0 lg w" and inv: "failure_inv lg w"
    and run: "worker_step ops spurious now w lg = (w', lg')"
  shows "failure_inv lg' w'"
proof -
  have bf: "lg_background_failure lg \<noteq> None \<Longrightarrow> failing w \<or> w = WorkerDone" "failing w \<Longrightarrow> lg_background_failure lg \<noteq> None"
    using h by (simp_all add: history_inv_def)
  have kept: "StopRequested lg \<Longrightarrow> StopRequested lg'" by (rule gate_kept_worker [OF k run])
  have pcs: "\<not> gate_shut_at (handled pl b)" "\<not> gate_shut_at (after_progress b)" "\<not> failed_at (handled pl b)" "\<not> failed_at (after_progress b)"
    for pl b by (cases pl; simp add: after_progress_def)+
  note S = sink_step_defs StopRequested_def
  have "gate_shut_at w' \<Longrightarrow> gate_shut_at w \<or> StopRequested lg \<or>
      lg' = lg\<lparr>lg_operation_state := lg_operation_state lg OR kOperationGateClosedBit\<rparr>"
    using run by (cases w) (auto simp: S pcs split: if_splits option.splits prod.splits sum.splits)
  moreover have "StopRequested (lg\<lparr>lg_operation_state := lg_operation_state lg OR kOperationGateClosedBit\<rparr>)"
    using k by (auto simp: gate_known_def StopRequested_def)
  ultimately have g: "gate_shut_at w' \<Longrightarrow> StopRequested lg'" using kept inv by (auto simp: failure_inv_def)
  have f: "lg_worker_failed lg' \<longleftrightarrow> failed_at w' \<or> (w' = WorkerDone \<and> lg_background_failure lg' \<noteq> None)"
    using run inv bf by (cases w) (auto simp: S pcs failure_inv_def split: if_splits option.splits prod.splits sum.splits)
  have d: "lg_worker_finished lg' \<longleftrightarrow> w' = WorkerDone"
    using run inv by (cases w) (auto simp: S pcs failure_inv_def split: if_splits option.splits prod.splits sum.splits)
  have "w' = WorkerDone \<Longrightarrow> lg_background_failure lg' = None \<Longrightarrow> \<exists>before. hist_calls lg' = before @ [CallFlush]"
    using run inv bf by (cases w) (auto simp: S pcs failure_inv_def split: if_splits option.splits prod.splits sum.splits)
  with g f d show ?thesis unfolding failure_inv_def by blast
qed

text \<open>When the worker loads the last ticket drawn, no ticket in use is larger.\<close>

lemma worker_free_step:
  assumes fl: "flush_inv lg w" "client_flush_ok lg w qc" and b: "length (hist_tickets lg) < 2 ^ 64"
    and inv: "failure_inv lg w" and ok: "client_free lg w qc" and run: "worker_step ops spurious now w lg = (w', lg')"
  shows "client_free lg' w' qc"
proof -
  have v: "t \<le> lg_flush_request lg" if "waiting_ticket qc = Some t" for t
  proof -
    have "pc_ticket qc = Some t" using that by (cases qc) simp_all
    then have "unat t \<le> length (hist_tickets lg)" using fl(2) by (simp add: client_flush_ok_def valid_ticket_def)
    moreover have "unat (lg_flush_request lg) = length (hist_tickets lg)"
      using fl(1) b unat_of_nat_fits [of "length (hist_tickets lg)", where ?'w = 64] by (simp add: flush_inv_def)
    ultimately show ?thesis by (simp add: word_le_nat_alt)
  qed
  have pcs: "set_free x (handled pl b) = None" "set_free x (after_progress b) = None" for x :: "'a AsyncLogger" and pl b
    by (cases pl; cases b; simp add: after_progress_def)+
  show ?thesis
    using run ok inv v by (cases w) (auto simp: client_free_def sink_step_defs pcs failure_inv_def split: if_splits option.splits prod.splits sum.splits)
qed

lemma failure_levels:
  "failure_inv (SetLevel l lg) w = failure_inv lg w" "client_free (SetLevel l lg) w pc = client_free lg w pc"
  "failure_inv (SetFlushLevel l lg) w = failure_inv lg w" "client_free (SetFlushLevel l lg) w pc = client_free lg w pc"
proof -
  have "set_free (SetLevel l lg) w = set_free lg w" "set_free (SetFlushLevel l lg) w = set_free lg w"
    by (cases w; simp add: SetLevel_def SetFlushLevel_def)+
  then show "client_free (SetLevel l lg) w pc = client_free lg w pc" "client_free (SetFlushLevel l lg) w pc = client_free lg w pc"
    by (simp_all add: client_free_def)
qed (simp_all add: failure_inv_def SetLevel_def SetFlushLevel_def StopRequested_def)

lemma client_free_other: "client_free lg w qc \<Longrightarrow> client_step tid spurious now pc lg = (pc', lg') \<Longrightarrow> client_free lg' w qc"
  by (simp add: client_free_def set_free_same)

lemma failure_start: "fresh_logger lg \<Longrightarrow> failure_inv lg WorkerTop"
  by (auto simp: fresh_logger_def AsyncLogger_new_def failure_inv_def)

lemma failure_outside: "\<not> inside pc \<Longrightarrow> client_free lg w pc"
  by (cases pc) (simp_all add: client_free_def)

interpretation failure: logger_invariant ops hash lg n "\<lambda>lg'. length (hist_tickets lg') < 2 ^ 64"
  "\<lambda>lg' w pc. gate_known lg' pc \<and> client_queue_ok lg' pc \<and> history_inv ops (lg_sink lg) lg' w \<and> flush_inv lg' w \<and>
     client_flush_ok lg' w pc \<and> length (hist_tickets lg') < 2 ^ 64"
  failure_inv client_free "\<lambda>_ _. True"
  for ops hash lg n
proof (unfold_locales; (intro TrueI conjI)?)
  fix st pc
  assume r: "logger_reach ops hash lg n st" and b: "length (hist_tickets (sys_logger st)) < 2 ^ 64"
    and p: "pc \<in> insert ClientIdle (set (sys_clients st))"
  show "gate_known (sys_logger st) pc" by (rule reach_gate_known [OF r p])
  show "client_queue_ok (sys_logger st) pc" using queue.reach_parts [OF r TrueI] p by blast
  show "history_inv ops (lg_sink lg) (sys_logger st) (sys_worker st)" using history.reach_parts(1) [OF r TrueI] by blast
  show "flush_inv (sys_logger st) (sys_worker st)" "client_flush_ok (sys_logger st) (sys_worker st) pc"
    using flush.reach_parts [OF r b] p by blast+
qed (auto simp: failure_levels failure_start failure_outside
  dest: few_tickets_back client_failure_inv worker_failure_inv intro: client_free_step client_free_other worker_free_step)

section \<open>What callers can rely on\<close>

text \<open>
  C7. After a failure.  When the worker has reported a failure, the sink has thrown exactly once, at
  the last call made on it; \<open>failure_message\<close> is the text of this exception, the gate is closed, and
  every call of \<open>Log\<close> or \<open>Flush\<close> that starts from now on returns false at its first step.
\<close>

theorem logger_failure_reported:
  assumes "logger_reach ops hash lg n st" and "length (hist_tickets (sys_logger st)) < 2 ^ 64"
    and "HasWorkerFailure (sys_logger st)"
  shows "\<exists>e. lg_background_failure (sys_logger st) = Some e \<and> lg_failure_message (sys_logger st) = exn_what e \<and>
    run_calls ops (hist_calls (sys_logger st)) (lg_sink lg) = (Inl e, lg_sink (sys_logger st)) \<and>
    StopRequested (sys_logger st) \<and>
    (\<forall>tid spurious now call. client_step tid spurious now (StartLoad call) (sys_logger st) = (Returned call False, sys_logger st))"
proof -
  let ?l = "sys_logger st" and ?w = "sys_worker st"
  have F: "failure_inv ?l ?w" using failure.reach_parts(1) [OF assms(1,2)] .
  have H: "history_inv ops (lg_sink lg) ?l ?w" using history.reach_parts(1) [OF assms(1) TrueI] by blast
  have at: "failed_at ?w \<or> (?w = WorkerDone \<and> lg_background_failure ?l \<noteq> None)"
    using F assms(3) by (simp add: failure_inv_def HasWorkerFailure_def)
  then have "failing ?w \<or> ?w = WorkerDone" "gate_shut_at ?w" by (cases ?w; simp)+
  then obtain e where e: "lg_background_failure ?l = Some e" "worker_error ?l ?w = Some e" "StopRequested ?l"
    using at H F by (cases ?w) (auto simp: history_inv_def failure_inv_def)
  then show ?thesis using H by (auto simp: history_inv_def StopRequested_def)
qed

text \<open>A client that runs without being interrupted, for a number of steps.\<close>

fun client_alone :: "nat \<Rightarrow> u64 \<Rightarrow> int \<Rightarrow> client_pc \<Rightarrow> 's AsyncLogger \<Rightarrow> client_pc \<times> 's AsyncLogger" where
  "client_alone 0 tid now pc lg = (pc, lg)"
| "client_alone (Suc k) tid now pc lg = (case client_step tid False now pc lg of (pc', lg') \<Rightarrow> client_alone k tid now pc' lg')"

text \<open>
  C9. A failure leaves nobody waiting.  Once the worker has ended after a failure, every call of
  \<open>Flush\<close> that waits for its ticket, blocked or not, returns false within four steps of its own.
\<close>

theorem logger_failure_frees_flush:
  assumes "logger_reach ops hash lg n st" and "length (hist_tickets (sys_logger st)) < 2 ^ 64"
    and "sys_worker st = WorkerDone" and "HasWorkerFailure (sys_logger st)" and "t < length (sys_clients st)"
    and "sys_clients st ! t \<in> {FlushLoad ticket, FlushLoopFailed ticket c, FlushWait ticket c, FlushBlocked ticket c seen}"
  shows "\<exists>k \<le> 4. client_alone k tid now (sys_clients st ! t) (sys_logger st) = (FinishOp FlushCall False, sys_logger st)"
proof -
  let ?l = "sys_logger st" and ?pc = "sys_clients st ! t"
  have fail: "lg_worker_failed ?l" using assms(4) by (simp add: HasWorkerFailure_def)
  have "client_free ?l WorkerDone ?pc" using failure.reach_parts(2) [OF assms(1,2,5)] assms(3) by simp
  then have le: "ticket \<le> lg_flush_complete ?l" using assms(6) fail by (auto simp: client_free_def)
  have "client_flush_ok ?l WorkerDone ?pc" using flush.reach_parts(2) [OF assms(1,2,5)] assms(3) by simp
  then have K: "?pc = FlushWait ticket c \<Longrightarrow> c < ticket" "?pc = FlushBlocked ticket c seen \<Longrightarrow> c < ticket"
    "?pc = FlushBlocked ticket c seen \<Longrightarrow> seen = lg_complete_notified ?l \<Longrightarrow> c = lg_flush_complete ?l"
    by (auto simp: client_flush_ok_def)
  have load: "client_alone (Suc (Suc k)) tid now (FlushLoad ticket) ?l = client_alone k tid now (FinishOp FlushCall False) ?l" for k
    using le fail by (simp add: HasWorkerFailure_def not_less)
  have wait: "client_alone (Suc k) tid now (FlushWait ticket c) ?l = client_alone k tid now (FlushLoad ticket) ?l"
    if "c < ticket" for k using le that by auto
  from assms(6) consider "?pc = FlushLoad ticket" | "?pc = FlushLoopFailed ticket c" | "?pc = FlushWait ticket c"
    | "?pc = FlushBlocked ticket c seen" by blast
  then show ?thesis
  proof cases
    case 1
    then show ?thesis using load [of 0] by (intro exI [of _ 2]) (simp add: numeral_2_eq_2)
  next
    case 2
    then show ?thesis using fail by (intro exI [of _ 1]) (simp add: HasWorkerFailure_def)
  next
    case 3
    then have "client_alone 3 tid now ?pc ?l = (FinishOp FlushCall False, ?l)"
      using wait [OF K(1) [OF 3], of 2] load [of 0] by (simp only: numeral_3_eq_3 numeral_2_eq_2) simp
    then show ?thesis by (intro exI [of _ 3]) simp
  next
    case 4
    then have "seen \<noteq> lg_complete_notified ?l" using K(2,3) le by fastforce
    then have "client_alone (Suc 3) tid now ?pc ?l = client_alone 3 tid now (FlushWait ticket c) ?l"
      using 4 unfolding client_alone.simps(2) by simp
    also have "\<dots> = (FinishOp FlushCall False, ?l)"
      using wait [OF K(2) [OF 4], of 2] load [of 0] by (simp only: numeral_3_eq_3 numeral_2_eq_2) simp
    finally show ?thesis by (intro exI [of _ 4]) (simp add: eval_nat_numeral)
  qed
qed

text \<open>
  C10. An orderly end.  When the worker has ended without a failure, the gate is closed, every item
  it ever took from the queue has been handled, the messages of these items have been written in
  order, and the last call made on the sink was a flush that came after all of them.
\<close>

theorem logger_orderly_end:
  assumes "logger_reach ops hash lg n st" and "length (hist_tickets (sys_logger st)) < 2 ^ 64"
    and "sys_worker st = WorkerDone" and "\<not> HasWorkerFailure (sys_logger st)"
  shows "StopRequested (sys_logger st) \<and>
    hist_written (sys_logger st) = logs (take (lg_taken (sys_logger st)) (lg_slots (sys_logger st))) \<and>
    run_calls ops (hist_calls (sys_logger st)) (lg_sink lg) = (Inr (), lg_sink (sys_logger st)) \<and>
    (\<exists>before. hist_calls (sys_logger st) = before @ [CallFlush] \<and> writes before = hist_written (sys_logger st))"
proof -
  let ?l = "sys_logger st"
  have F: "failure_inv ?l WorkerDone" using failure.reach_parts(1) [OF assms(1,2)] assms(3) by simp
  have H: "history_inv ops (lg_sink lg) ?l WorkerDone" using history.reach_parts(1) [OF assms(1) TrueI] assms(3) by auto
  have none: "lg_background_failure ?l = None" "StopRequested ?l" and last: "\<exists>before. hist_calls ?l = before @ [CallFlush]"
    using F assms(4) by (auto simp: failure_inv_def HasWorkerFailure_def)
  then have "worker_error ?l WorkerDone = None" by simp
  note C = history_clean [OF H this]
  from last obtain before where b: "hist_calls ?l = before @ [CallFlush]" by blast
  then have "writes before = hist_written ?l" using C(2) by simp
  with b C(1,3) none show ?thesis by (simp add: begun_def)
qed

end
