(* ===== verification/Logger_Accounting.thy ===== *)
theory Logger_Accounting
  imports Logger_History
begin

text \<open>The counters that \<open>Stats\<close> reports, and what they count.\<close>

text \<open>A client that has added a message to \<open>enqueued_\<close> and neither published it nor taken it back.\<close>

fun counted :: "client_pc \<Rightarrow> bool" where
  "counted (PubCheckFailed call item b) = is_log item"
| "counted (PubTry call item b) = is_log item"
| "counted (PubWrite call item p) = is_log item"
| "counted (PubUncount call item b) = is_log item"
| "counted _ = False"

definition counted_clients :: "client_pc list \<Rightarrow> nat" where
  "counted_clients cs = length (filter counted cs)"

definition account_inv :: "'s logger_sys \<Rightarrow> bool" where
  "account_inv st \<longleftrightarrow> lg_enqueued (sys_logger st) =
     of_nat (length (logs (lg_slots (sys_logger st))) + counted_clients (sys_clients st))"

lemma logs_publish:
  "p < length xs \<Longrightarrow> xs ! p = None \<Longrightarrow>
     length (logs (xs[p := Some item])) = length (logs xs) + (if is_log item then 1 else 0)"
proof (induction xs arbitrary: p)
  case (Cons x xs)
  then show ?case by (cases p; cases x) auto
qed simp

lemma client_step_enqueued:
  assumes ok: "client_queue_ok lg pc" and run: "client_step tid spurious now pc lg = (pc', lg')"
  shows "lg_enqueued lg' + of_nat (length (logs (lg_slots lg)) + (if counted pc then 1 else 0)) =
    lg_enqueued lg + of_nat (length (logs (lg_slots lg')) + (if counted pc' then 1 else 0))"
proof -
  have "\<not> counted (started c)" "\<not> counted (published c item)" for c item by (cases c; simp)+
  then show ?thesis
    using ok run by (cases pc) (auto simp: Let_def queue_claim_def queue_publish_def slot_claim_def slot_publish_def logs_publish
      split: if_splits option.splits)
qed

lemma worker_step_enqueued:
  "worker_step ops spurious now w lg = (w', lg') \<Longrightarrow> lg_enqueued lg' = lg_enqueued lg"
  by (cases w) (auto simp: sink_step_defs split: if_splits option.splits prod.splits sum.splits)

lemma balance:
  fixes x :: "'b::ab_group_add"
  assumes "x + l + c = e + l' + c'" and "m' + c = m + c'" and "e = l + m"
  shows "x = l' + m'"
proof -
  have "l' + m' + (l + c) = l' + l + (m' + c)" by (simp add: ac_simps)
  also have "\<dots> = e + l' + c'" unfolding assms(2,3) by (simp add: ac_simps)
  also have "\<dots> = x + (l + c)" using assms(1) by (simp add: ac_simps)
  finally show ?thesis by simp
qed

lemma account_step:
  assumes reach: "logger_reach ops hash lg n st" and step: "logger_step ops hash st st'" and inv: "account_inv st"
  shows "account_inv st'"
proof -
  note Q = queue.reach_parts [OF reach TrueI]
  have move: "counted_clients ((sys_clients st)[t := pc']) + (if counted (sys_clients st ! t) then 1 else 0) =
      counted_clients (sys_clients st) + (if counted pc' then 1 else 0)" if "t < length (sys_clients st)" for t pc'
    unfolding counted_clients_def by (rule filter_update_count [OF that])
  show ?thesis
    using step
  proof cases
    case (client_calls t pc' call)
    then show ?thesis using move [OF client_calls(2), of pc'] inv by (auto simp: account_inv_def)
  next
    case (client_returns t call b)
    then show ?thesis using move [OF client_returns(2), of ClientIdle] inv by (auto simp: account_inv_def)
  next
    case (client_moves t spurious now pc' lg')
    let ?c = "of_nat (if counted (sys_clients st ! t) then 1 else 0) :: u64"
    have "lg_enqueued lg' + of_nat (length (logs (lg_slots (sys_logger st)))) + ?c =
        lg_enqueued (sys_logger st) + of_nat (length (logs (lg_slots lg'))) + of_nat (if counted pc' then 1 else 0)"
      using client_step_enqueued [OF Q(2) client_moves(3)] client_moves(2) by (simp add: algebra_simps)
    moreover have "of_nat (counted_clients ((sys_clients st)[t := pc'])) + ?c =
        of_nat (counted_clients (sys_clients st)) + of_nat (if counted pc' then 1 else 0)"
      unfolding of_nat_add [symmetric] move [OF client_moves(2)] ..
    moreover have "lg_enqueued (sys_logger st) =
        of_nat (length (logs (lg_slots (sys_logger st)))) + of_nat (counted_clients (sys_clients st))"
      using inv by (simp add: account_inv_def)
    ultimately have "lg_enqueued lg' = of_nat (length (logs (lg_slots lg'))) + of_nat (counted_clients ((sys_clients st)[t := pc']))"
      by (rule balance)
    then show ?thesis using client_moves(1) by (simp add: account_inv_def)
  next
    case (worker_moves spurious now pc' lg')
    then show ?thesis using inv worker_step_enqueued [OF worker_moves(2)] worker_queue_inv [OF Q(1) worker_moves(2)]
      by (simp add: account_inv_def)
  qed (use inv in \<open>simp_all add: account_inv_def SetLevel_def SetFlushLevel_def\<close>)
qed

lemma reach_account:
  assumes "logger_reach ops hash lg n st"
  shows "account_inv st"
proof -
  have path: "rtranclp (logger_step ops hash) (logger_start lg n) st" and f: "fresh_logger lg" "n < 2 ^ 63"
    using assms by (simp_all add: logger_reach_def)
  from path show ?thesis
  proof (induction rule: rtranclp_induct)
    case base
    show ?case using f(1)
      by (auto simp: account_inv_def logger_start_def fresh_logger_def AsyncLogger_new_def counted_clients_def)
  next
    case (step st st')
    have "logger_reach ops hash lg n st" using step(1) f by (simp add: logger_reach_def)
    from account_step [OF this step(2,3)] show ?case .
  qed
qed

text \<open>
  C11. The counters.  In every reachable state \<open>enqueued_\<close> is the number of messages published
  since the start plus those some call of \<open>Log\<close> is still trying to publish, modulo the word.  While no call is inside and
  the sink has not thrown, the messages counted as enqueued are those counted as written, those that still
  wait in the queue or in the hands of the worker, and the one it is about to count; so when moreover the queue is
  empty and the worker has nothing in hand and nothing to count, \<open>Stats\<close> reports as many messages written as
  enqueued and none pending.
\<close>

theorem logger_accounting:
  assumes "logger_reach ops hash lg n st"
  shows "lg_enqueued (sys_logger st) =
      of_nat (length (logs (lg_slots (sys_logger st))) + length (filter counted (sys_clients st))) \<and>
    (list_all (Not \<circ> inside) (sys_clients st) \<and> worker_error (sys_logger st) (sys_worker st) = None \<longrightarrow>
     stat_enqueued (Stats (sys_logger st)) = stat_written (Stats (sys_logger st)) +
       of_nat (length (logs (drop (begun (sys_logger st) (sys_worker st)) (lg_slots (sys_logger st)))) + uncounted (sys_worker st)) \<and>
     (queue_of (sys_logger st) = [] \<and> in_hand (sys_worker st) = None \<and> uncounted (sys_worker st) = 0 \<longrightarrow>
      stat_pending (Stats (sys_logger st)) = 0 \<and>
      stat_written (Stats (sys_logger st)) = stat_enqueued (Stats (sys_logger st))))"
proof -
  let ?l = "sys_logger st" and ?w = "sys_worker st"
  have A: "lg_enqueued ?l = of_nat (length (logs (lg_slots ?l)) + counted_clients (sys_clients st))"
    using reach_account [OF assms] by (simp add: account_inv_def)
  have H: "history_inv ops (lg_sink lg) ?l ?w" using history.reach_parts [OF assms TrueI] by blast
  have B: "lg_enqueued ?l = lg_written ?l + of_nat (length (logs (drop (begun ?l ?w) (lg_slots ?l))) + uncounted ?w)"
    if q: "list_all (Not \<circ> inside) (sys_clients st)" "worker_error ?l ?w = None"
  proof -
    have "filter counted (sys_clients st) = []"
    proof -
      have "\<not> counted pc" if "\<not> inside pc" for pc using that by (cases pc) simp_all
      then show ?thesis using q(1) by (auto simp: filter_empty_conv list_all_iff)
    qed
    moreover have "length (logs (lg_slots ?l)) = length (hist_written ?l) + length (logs (drop (begun ?l ?w) (lg_slots ?l)))"
      unfolding history_clean(3) [OF H q(2)] length_append [symmetric] logs_append [symmetric] by simp
    moreover have "lg_written ?l + of_nat (uncounted ?w) = of_nat (length (hist_written ?l))" using H by (simp add: history_inv_def)
    ultimately show ?thesis using A by (simp add: counted_clients_def)
  qed
  have "drop (begun ?l ?w) (lg_slots ?l) = []" if "queue_of ?l = []" "in_hand ?w = None"
    using that by (simp add: begun_def queue_of_def)
  with A B show ?thesis by (auto simp: Stats_def counted_clients_def)
qed

end
