(* ===== verification/Logger_Schedules.thy ===== *)
theory Logger_Schedules
  imports Logger_Failure Logger_Accounting
begin

text \<open>
  Particular interleavings: a scheduler that runs the threads in a given order, and with it the
  behaviours of the code that an orderly caller would not expect.
\<close>

section \<open>Running a schedule\<close>

datatype logger_action = Call nat logger_call | CallStop nat | Run nat | RunWorker | Return nat

fun logger_run :: "('s \<times> io_world) sink_ops \<Rightarrow> (nat \<Rightarrow> u64) \<Rightarrow> logger_action list \<Rightarrow> 's logger_sys \<Rightarrow> 's logger_sys" where
  "logger_run ops hash [] st = st"
| "logger_run ops hash (Call t c # as) st = logger_run ops hash as
     (if t < length (sys_clients st) \<and> sys_clients st ! t = ClientIdle
      then st\<lparr>sys_clients := (sys_clients st)[t := StartLoad c]\<rparr> else st)"
| "logger_run ops hash (CallStop t # as) st = logger_run ops hash as
     (if t < length (sys_clients st) \<and> sys_clients st ! t = ClientIdle
      then st\<lparr>sys_clients := (sys_clients st)[t := StopLoad]\<rparr> else st)"
| "logger_run ops hash (Run t # as) st = logger_run ops hash as
     (if t < length (sys_clients st)
      then (case client_step (hash t) False 0 (sys_clients st ! t) (sys_logger st) of
        (pc', lg') \<Rightarrow> st\<lparr>sys_logger := lg', sys_clients := (sys_clients st)[t := pc']\<rparr>) else st)"
| "logger_run ops hash (RunWorker # as) st = logger_run ops hash as
     (case worker_step ops False 0 (sys_worker st) (sys_logger st) of
        (pc', lg') \<Rightarrow> st\<lparr>sys_logger := lg', sys_worker := pc'\<rparr>)"
| "logger_run ops hash (Return t # as) st = logger_run ops hash as
     (if t < length (sys_clients st) \<and> (sys_clients st ! t = StopReturned \<or> (case sys_clients st ! t of Returned c b \<Rightarrow> True | _ \<Rightarrow> False))
      then st\<lparr>sys_clients := (sys_clients st)[t := ClientIdle]\<rparr> else st)"

lemma logger_run_reach: "rtranclp (logger_step ops hash) st (logger_run ops hash as st)"
proof (induction as arbitrary: st)
  case (Cons a as)
  have "logger_step ops hash st st' \<or> st' = st \<Longrightarrow> rtranclp (logger_step ops hash) st (logger_run ops hash as st')" for st'
    using Cons.IH [of st'] by (auto intro: converse_rtranclp_into_rtranclp)
  note go = this
  show ?case
  proof (cases a)
    case (Call t c)
    then show ?thesis by (simp only: logger_run.simps, intro go) (auto intro: client_calls)
  next
    case (CallStop t)
    then show ?thesis by (simp only: logger_run.simps, intro go) (auto intro: client_calls)
  next
    case (Run t)
    then show ?thesis by (simp only: logger_run.simps, intro go) (auto intro: client_moves split: prod.splits)
  next
    case RunWorker
    then show ?thesis by (simp only: logger_run.simps, intro go) (auto intro: worker_moves split: prod.splits)
  next
    case (Return t)
    then show ?thesis by (simp only: logger_run.simps, intro go) (auto intro: client_returns split: client_pc.splits)
  qed
qed simp

text \<open>No thread can move, unless a new call comes or a thread wakes up without having been notified.\<close>

definition at_rest :: "('s \<times> io_world) sink_ops \<Rightarrow> (nat \<Rightarrow> u64) \<Rightarrow> 's logger_sys \<Rightarrow> bool" where
  "at_rest ops hash st \<longleftrightarrow>
     (\<forall>now. worker_step ops False now (sys_worker st) (sys_logger st) = (sys_worker st, sys_logger st)) \<and>
     (\<forall>t < length (sys_clients st). \<forall>now.
        client_step (hash t) False now (sys_clients st ! t) (sys_logger st) = (sys_clients st ! t, sys_logger st))"

text \<open>A sink that keeps the messages in memory, as a user of the library may write it.\<close>

definition memory_ops :: "(LogMessage list \<times> io_world) sink_ops" where
  "memory_ops = \<lparr>op_write = (\<lambda>m (ms, w). (Inr (), (ms @ [m], w))), op_flush = ret (),
     op_next = default_NextAutoFlushTime, op_due = default_FlushIfDue\<rparr>"

text \<open>The same with a full disk.\<close>

definition failing_ops :: "(LogMessage list \<times> io_world) sink_ops" where
  "failing_ops = memory_ops\<lparr>op_write := (\<lambda>m. throw (RuntimeError ''disk full''))\<rparr>"

definition small_logger :: "LogMessage list AsyncLogger" where
  "small_logger = (case AsyncLogger_new ''log'' (Some ([], memory_world)) (default_AsyncLoggerOptions\<lparr>opt_queue_size := 2\<rparr>) of
     Inr lg \<Rightarrow> lg | Inl e \<Rightarrow> undefined)"

definition run_small :: "(LogMessage list \<times> io_world) sink_ops \<Rightarrow> nat \<Rightarrow> logger_action list \<Rightarrow> LogMessage list logger_sys" where
  "run_small ops n as = logger_run ops (\<lambda>_. 0) as (logger_start small_logger n)"

lemma run_small_reach: "n < 2 ^ 63 \<Longrightarrow> logger_reach ops (\<lambda>_. 0) small_logger n (run_small ops n as)"
  unfolding logger_reach_def run_small_def fresh_logger_def
  by (intro conjI logger_run_reach exI [of _ "''log''"] exI [of _ "([], memory_world)"]
      exI [of _ "default_AsyncLoggerOptions\<lparr>opt_queue_size := 2\<rparr>"])
    (simp_all add: small_logger_def AsyncLogger_new_def)

text \<open>What the following proofs read off the state a schedule ends in, evaluated in one pass.\<close>

definition sys_view :: "LogMessage list logger_sys \<Rightarrow>
    client_pc list \<times> worker_pc \<times> bool \<times> exn option \<times> (u64 \<times> nat \<times> nat \<times> u64 \<times> u64) \<times>
    (nat list \<times> nat \<times> nat) \<times> (nat \<times> nat \<times> nat) \<times> OverflowPolicy \<times> nat \<times> (u64 \<times> u64) \<times> nat" where
  "sys_view st = (sys_clients st, sys_worker st, lg_worker_failed (sys_logger st), lg_background_failure (sys_logger st),
     (lg_wake_signal (sys_logger st), lg_wake_notified (sys_logger st), lg_complete_notified (sys_logger st),
      lg_flush_complete (sys_logger st), lg_flush_request (sys_logger st)),
     (hist_tickets (sys_logger st), hist_flushed (sys_logger st), lg_taken (sys_logger st)),
     (length (lg_slots (sys_logger st)), length (logs (lg_slots (sys_logger st))), lg_capacity (sys_logger st)),
     lg_overflow_policy (sys_logger st), length (queue_of (sys_logger st)),
     (stat_enqueued (Stats (sys_logger st)), stat_pending (Stats (sys_logger st))), length (fst (lg_sink (sys_logger st))))"

section \<open>Messages, flushes and counters in an undisturbed run\<close>

definition flush_schedule :: "logger_action list" where
  "flush_schedule = Call 0 (LogCall Info no_source []) # replicate 12 (Run 0) @ [Return 0, Call 0 FlushCall] @
     replicate 11 (Run 0) @ replicate 11 RunWorker @ [Run 0]"

definition flush_state :: "LogMessage list logger_sys" where
  "flush_state = run_small memory_ops 1 flush_schedule"

lemma flush_view:
  "sys_view flush_state =
    ([FlushLast 1], Drain True False, False, None, (2, 2, 1, 1, 1), ([1], 2, 2), (2, 1, 2), Block, 0, (1, 0), 1)"
  by code_simp

lemma flush_eval:
  "sys_clients flush_state = [FlushLast 1]" "sys_worker flush_state = Drain True False"
  "lg_worker_failed (sys_logger flush_state) = False" "hist_tickets (sys_logger flush_state) = [1]"
  "lg_taken (sys_logger flush_state) = 2" "length (logs (lg_slots (sys_logger flush_state))) = 1"
  "length (lg_slots (sys_logger flush_state)) = 2" "lg_capacity (sys_logger flush_state) = 2"
  using flush_view by (auto simp: sys_view_def split: if_splits)

lemma flush_first_log: "length (logs (take 1 (lg_slots (sys_logger flush_state)))) = 1"
  by code_simp

lemma flush_reach: "logger_reach memory_ops (\<lambda>_. 0) small_logger 1 flush_state"
  unfolding flush_state_def by (rule run_small_reach) simp

theorem logger_flush_covers_witness:
  "\<exists>before after. hist_calls (sys_logger flush_state) = before @ CallFlush # after \<and> length (writes before) \<ge> 1"
proof -
  obtain before after where "hist_calls (sys_logger flush_state) = before @ CallFlush # after"
    "prefix (logs (take (hist_tickets (sys_logger flush_state) ! (unat (1 :: u64) - 1)) (lg_slots (sys_logger flush_state)))) (writes before)"
    using logger_flush_covers [OF flush_reach, of 0 1] flush_eval by (auto simp: HasWorkerFailure_def)
  moreover from this(2) have "1 \<le> length (writes before)" using flush_eval flush_first_log by (auto dest: prefix_length_le)
  ultimately show ?thesis by blast
qed

theorem logger_fifo_witness:
  "\<exists>k. k \<le> 2 \<and> writes (hist_calls (sys_logger flush_state)) = logs (take k (lg_slots (sys_logger flush_state)))"
  using logger_fifo [OF flush_reach] flush_eval(5) by auto

text \<open>The same run once the flush has returned: nothing is inside, queued or in hand.\<close>

definition settled_state :: "LogMessage list logger_sys" where
  "settled_state = run_small memory_ops 1 (flush_schedule @ replicate 3 (Run 0) @ [Return 0])"

lemma settled_view:
  "sys_view settled_state =
    ([ClientIdle], Drain True False, False, None, (2, 2, 1, 1, 1), ([1], 2, 2), (2, 1, 2), Block, 0, (1, 0), 1)"
  by code_simp

lemma settled_eval:
  "sys_clients settled_state = [ClientIdle]" "sys_worker settled_state = Drain True False"
  "lg_background_failure (sys_logger settled_state) = None" "queue_of (sys_logger settled_state) = []"
  "length (logs (lg_slots (sys_logger settled_state))) = 1"
  using settled_view by (auto simp: sys_view_def split: if_splits)

theorem logger_accounting_witness:
  "stat_enqueued (Stats (sys_logger settled_state)) = 1 \<and> stat_written (Stats (sys_logger settled_state)) = 1 \<and>
   stat_pending (Stats (sys_logger settled_state)) = 0"
proof -
  have "logger_reach memory_ops (\<lambda>_. 0) small_logger 1 settled_state" unfolding settled_state_def by (rule run_small_reach) simp
  from logger_accounting [OF this] show ?thesis using settled_eval by (simp add: Stats_def)
qed

text \<open>Then \<open>Stop\<close> is called and the worker ends.\<close>

definition stopped_state :: "LogMessage list logger_sys" where
  "stopped_state = run_small memory_ops 1
     (flush_schedule @ replicate 3 (Run 0) @ [Return 0, CallStop 0] @ replicate 4 (Run 0) @ replicate 6 RunWorker)"

lemma stopped_view:
  "sys_view stopped_state = ([StopJoin], WorkerDone, False, None, (3, 3, 1, 1, 1), ([1], 2, 2), (2, 1, 2), Block, 0, (1, 0), 1)"
  by code_simp

lemma stopped_eval:
  "sys_worker stopped_state = WorkerDone" "lg_worker_failed (sys_logger stopped_state) = False"
  "hist_tickets (sys_logger stopped_state) = [1]" "lg_taken (sys_logger stopped_state) = 2"
  "length (lg_slots (sys_logger stopped_state)) = 2" "length (logs (lg_slots (sys_logger stopped_state))) = 1"
  using stopped_view by (auto simp: sys_view_def split: if_splits)

theorem logger_orderly_end_witness:
  "StopRequested (sys_logger stopped_state) \<and> length (hist_written (sys_logger stopped_state)) = 1 \<and>
   last (hist_calls (sys_logger stopped_state)) = CallFlush"
proof -
  have "logger_reach memory_ops (\<lambda>_. 0) small_logger 1 stopped_state" unfolding stopped_state_def by (rule run_small_reach) simp
  from logger_orderly_end [OF this] stopped_eval show ?thesis by (auto simp: HasWorkerFailure_def)
qed

definition flush_state_next :: "LogMessage list logger_sys" where
  "flush_state_next = logger_run memory_ops (\<lambda>_. 0) [RunWorker] flush_state"

lemma flush_moves: "logger_step memory_ops (\<lambda>_. 0) flush_state flush_state_next"
  unfolding flush_state_next_def logger_run.simps
  by (cases "worker_step memory_ops False 0 (sys_worker flush_state) (sys_logger flush_state)") (auto intro: worker_moves)

theorem logger_gate_witness: "unat (ActiveOperationCount (sys_logger flush_state)) = 1"
  using logger_gate [OF flush_reach flush_moves] by (simp add: flush_eval)

theorem logger_refines_slots_witness:
  "slot_step 2 (queue_of (sys_logger flush_state)) (queue_of (sys_logger flush_state_next)) \<and> lg_dropped (sys_logger flush_state) = 0"
proof -
  have "lg_overflow_policy (sys_logger flush_state) = Block" using flush_view by (simp add: sys_view_def)
  then show ?thesis using logger_refines_slots [OF flush_reach flush_moves] by (simp add: flush_eval)
qed

section \<open>A failing sink\<close>

definition failure_schedule :: "logger_action list" where
  "failure_schedule = Call 0 (LogCall Info no_source []) # replicate 12 (Run 0) @ Call 1 FlushCall # replicate 14 (Run 1) @
     replicate 14 RunWorker"

definition failure_state :: "LogMessage list logger_sys" where
  "failure_state = run_small failing_ops 2 failure_schedule"

lemma failure_view:
  "sys_view failure_state =
    ([Returned (LogCall Info no_source []) True, FlushBlocked 1 0 0], WorkerDone, True, Some (RuntimeError ''disk full''),
     (3, 3, 1, 1, 1), ([1], 0, 1), (2, 1, 2), Block, 1, (1, 1), 0)"
  by code_simp

lemma failure_eval:
  "sys_clients failure_state = [Returned (LogCall Info no_source []) True, FlushBlocked 1 0 0]"
  "sys_worker failure_state = WorkerDone" "lg_worker_failed (sys_logger failure_state) = True"
  "lg_background_failure (sys_logger failure_state) = Some (RuntimeError ''disk full'')"
  "length (hist_tickets (sys_logger failure_state)) = 1"
  using failure_view by (auto simp: sys_view_def split: if_splits)

lemma failure_reach: "logger_reach failing_ops (\<lambda>_. 0) small_logger 2 failure_state"
  unfolding failure_state_def by (rule run_small_reach) simp

theorem logger_failure_reported_witness: "lg_failure_message (sys_logger failure_state) = ''disk full'' \<and> StopRequested (sys_logger failure_state)"
  using logger_failure_reported [OF failure_reach] failure_eval by (simp add: HasWorkerFailure_def)

theorem logger_failure_frees_flush_witness:
  "\<exists>k. k \<le> 4 \<and> client_alone k 0 0 (FlushBlocked 1 0 0) (sys_logger failure_state) = (FinishOp FlushCall False, sys_logger failure_state)"
  using logger_failure_frees_flush [OF failure_reach, where t = 1 and ticket = 1 and c = 0 and seen = 0 and tid = 0 and now = 0] failure_eval
  by (simp add: HasWorkerFailure_def)

section \<open>A message accepted and never written\<close>

definition lost_message_schedule :: "logger_action list" where
  "lost_message_schedule = replicate 3 RunWorker @ Call 0 (LogCall Info no_source []) # replicate 12 (Run 0) @
     CallStop 1 # replicate 4 (Run 1) @ replicate 3 RunWorker @ [Run 1]"

definition lost_message_state :: "LogMessage list logger_sys" where
  "lost_message_state = run_small memory_ops 2 lost_message_schedule"

lemma lost_message_view:
  "sys_view lost_message_state =
    ([Returned (LogCall Info no_source []) True, StopReturned], WorkerDone, False, None,
     (2, 2, 0, 0, 0), ([], 0, 0), (1, 1, 2), Block, 1, (1, 1), 0)"
  by code_simp

lemma lost_message_eval:
  "sys_clients lost_message_state = [Returned (LogCall Info no_source []) True, StopReturned]"
  "sys_worker lost_message_state = WorkerDone"
  "lg_worker_failed (sys_logger lost_message_state) = False" "fst (lg_sink (sys_logger lost_message_state)) = []"
  "lg_taken (sys_logger lost_message_state) = 0" "length (logs (lg_slots (sys_logger lost_message_state))) = 1"
  "stat_enqueued (Stats (sys_logger lost_message_state)) = 1" "stat_pending (Stats (sys_logger lost_message_state)) = 1"
  using lost_message_view by (auto simp: sys_view_def split: if_splits)

lemma lost_message_reach: "logger_reach memory_ops (\<lambda>_. 0) small_logger 2 lost_message_state"
  unfolding lost_message_state_def by (rule run_small_reach) simp

text \<open>
  C12. \<open>Stop\<close> may lose a message.  Between the worker's last look at the queue, which finds it empty,
  and its check that the gate is closed and no call is inside, a call of \<open>Log\<close> may publish its message
  and return true and another thread may close the gate.  The worker then ends without looking again:
  the message was accepted, \<open>Stop\<close> has returned, the sink has not failed, and the message has not
  been written and never will be.
\<close>

theorem stop_may_lose_message:
  "\<exists>st. logger_reach memory_ops (\<lambda>_. 0) small_logger 2 st \<and>
     sys_clients st = [Returned (LogCall Info no_source []) True, StopReturned] \<and> sys_worker st = WorkerDone \<and>
     \<not> HasWorkerFailure (sys_logger st) \<and> fst (lg_sink (sys_logger st)) = [] \<and> stat_pending (Stats (sys_logger st)) = 1"
  using lost_message_reach lost_message_eval by (intro exI [of _ lost_message_state]) (simp add: HasWorkerFailure_def)

section \<open>Notifications that come too early\<close>

definition lost_wakeup_schedule :: "logger_action list" where
  "lost_wakeup_schedule = replicate 10 RunWorker @ Call 0 FlushCall # replicate 14 (Run 0) @ [RunWorker]"

definition lost_wakeup_state :: "LogMessage list logger_sys" where
  "lost_wakeup_state = run_small memory_ops 1 lost_wakeup_schedule"

lemma lost_wakeup_view:
  "sys_view lost_wakeup_state =
    ([FlushBlocked 1 0 0], WaitBlocked 0 time_max 1, False, None, (1, 1, 0, 0, 1), ([0], 0, 0), (1, 0, 2), Block, 1, (0, 0), 0)"
  by code_simp

lemma lost_wakeup_eval:
  "sys_clients lost_wakeup_state = [FlushBlocked 1 0 0]" "sys_worker lost_wakeup_state = WaitBlocked 0 time_max 1"
  "lg_worker_failed (sys_logger lost_wakeup_state) = False" "lg_wake_signal (sys_logger lost_wakeup_state) = 1"
  "lg_wake_notified (sys_logger lost_wakeup_state) = 1" "lg_complete_notified (sys_logger lost_wakeup_state) = 0"
  "length (queue_of (sys_logger lost_wakeup_state)) = 1"
  using lost_wakeup_view by (auto simp: sys_view_def split: if_splits)

text \<open>
  C13. A lost wakeup.  \<open>NotifyWorker\<close> does not take the mutex that the worker holds while it decides to
  wait, so a notification may fall between the decision and the wait.  Then the worker sleeps although
  \<open>wake_signal_\<close> has changed and the queue holds a flush request, and with a sink that has no deadline
  no thread can move: the call of \<open>Flush\<close> waits for as long as nobody else uses the logger.
\<close>

theorem flush_may_miss_worker:
  "\<exists>st. logger_reach memory_ops (\<lambda>_. 0) small_logger 1 st \<and> at_rest memory_ops (\<lambda>_. 0) st \<and>
     sys_clients st = [FlushBlocked 1 0 0] \<and> sys_worker st = WaitBlocked 0 time_max 1 \<and>
     lg_wake_signal (sys_logger st) \<noteq> 0 \<and> length (queue_of (sys_logger st)) = 1 \<and> \<not> HasWorkerFailure (sys_logger st)"
proof -
  have "logger_reach memory_ops (\<lambda>_. 0) small_logger 1 lost_wakeup_state"
    unfolding lost_wakeup_state_def by (rule run_small_reach) simp
  moreover have "at_rest memory_ops (\<lambda>_. 0) lost_wakeup_state" by (simp add: at_rest_def lost_wakeup_eval)
  ultimately show ?thesis
    using lost_wakeup_eval by (intro exI [of _ lost_wakeup_state]) (simp add: HasWorkerFailure_def)
qed

section \<open>Tickets that overtake each other\<close>

definition crossed_tickets_schedule :: "logger_action list" where
  "crossed_tickets_schedule = Call 0 FlushCall # replicate 5 (Run 0) @ Call 1 FlushCall # replicate 11 (Run 1) @ replicate 6 (Run 0) @
     replicate 25 RunWorker @ replicate 3 (Run 1) @ replicate 3 (Run 0)"

definition crossed_tickets_state :: "LogMessage list logger_sys" where
  "crossed_tickets_state = run_small memory_ops 2 crossed_tickets_schedule"

lemma crossed_tickets_view:
  "sys_view crossed_tickets_state =
    ([Returned FlushCall True, FlushBlocked 2 1 2], WaitBlocked 2 time_max 2, False, None,
     (2, 2, 2, 1, 2), ([0, 0], 2, 2), (2, 0, 2), Block, 0, (0, 0), 0)"
  by code_simp

lemma crossed_tickets_eval:
  "sys_clients crossed_tickets_state = [Returned FlushCall True, FlushBlocked 2 1 2]"
  "sys_worker crossed_tickets_state = WaitBlocked 2 time_max 2"
  "lg_worker_failed (sys_logger crossed_tickets_state) = False" "lg_wake_notified (sys_logger crossed_tickets_state) = 2"
  "lg_complete_notified (sys_logger crossed_tickets_state) = 2"
  "lg_flush_complete (sys_logger crossed_tickets_state) = 1" "lg_flush_request (sys_logger crossed_tickets_state) = 2"
  "queue_of (sys_logger crossed_tickets_state) = []" "hist_flushed (sys_logger crossed_tickets_state) = 2"
  using crossed_tickets_view by (auto simp: sys_view_def split: if_splits)

text \<open>
  C14. Crossed tickets.  A call of \<open>Flush\<close> may draw a later ticket and be first in the queue.  Handling
  the earlier ticket then sets \<open>flush_complete_ticket_\<close> back below the later one, so the call with the
  later ticket waits although its request has been handled, everything before it has been flushed and
  the queue is empty; no thread can move.
\<close>

theorem crossed_tickets_block_flush:
  "\<exists>st. logger_reach memory_ops (\<lambda>_. 0) small_logger 2 st \<and> at_rest memory_ops (\<lambda>_. 0) st \<and>
     sys_clients st = [Returned FlushCall True, FlushBlocked 2 1 2] \<and> queue_of (sys_logger st) = [] \<and>
     hist_flushed (sys_logger st) = 2 \<and> lg_flush_complete (sys_logger st) = 1 \<and> \<not> HasWorkerFailure (sys_logger st)"
proof -
  have "logger_reach memory_ops (\<lambda>_. 0) small_logger 2 crossed_tickets_state"
    unfolding crossed_tickets_state_def by (rule run_small_reach) simp
  moreover have "at_rest memory_ops (\<lambda>_. 0) crossed_tickets_state"
    by (auto simp: at_rest_def crossed_tickets_eval nth_Cons' less_Suc_eq)
  ultimately show ?thesis
    using crossed_tickets_eval by (intro exI [of _ crossed_tickets_state]) (simp add: HasWorkerFailure_def)
qed

end
