(* ===== verification/Logger_Ring.thy ===== *)
theory Logger_Ring
  imports Ring_Slots Logger_Schedules
begin

text \<open>
  The logger with its ring buffer: \<open>Publish\<close> and \<open>WorkerLoop\<close> of \<open>src/core/async_logger.cpp\<close> call
  \<open>TryEnqueue\<close> and \<open>TryDequeue\<close>, which run one access to shared memory at a time, interleaved with
  everything the other threads do.  The logger of \<open>Async_Logger\<close>, whose queue is a slot queue and
  whose attempts take one step each, is shown to be what this system implements.

  Of the logger's state, \<open>lg_slots\<close>, \<open>lg_taken\<close> and \<open>lg_released\<close> are history here, like the claimed and
  the delivered values of \<open>Ring_Concurrent\<close>: no step of this theory lets a thread branch on them.
\<close>

section \<open>The threads\<close>

datatype ring_client =
    Away client_pc
  | AtEnqueue logger_call QueueItem bool "(QueueItem, u64) enq_pc"

text \<open>The worker dequeues in the drain loop and once more before it waits.\<close>

datatype attempt = DrainAttempt bool bool | RetryAttempt u64

datatype ring_worker =
    WorkerAway worker_pc
  | AtDequeue attempt "(QueueItem, u64) deq_pc"

record 's ring_logger =
  rl_logger :: "'s AsyncLogger"
  rl_ring :: "(QueueItem, u64) ring"
  rl_worker :: ring_worker
  rl_clients :: "ring_client list"
  rl_claims :: "QueueItem list"
  rl_delivered :: "(nat \<times> QueueItem) list"

text \<open>What the caller does with the result; before the call returns the thread stays inside.\<close>

fun enqueue_returned :: "logger_call \<Rightarrow> QueueItem \<Rightarrow> bool \<Rightarrow> (QueueItem, u64) enq_pc \<Rightarrow> ring_client" where
  "enqueue_returned call item block_on_full (EnqDone True) = Away (PubSignal call item)"
| "enqueue_returned call item block_on_full (EnqDone False) =
     Away (if block_on_full then PubCheckFailed call item True else PubUncount call item True)"
| "enqueue_returned call item block_on_full pc = AtEnqueue call item block_on_full pc"

fun attempt_place :: "attempt \<Rightarrow> handle_place" where
  "attempt_place (DrainAttempt made_progress flush_required) = InDrain flush_required"
| "attempt_place (RetryAttempt signal) = InRetry"

fun attempt_failed :: "attempt \<Rightarrow> worker_pc" where
  "attempt_failed (DrainAttempt made_progress flush_required) =
     (if flush_required then FlushRequired else CheckDue made_progress)"
| "attempt_failed (RetryAttempt signal) = WaitDeadline signal"

fun dequeue_returned :: "attempt \<Rightarrow> (QueueItem, u64) deq_pc \<Rightarrow> ring_worker" where
  "dequeue_returned a (DeqDone None) = WorkerAway (attempt_failed a)"
| "dequeue_returned a (DeqDone (Some item)) = WorkerAway (Handle (attempt_place a) item)"
| "dequeue_returned a pc = AtDequeue a pc"

fun enqueue_history :: "(QueueItem, u64) enq_pc \<Rightarrow> (QueueItem, u64) enq_pc \<Rightarrow> QueueItem \<Rightarrow> 's AsyncLogger \<Rightarrow> 's AsyncLogger" where
  "enqueue_history (EnqCas v p) (EnqWrite v' p') item lg = queue_claim lg"
| "enqueue_history (EnqPublish p) pc item lg = queue_publish (unat p) item lg"
| "enqueue_history _ _ item lg = lg"

fun dequeue_history :: "(QueueItem, u64) deq_pc \<Rightarrow> (QueueItem, u64) deq_pc \<Rightarrow> 's AsyncLogger \<Rightarrow> 's AsyncLogger" where
  "dequeue_history (DeqCas p) (DeqRead p') lg = lg\<lparr>lg_taken := lg_taken lg + 1\<rparr>"
| "dequeue_history (DeqRelease v p) pc lg = lg\<lparr>lg_released := lg_released lg + 1\<rparr>"
| "dequeue_history _ _ lg = lg"

fun ring_client_step :: "u64 \<Rightarrow> bool \<Rightarrow> int \<Rightarrow> ring_client \<Rightarrow> 's ring_logger \<Rightarrow> ring_client \<times> 's ring_logger" where
  "ring_client_step tid spurious now (AtEnqueue call item block_on_full pc) st =
     (case enq_step spurious pc (rl_ring st) of (pc', r') \<Rightarrow>
       (enqueue_returned call item block_on_full pc',
        st\<lparr>rl_ring := r', rl_claims := rl_claims st @ claim_of pc pc',
           rl_logger := enqueue_history pc pc' item (rl_logger st)\<rparr>))"
| "ring_client_step tid spurious now (Away (PubTry call item block_on_full)) st =
     (AtEnqueue call item block_on_full (EnqLoad item), st)"
| "ring_client_step tid spurious now (Away pc) st =
     (case client_step tid spurious now pc (rl_logger st) of (pc', lg') \<Rightarrow> (Away pc', st\<lparr>rl_logger := lg'\<rparr>))"

fun ring_worker_step :: "('s \<times> io_world) sink_ops \<Rightarrow> bool \<Rightarrow> int \<Rightarrow> ring_worker \<Rightarrow> 's ring_logger \<Rightarrow> ring_worker \<times> 's ring_logger" where
  "ring_worker_step ops spurious now (AtDequeue a pc) st =
     (case deq_step spurious pc (rl_ring st) of (pc', r') \<Rightarrow>
       (dequeue_returned a pc',
        st\<lparr>rl_ring := r', rl_delivered := rl_delivered st @ delivery_of pc pc',
           rl_logger := dequeue_history pc pc' (rl_logger st)\<rparr>))"
| "ring_worker_step ops spurious now (WorkerAway (Drain made_progress flush_required)) st =
     (AtDequeue (DrainAttempt made_progress flush_required) DeqLoad, st)"
| "ring_worker_step ops spurious now (WorkerAway (Retry signal)) st = (AtDequeue (RetryAttempt signal) DeqLoad, st)"
| "ring_worker_step ops spurious now (WorkerAway pc) st =
     (case worker_step ops spurious now pc (rl_logger st) of (pc', lg') \<Rightarrow> (WorkerAway pc', st\<lparr>rl_logger := lg'\<rparr>))"

inductive ring_logger_step :: "('s \<times> io_world) sink_ops \<Rightarrow> (nat \<Rightarrow> u64) \<Rightarrow> 's ring_logger \<Rightarrow> 's ring_logger \<Rightarrow> bool"
  for ops hash where
  ring_client_calls: "t < length (rl_clients st) \<Longrightarrow> rl_clients st ! t = Away ClientIdle \<Longrightarrow> pc' \<in> {StartLoad call, StopLoad} \<Longrightarrow>
    ring_logger_step ops hash st (st\<lparr>rl_clients := (rl_clients st)[t := Away pc']\<rparr>)"
| ring_client_moves: "t < length (rl_clients st) \<Longrightarrow>
    ring_client_step (hash t) spurious now (rl_clients st ! t) st = (pc', st') \<Longrightarrow>
    ring_logger_step ops hash st (st'\<lparr>rl_clients := (rl_clients st)[t := pc']\<rparr>)"
| ring_client_returns: "t < length (rl_clients st) \<Longrightarrow> rl_clients st ! t \<in> {Away (Returned call b), Away StopReturned} \<Longrightarrow>
    ring_logger_step ops hash st (st\<lparr>rl_clients := (rl_clients st)[t := Away ClientIdle]\<rparr>)"
| ring_level_set: "ring_logger_step ops hash st (st\<lparr>rl_logger := SetLevel l (rl_logger st)\<rparr>)"
| ring_flush_level_set: "ring_logger_step ops hash st (st\<lparr>rl_logger := SetFlushLevel l (rl_logger st)\<rparr>)"
| ring_worker_moves: "ring_worker_step ops spurious now (rl_worker st) st = (pc', st') \<Longrightarrow>
    ring_logger_step ops hash st (st'\<lparr>rl_worker := pc'\<rparr>)"

text \<open>The constructor gives the queue the size of its options; \<open>moved\<close> is what a moved item becomes.\<close>

definition ring_logger_start :: "'s AsyncLogger \<Rightarrow> u64 \<Rightarrow> (QueueItem \<Rightarrow> QueueItem) \<Rightarrow> nat \<Rightarrow> 's ring_logger" where
  "ring_logger_start lg queue_size moved n =
     \<lparr>rl_logger = lg, rl_ring = ring_new default_item moved queue_size, rl_worker = WorkerAway WorkerTop,
      rl_clients = replicate n (Away ClientIdle), rl_claims = [], rl_delivered = []\<rparr>"

definition ring_logger_reach ::
  "('s \<times> io_world) sink_ops \<Rightarrow> (nat \<Rightarrow> u64) \<Rightarrow> 's AsyncLogger \<Rightarrow> (QueueItem \<Rightarrow> QueueItem) \<Rightarrow> nat \<Rightarrow> 's ring_logger \<Rightarrow> bool" where
  "ring_logger_reach ops hash lg moved n st \<longleftrightarrow> n < 2 ^ 63 \<and>
     (\<exists>name sink options. AsyncLogger_new name (Some sink) options = Inr lg \<and> unat (opt_queue_size options) \<le> 2 ^ 63 \<and>
        rtranclp (ring_logger_step ops hash) (ring_logger_start lg (opt_queue_size options) moved n) st)"

text \<open>Positions stay in the lower half of the range of \<open>std::size_t\<close>.\<close>

definition ring_logger_small :: "'s ring_logger \<Rightarrow> bool" where
  "ring_logger_small st \<longleftrightarrow> length (rl_claims st) + ring_cap (rl_ring st) < 2 ^ 63"

section \<open>The logger it implements\<close>

text \<open>
  An enqueue takes effect when it claims its position and when it publishes it, a dequeue when it
  takes its position and when it releases the cell; the other accesses are not seen.
\<close>

fun client_view :: "ring_client \<Rightarrow> client_pc" where
  "client_view (Away pc) = pc"
| "client_view (AtEnqueue call item block_on_full (EnqWrite v p)) = PubWrite call item (unat p)"
| "client_view (AtEnqueue call item block_on_full (EnqPublish p)) = PubWrite call item (unat p)"
| "client_view (AtEnqueue call item block_on_full pc) = PubTry call item block_on_full"

fun attempt_view :: "attempt \<Rightarrow> worker_pc" where
  "attempt_view (DrainAttempt made_progress flush_required) = Drain made_progress flush_required"
| "attempt_view (RetryAttempt signal) = Retry signal"

fun worker_view :: "QueueItem list \<Rightarrow> ring_worker \<Rightarrow> worker_pc" where
  "worker_view claims (WorkerAway pc) = pc"
| "worker_view claims (AtDequeue a (DeqRead p)) = DrainRelease (attempt_place a) (claims ! unat p)"
| "worker_view claims (AtDequeue a (DeqRelease item p)) = DrainRelease (attempt_place a) item"
| "worker_view claims (AtDequeue a pc) = attempt_view a"

definition logger_view :: "'s ring_logger \<Rightarrow> 's logger_sys" where
  "logger_view st = \<lparr>sys_logger = rl_logger st, sys_worker = worker_view (rl_claims st) (rl_worker st),
     sys_clients = map client_view (rl_clients st)\<rparr>"

section \<open>The invariant\<close>

text \<open>The threads as the ring sees them: the worker is number 0.\<close>

fun client_thread :: "ring_client \<Rightarrow> (QueueItem, u64) ring_thread" where
  "client_thread (Away pc) = RingIdle"
| "client_thread (AtEnqueue call item block_on_full pc) = Enqueuing pc"

fun worker_thread :: "ring_worker \<Rightarrow> (QueueItem, u64) ring_thread" where
  "worker_thread (WorkerAway pc) = RingIdle"
| "worker_thread (AtDequeue a pc) = Dequeuing pc"

fun ring_threads :: "ring_worker \<Rightarrow> ring_client list \<Rightarrow> nat \<Rightarrow> (QueueItem, u64) ring_thread" where
  "ring_threads w cs 0 = worker_thread w"
| "ring_threads w cs (Suc t) = (if t < length cs then client_thread (cs ! t) else RingIdle)"

text \<open>What a thread inside a call of the queue has in its hands, and that it does not stay after the end.\<close>

fun client_ring_ok :: "QueueItem list \<Rightarrow> ring_client \<Rightarrow> bool" where
  "client_ring_ok claims (Away pc) \<longleftrightarrow> write_position pc = None"
| "client_ring_ok claims (AtEnqueue call item b (EnqLoad v)) \<longleftrightarrow> v = item"
| "client_ring_ok claims (AtEnqueue call item b (EnqSeq v p)) \<longleftrightarrow> v = item"
| "client_ring_ok claims (AtEnqueue call item b (EnqCas v p)) \<longleftrightarrow> v = item"
| "client_ring_ok claims (AtEnqueue call item b (EnqWrite v p)) \<longleftrightarrow> v = item"
| "client_ring_ok claims (AtEnqueue call item b (EnqPublish p)) \<longleftrightarrow> unat p < length claims \<and> claims ! unat p = item"
| "client_ring_ok claims (AtEnqueue call item b pc) \<longleftrightarrow> False"

fun worker_ring_ok :: "nat \<Rightarrow> ring_worker \<Rightarrow> bool" where
  "worker_ring_ok taken (WorkerAway pc) \<longleftrightarrow> unreleased pc = 0"
| "worker_ring_ok taken (AtDequeue a (DeqRead p)) \<longleftrightarrow> Suc (unat p) = taken"
| "worker_ring_ok taken (AtDequeue a (DeqRelease item p)) \<longleftrightarrow> Suc (unat p) = taken"
| "worker_ring_ok taken (AtDequeue a (DeqDone x)) \<longleftrightarrow> False"
| "worker_ring_ok taken (AtDequeue a DeqUndefined) \<longleftrightarrow> False"
| "worker_ring_ok taken (AtDequeue a pc) \<longleftrightarrow> True"

definition ring_logger_inv :: "'s ring_logger \<Rightarrow> bool" where
  "ring_logger_inv st \<longleftrightarrow>
     ring_inv (rl_ring st) (ring_threads (rl_worker st) (rl_clients st)) (rl_claims st) (lg_taken (rl_logger st)) (rl_delivered st) \<and>
     ring_cap (rl_ring st) = lg_capacity (rl_logger st) \<and>
     lg_slots (rl_logger st) = map Some (take (lg_taken (rl_logger st)) (rl_claims st)) @
       ring_slots (rl_ring st) (rl_claims st) (lg_taken (rl_logger st)) \<and>
     list_all (client_ring_ok (rl_claims st)) (rl_clients st) \<and>
     worker_ring_ok (lg_taken (rl_logger st)) (rl_worker st)"

lemma ring_threads_update:
  "t < length cs \<Longrightarrow> ring_threads w (cs[t := c]) = (ring_threads w cs)(Suc t := client_thread c)"
  "ring_threads w' cs = (ring_threads w cs)(0 := worker_thread w')"
  by (rule ext, rename_tac i, case_tac i; simp add: nth_list_update)+

lemma ring_done_inv:
  "ring_inv r (th(t := pc)) cl d dl \<Longrightarrow> prod_pos pc = None \<Longrightarrow> cons_pos pc = None \<Longrightarrow> ring_inv r (th(t := RingIdle)) cl d dl"
  using inv_move [of r "th(t := pc)" cl d dl t RingIdle] by simp

lemma ring_logger_step_mono:
  assumes "ring_logger_step ops hash st st'"
  shows "ring_cap (rl_ring st') = ring_cap (rl_ring st) \<and> length (rl_claims st) \<le> length (rl_claims st')"
  using assms
proof cases
  case (ring_client_moves t spurious now pc' st1)
  then show ?thesis
    by (cases "(hash t, spurious, now, rl_clients st ! t, st)" rule: ring_client_step.cases)
      (auto simp: step_cap split: prod.splits)
next
  case (ring_worker_moves spurious now pc' st1)
  then show ?thesis
    by (cases "(ops, spurious, now, rl_worker st, st)" rule: ring_worker_step.cases)
      (auto simp: step_cap split: prod.splits)
qed simp_all


lemma only_worker_reads: "cons_pos (ring_threads w cs u) = Some q \<Longrightarrow> u = 0 \<and> cons_pos (worker_thread w) = Some q"
proof (cases u)
  case (Suc t)
  assume "cons_pos (ring_threads w cs u) = Some q"
  with Suc show ?thesis by (cases "cs ! t") (simp_all split: if_splits)
qed simp

lemma worker_reading:
  assumes "worker_ring_ok d w"
  shows "unreleased (worker_view cl w) = (if cons_pos (worker_thread w) = None then 0 else 1)"
    and "cons_pos (worker_thread w) = Some q \<Longrightarrow> Suc q = d"
  using assms by (cases "(d, w)" rule: worker_ring_ok.cases; simp; case_tac a; simp)+

lemma ring_ok_more:
  "client_ring_ok cl c \<Longrightarrow> client_ring_ok (cl @ vs) c"
  "worker_ring_ok d w \<Longrightarrow> d \<le> length cl \<Longrightarrow> worker_view (cl @ vs) w = worker_view cl w"
  by (cases "(cl, c)" rule: client_ring_ok.cases; simp add: nth_append)
    (cases "(d, w)" rule: worker_ring_ok.cases; auto simp: nth_append)

section \<open>The queue as the clients find it\<close>

lemma full_when_refused:
  assumes inv: "ring_inv r (ring_threads w cs) cl d dl" and w: "worker_ring_ok d w"
    and Q: "queue_inv lg (worker_view cl w)" and lg: "lg_taken lg = d" "lg_capacity lg = ring_cap r" "length (lg_slots lg) = length cl"
    and p: "p \<le> length cl" "seq_at r p < p"
  shows "queue_full lg"
proof -
  have rel: "d = lg_released lg + unreleased (worker_view cl w)" using Q lg by (simp add: queue_inv_def)
  from refused_enqueue [OF inv p] have cap: "ring_cap r \<le> length cl"
    and c: "length cl = d + ring_cap r \<or> (\<exists>u. cons_pos (ring_threads w cs u) = Some (length cl - ring_cap r))" by blast+
  from c show ?thesis
  proof (elim disjE exE)
    fix u assume "cons_pos (ring_threads w cs u) = Some (length cl - ring_cap r)"
    then have "cons_pos (worker_thread w) = Some (length cl - ring_cap r)" using only_worker_reads by blast
    with worker_reading [OF w] have "Suc (length cl - ring_cap r) = d" "unreleased (worker_view cl w) = 1" by simp_all
    then show ?thesis using rel cap by (simp add: queue_full_def lg)
  qed (use rel in \<open>simp add: queue_full_def lg\<close>)
qed

lemma room_when_claimed:
  assumes inv: "ring_inv r (ring_threads w cs) (cl @ [v]) d dl" and w: "worker_ring_ok d w"
    and Q: "queue_inv lg (worker_view cl w)" and lg: "lg_taken lg = d" "lg_capacity lg = ring_cap r" "length (lg_slots lg) = length cl"
  shows "\<not> queue_full lg"
proof -
  have rel: "d = lg_released lg + unreleased (worker_view cl w)" using Q lg by (simp add: queue_inv_def)
  show ?thesis
  proof (cases "cons_pos (worker_thread w)")
    case None
    then have "unreleased (worker_view cl w) = 0" using worker_reading(1) [OF w] by simp
    then show ?thesis using rel ring_invD(5) [OF inv] by (simp add: queue_full_def lg)
  next
    case (Some q)
    then have "cons_pos (ring_threads w cs 0) = Some q" by simp
    from ring_invD(9) [OF inv this] have "length cl < q + ring_cap r" by simp
    moreover have "unreleased (worker_view cl w) = 1" "Suc q = d" using worker_reading [OF w] Some by simp_all
    ultimately show ?thesis using rel by (simp add: queue_full_def lg)
  qed
qed

lemma client_access:
  fixes r r' :: "(QueueItem, u64) ring" and lg :: "'s AsyncLogger" and call item b pc pc' cl
  defines "c' \<equiv> enqueue_returned call item b pc'" and "cl' \<equiv> cl @ claim_of pc pc'" and "lg' \<equiv> enqueue_history pc pc' item lg"
  assumes inv: "ring_inv r (ring_threads w cs) cl d dl" and t: "t < length cs" "cs ! t = AtEnqueue call item b pc"
    and ok: "client_ring_ok cl (AtEnqueue call item b pc)" and w: "worker_ring_ok d w"
    and Q: "queue_inv lg (worker_view cl w)" and lg: "lg_taken lg = d" "lg_capacity lg = ring_cap r"
    and slots: "lg_slots lg = map Some (take d cl) @ ring_slots r cl d"
    and run: "enq_step spurious pc r = (pc', r')" and small: "length cl + ring_cap r < 2 ^ 63"
  shows "ring_inv r' (ring_threads w (cs[t := c'])) cl' d dl" (is ?inv)
    and "lg_slots lg' = map Some (take d cl') @ ring_slots r' cl' d" (is ?slots)
    and "client_ring_ok cl' c'" (is ?ok)
    and "(client_view c' = client_view (AtEnqueue call item b pc) \<and> lg' = lg) \<or>
      client_step tid False now (client_view (AtEnqueue call item b pc)) lg = (client_view c', lg')" (is ?view)
proof -
  note I = ring_invD [OF inv]
  have th: "ring_threads w cs (Suc t) = Enqueuing pc" using t by simp
  have small': "length cl + ring_cap r < 2 ^ (LENGTH(64) - 1)" using small by simp
  have len: "length (lg_slots lg) = length cl" using slots I(4) by simp
  have inv': "ring_inv r' ((ring_threads w cs)(Suc t := Enqueuing pc')) cl' d dl"
    using enqueue_access_inv [OF inv th run small'] by (simp add: cl'_def)
  have "client_thread c' = Enqueuing pc' \<or> (\<exists>x. pc' = EnqDone x \<and> client_thread c' = RingIdle)"
    unfolding c'_def by (cases "(call, item, b, pc')" rule: enqueue_returned.cases) auto
  with inv' show ?inv unfolding ring_threads_update(1) [OF t(1)] by (auto dest: ring_done_inv)
  show ?slots
  proof (cases rule: enqueue_slots_cases [OF inv th run small', case_names same claim publish])
    case same
    then have "lg' = lg" using same unfolding lg'_def
      by (cases "(pc, pc', item, lg)" rule: enqueue_history.cases) auto
    then show ?thesis using same slots by (simp add: cl'_def)
  next
    case (claim v p)
    then show ?thesis using slots I(4) by (simp add: cl'_def lg'_def queue_claim_def slot_claim_def)
  next
    case (publish p)
    then have "cl ! unat p = item" using ok by simp
    then show ?thesis using publish slots I(4)
      by (simp add: cl'_def lg'_def queue_publish_def slot_publish_def list_update_append)
  qed
  have K: "knows r' cl' d dl (Enqueuing pc')" using ring_invD(12) [OF inv', of "Suc t"] by simp
  have W: "unat p < length cl" if "pc = EnqWrite v p" for v p using I(8) [of "Suc t"] th that by simp
  have V: "cl ! unat p = v" if "pc = EnqWrite v p" for v p using I(12) [of "Suc t"] th that by simp
  show ?ok
    using ok run K W V unfolding c'_def cl'_def
    by (cases pc) (auto split: if_splits option.splits)
  show ?view
  proof (cases pc)
    case (EnqSeq v p)
    then have p: "unat p \<le> length cl" using I(12) [of "Suc t"] th by simp
    show ?thesis
    proof (cases "seq_at r (unat p) < unat p")
      case True
      then have "queue_full lg" using full_when_refused [OF inv w Q lg len p] by blast
      then show ?thesis using True EnqSeq run enq_seq_cases [OF inv small' p]
        by (auto simp: c'_def lg'_def)
    next
      case False
      then show ?thesis using EnqSeq run enq_seq_cases [OF inv small' p]
        by (auto simp: c'_def lg'_def split: if_splits)
    qed
  next
    case (EnqCas v p)
    show ?thesis
    proof (cases rule: enqueue_slots_cases [OF inv th run small', case_names same claim publish])
      case same
      then show ?thesis using EnqCas run by (auto simp: c'_def lg'_def split: if_splits)
    next
      case (claim v p)
      have "(ring_threads w cs)(Suc t := Enqueuing pc') = ring_threads w (cs[t := AtEnqueue call item b pc'])"
        using ring_threads_update(1) [OF t(1), of w "AtEnqueue call item b pc'"] by simp
      with inv' claim have "ring_inv r' (ring_threads w (cs[t := AtEnqueue call item b pc'])) (cl @ [v]) d dl"
        by (simp add: cl'_def)
      from room_when_claimed [OF this w Q lg(1) _ len] lg(2) step_cap(1) [OF run]
      have "\<not> queue_full lg" by simp
      then show ?thesis using claim len by (simp add: c'_def lg'_def)
    qed (use EnqCas in simp)
  qed (use run ok in \<open>auto simp: c'_def lg'_def\<close>)
qed


section \<open>The queue as the worker finds it\<close>

lemma worker_access:
  fixes r r' :: "(QueueItem, u64) ring" and lg :: "'s AsyncLogger" and a pc pc'
  defines "w' \<equiv> dequeue_returned a pc'" and "lg' \<equiv> dequeue_history pc pc' lg"
  assumes inv: "ring_inv r (ring_threads (AtDequeue a pc) cs) cl d dl" and ok: "worker_ring_ok d (AtDequeue a pc)"
    and lg: "lg_taken lg = d"
    and slots: "lg_slots lg = map Some (take d cl) @ ring_slots r cl d"
    and run: "deq_step spurious pc r = (pc', r')" and small: "length cl + ring_cap r < 2 ^ 63"
  shows "ring_inv r' (ring_threads w' cs) cl (lg_taken lg') (dl @ delivery_of pc pc')" (is ?inv)
    and "lg_slots lg' = map Some (take (lg_taken lg') cl) @ ring_slots r' cl (lg_taken lg')" (is ?slots)
    and "worker_ring_ok (lg_taken lg') w'" (is ?ok)
    and "(worker_view cl w' = worker_view cl (AtDequeue a pc) \<and> lg' = lg) \<or>
      worker_step ops False now (worker_view cl (AtDequeue a pc)) lg = (worker_view cl w', lg')" (is ?view)
proof -
  note I = ring_invD [OF inv]
  let ?th = "ring_threads (AtDequeue a pc) cs"
  have th: "?th 0 = Dequeuing pc" by simp
  have small': "length cl + ring_cap r < 2 ^ (LENGTH(64) - 1)" using small by simp
  have len: "length (lg_slots lg) = length cl" using slots I(4) by simp
  have taken: "lg_taken lg' = d + take_of pc pc'"
    unfolding lg'_def using lg by (cases "(pc, pc', lg)" rule: dequeue_history.cases) auto
  have inv': "ring_inv r' (?th(0 := Dequeuing pc')) cl (lg_taken lg') (dl @ delivery_of pc pc')"
    using dequeue_access_inv [OF inv th run small'] by (simp add: taken)
  have "worker_thread w' = Dequeuing pc' \<or> (\<exists>x. pc' = DeqDone x \<and> worker_thread w' = RingIdle)"
    unfolding w'_def by (cases "(a, pc')" rule: dequeue_returned.cases) auto
  moreover have "ring_threads w' cs = ?th(0 := worker_thread w')" by (rule ring_threads_update(2))
  ultimately show ?inv using inv' by (auto dest: ring_done_inv)
  have S: "lg_slots lg' = lg_slots lg"
    unfolding lg'_def by (cases "(pc, pc', lg)" rule: dequeue_history.cases) auto
  show ?slots
  proof (cases rule: dequeue_slots_cases [OF inv th run small', case_names same taken])
    case same
    then show ?thesis using slots S taken by simp
  next
    case (taken p)
    then show ?thesis using slots S \<open>lg_taken lg' = d + take_of pc pc'\<close> by (simp add: take_Suc_conv_app_nth)
  qed
  have K: "knows r' cl (lg_taken lg') (dl @ delivery_of pc pc') (Dequeuing pc')"
    using ring_invD(12) [OF inv', of 0] by simp
  have head: "unat p = d \<and> d < length cl \<and> queue_head lg = Some (cl ! d)" if c: "pc = DeqCas p" "pc' = DeqRead p" for p
  proof (cases rule: dequeue_slots_cases [OF inv th run small', case_names same taken])
    case (taken q)
    then have "lg_slots lg ! d = Some (cl ! d)" using slots I(4) by (simp add: nth_append)
    then show ?thesis using taken c len by (simp add: queue_head_Some lg)
  qed (use c in simp)
  have "unreleased (attempt_failed a) = 0" by (cases a) simp_all
  then show ?ok
    using ok run K head taken unfolding w'_def
    by (cases pc) (auto split: if_splits option.splits)
  show ?view
  proof (cases pc)
    case (DeqSeq p)
    then have p: "unat p \<le> d" using I(12) [of 0] by simp
    show ?thesis
    proof (cases "seq_at r (unat p) < Suc (unat p)")
      case True
      from refused_dequeue [OF inv p True] have "d = length cl \<or> seq_at r d = d"
        using I(8) [of _ d] by auto
      then have "queue_head lg = None"
        using slots lg len by (auto simp: nth_append queue_head_Some nth_ring_slots simp flip: not_Some_eq)
      then show ?thesis using True DeqSeq run deq_seq_cases [OF inv small' p]
        by (cases a) (auto simp: w'_def lg'_def)
    next
      case False
      then show ?thesis using DeqSeq run deq_seq_cases [OF inv small' p]
        by (auto simp: w'_def lg'_def split: if_splits)
    qed
  next
    case (DeqCas p)
    show ?thesis
    proof (cases "pc' = DeqRead p")
      case True
      then show ?thesis using DeqCas head [OF DeqCas True] by (cases a) (simp_all add: w'_def lg'_def)
    next
      case False
      then show ?thesis using DeqCas run by (auto simp: w'_def lg'_def split: if_splits)
    qed
  next
    case (DeqRead p)
    then show ?thesis using run K by (auto simp: w'_def lg'_def)
  qed (use run ok in \<open>auto simp: w'_def lg'_def\<close>)
qed


section \<open>The simulation\<close>

fun enqueues :: "client_pc \<Rightarrow> bool" where
  "enqueues (PubTry call item block_on_full) \<longleftrightarrow> True"
| "enqueues _ \<longleftrightarrow> False"

fun dequeues :: "worker_pc \<Rightarrow> bool" where
  "dequeues (Drain made_progress flush_required) \<longleftrightarrow> True"
| "dequeues (Retry signal) \<longleftrightarrow> True"
| "dequeues _ \<longleftrightarrow> False"

lemma away_steps:
  "\<not> enqueues pc \<Longrightarrow> ring_client_step tid spurious now (Away pc) st =
     (case client_step tid spurious now pc (rl_logger st) of (pc', lg') \<Rightarrow> (Away pc', st\<lparr>rl_logger := lg'\<rparr>))"
  "\<not> dequeues w \<Longrightarrow> ring_worker_step ops spurious now (WorkerAway w) st =
     (case worker_step ops spurious now w (rl_logger st) of (w', lg') \<Rightarrow> (WorkerAway w', st\<lparr>rl_logger := lg'\<rparr>))"
  by (cases pc; simp) (cases w; simp)

lemma client_step_away:
  assumes "client_step tid spurious now pc lg = (pc', lg')" and "write_position pc = None" and "\<not> enqueues pc"
  shows "lg_slots lg' = lg_slots lg \<and> write_position pc' = None"
  using client_step_slots [OF assms(1)] assms(2,3) by auto

lemma worker_step_away:
  assumes "worker_step ops spurious now w lg = (w', lg')" and "\<not> dequeues w" and "unreleased w = 0"
  shows "unreleased w' = 0 \<and> lg_taken lg' = lg_taken lg \<and> lg_slots lg' = lg_slots lg \<and> lg_capacity lg' = lg_capacity lg"
proof -
  have "unreleased (handled pl b) = 0" "unreleased (after_progress b) = 0" for pl b
    by (cases pl; simp add: after_progress_def)+
  then show ?thesis
    using assms by (cases w) (auto simp: sink_step_defs split: if_splits option.splits prod.splits sum.splits)
qed

text \<open>A client that stays away from the queue, or is about to call it, owns no position.\<close>

lemma ring_inv_away:
  assumes "ring_inv r (ring_threads w cs) cl d dl" and t: "t < length cs" "cs ! t = Away pc"
    and k: "prod_pos (client_thread c) = None" "cons_pos (client_thread c) = None" "knows r cl d dl (client_thread c)"
  shows "ring_inv r (ring_threads w (cs[t := c])) cl d dl"
  unfolding ring_threads_update(1) [OF t(1)]
  by (rule inv_move [OF assms(1)]) (simp_all add: t k)

lemma client_keeps_ring:
  assumes inv: "ring_logger_inv st" and t: "t < length (rl_clients st)" "rl_clients st ! t = Away pc"
    and k: "prod_pos (client_thread c) = None" "cons_pos (client_thread c) = None"
      "knows (rl_ring st) (rl_claims st) (lg_taken lg') (rl_delivered st) (client_thread c)" "client_ring_ok (rl_claims st) c"
    and lg: "lg_slots lg' = lg_slots (rl_logger st)" "lg_taken lg' = lg_taken (rl_logger st)" "lg_capacity lg' = lg_capacity (rl_logger st)"
  shows "ring_logger_inv (st\<lparr>rl_logger := lg', rl_clients := (rl_clients st)[t := c]\<rparr>)"
  using inv ring_inv_away [OF _ t] k list_all_update [of "client_ring_ok (rl_claims st)" "rl_clients st" c t]
  by (simp add: ring_logger_inv_def lg)

lemma view_client:
  "t < length (rl_clients st) \<Longrightarrow> logger_view (st\<lparr>rl_logger := lg', rl_clients := (rl_clients st)[t := c]\<rparr>) =
    (logger_view st)\<lparr>sys_logger := lg', sys_clients := (sys_clients (logger_view st))[t := client_view c]\<rparr>"
  by (simp add: logger_view_def map_update)

lemma client_simulates:
  assumes inv: "ring_logger_inv st" and t: "t < length (rl_clients st)"
    and run: "ring_client_step (hash t) spurious now (rl_clients st ! t) st = (c', st')"
    and Q: "queue_inv (rl_logger st) (worker_view (rl_claims st) (rl_worker st))" and small: "ring_logger_small st"
  shows "ring_logger_inv (st'\<lparr>rl_clients := (rl_clients st)[t := c']\<rparr>) \<and>
    (logger_view (st'\<lparr>rl_clients := (rl_clients st)[t := c']\<rparr>) = logger_view st \<or>
     logger_step ops hash (logger_view st) (logger_view (st'\<lparr>rl_clients := (rl_clients st)[t := c']\<rparr>)))"
proof (cases "rl_clients st ! t")
  case (Away pc)
  have ok: "write_position pc = None" using inv t Away by (auto simp: ring_logger_inv_def list_all_length)
  show ?thesis
  proof (cases "enqueues pc")
    case True
    then obtain call item b where pc: "pc = PubTry call item b" by (cases pc) auto
    then have c': "c' = AtEnqueue call item b (EnqLoad item)" "st' = st" using run Away by auto
    have "client_view c' = client_view (rl_clients st ! t)" using c' pc Away by simp
    then have "logger_view (st\<lparr>rl_clients := (rl_clients st)[t := c']\<rparr>) = logger_view st"
      using t by (simp add: logger_view_def map_update list_update_same_conv)
    moreover have "ring_logger_inv (st\<lparr>rl_logger := rl_logger st, rl_clients := (rl_clients st)[t := c']\<rparr>)"
      by (rule client_keeps_ring [OF inv t Away]) (simp_all add: c')
    ultimately show ?thesis using c' by simp
  next
    case False
    obtain pc' lg' where s: "client_step (hash t) spurious now pc (rl_logger st) = (pc', lg')" by fastforce
    then have c': "c' = Away pc'" "st' = st\<lparr>rl_logger := lg'\<rparr>" using run Away by (auto simp: away_steps(1) [OF False])
    have "ring_logger_inv (st\<lparr>rl_logger := lg', rl_clients := (rl_clients st)[t := c']\<rparr>)"
      using client_step_away [OF s ok False] step_keeps_sizes [OF s]
      by (intro client_keeps_ring [OF inv t Away]) (simp_all add: c')
    moreover have "logger_step ops hash (logger_view st)
        ((logger_view st)\<lparr>sys_logger := lg', sys_clients := (sys_clients (logger_view st))[t := pc']\<rparr>)"
      using t Away s by (intro client_moves [where spurious = spurious and now = now]) (simp_all add: logger_view_def)
    ultimately show ?thesis using view_client [OF t, of c' lg'] c' by simp
  qed
next
  case (AtEnqueue call item b pc)
  obtain pc' r' where s: "enq_step spurious pc (rl_ring st) = (pc', r')" by fastforce
  let ?lg = "rl_logger st" and ?cl = "rl_claims st"
  let ?lg' = "enqueue_history pc pc' item ?lg" and ?cl' = "?cl @ claim_of pc pc'"
  have c': "c' = enqueue_returned call item b pc'"
    and st': "st' = st\<lparr>rl_ring := r', rl_claims := ?cl', rl_logger := ?lg'\<rparr>" using run AtEnqueue s by auto
  have I: "ring_inv (rl_ring st) (ring_threads (rl_worker st) (rl_clients st)) ?cl (lg_taken ?lg) (rl_delivered st)"
      "worker_ring_ok (lg_taken ?lg) (rl_worker st)" "lg_capacity ?lg = ring_cap (rl_ring st)"
      "lg_slots ?lg = map Some (take (lg_taken ?lg) ?cl) @ ring_slots (rl_ring st) ?cl (lg_taken ?lg)"
      "list_all (client_ring_ok ?cl) (rl_clients st)"
    using inv by (simp_all add: ring_logger_inv_def)
  have ok: "client_ring_ok ?cl (AtEnqueue call item b pc)" using I(5) t AtEnqueue by (auto simp: list_all_length)
  note A = client_access [OF I(1) t AtEnqueue ok I(2) Q refl I(3,4) s small [unfolded ring_logger_small_def], folded c']
  have w: "worker_view ?cl' (rl_worker st) = worker_view ?cl (rl_worker st)"
    using I(2) ring_invD(4) [OF I(1)] by (rule ring_ok_more(2))
  have "list_all (client_ring_ok ?cl') (rl_clients st)" using I(5) ring_ok_more(1) by (fastforce simp: list_all_iff)
  moreover have "lg_taken ?lg' = lg_taken ?lg" "lg_capacity ?lg' = lg_capacity ?lg"
    by (cases "(pc, pc', item, ?lg)" rule: enqueue_history.cases; simp add: queue_claim_def queue_publish_def)+
  ultimately have "ring_logger_inv (st'\<lparr>rl_clients := (rl_clients st)[t := c']\<rparr>)"
    using A(1-3) I(2,3) step_cap(1) [OF s] by (simp add: ring_logger_inv_def st' list_all_update)
  moreover have "logger_view (st'\<lparr>rl_clients := (rl_clients st)[t := c']\<rparr>) =
      (logger_view st)\<lparr>sys_logger := ?lg', sys_clients := (sys_clients (logger_view st))[t := client_view c']\<rparr>"
    using w by (simp add: logger_view_def map_update st')
  moreover have "(sys_clients (logger_view st))[t := client_view (AtEnqueue call item b pc)] = sys_clients (logger_view st)"
    using t AtEnqueue by (simp add: logger_view_def list_update_same_conv)
  moreover have "logger_step ops hash (logger_view st)
      ((logger_view st)\<lparr>sys_logger := ?lg', sys_clients := (sys_clients (logger_view st))[t := client_view c']\<rparr>)"
    if "client_step (hash t) False now (client_view (AtEnqueue call item b pc)) ?lg = (client_view c', ?lg')"
    using t AtEnqueue that by (intro client_moves [where spurious = False and now = now]) (simp_all add: logger_view_def)
  ultimately show ?thesis using A(4) [of "hash t" now] by (auto simp: logger_view_def)
qed

lemma worker_simulates:
  assumes inv: "ring_logger_inv st" and run: "ring_worker_step ops spurious now (rl_worker st) st = (w', st')"
    and small: "ring_logger_small st"
  shows "ring_logger_inv (st'\<lparr>rl_worker := w'\<rparr>) \<and>
    (logger_view (st'\<lparr>rl_worker := w'\<rparr>) = logger_view st \<or>
     logger_step ops hash (logger_view st) (logger_view (st'\<lparr>rl_worker := w'\<rparr>)))"
proof (cases "rl_worker st")
  case (WorkerAway pc)
  note I = inv [unfolded ring_logger_inv_def]
  have idle: "ring_threads w (rl_clients st) = ring_threads (WorkerAway pc) (rl_clients st)" if "worker_thread w = RingIdle" for w
    using that by (simp add: ring_threads_update(2) [of w _ "WorkerAway pc"] fun_upd_idem)
  show ?thesis
  proof (cases "dequeues pc")
    case True
    then obtain a where a: "w' = AtDequeue a DeqLoad" "st' = st" "attempt_view a = pc"
      using run WorkerAway by (cases pc) auto
    have "ring_inv (rl_ring st) (ring_threads w' (rl_clients st)) (rl_claims st) (lg_taken (rl_logger st)) (rl_delivered st)"
      unfolding ring_threads_update(2) [of w' _ "WorkerAway pc"]
      by (rule inv_move) (use I WorkerAway a in simp_all)
    then show ?thesis using I WorkerAway a by (simp add: ring_logger_inv_def logger_view_def)
  next
    case False
    obtain pc' lg' where s: "worker_step ops spurious now pc (rl_logger st) = (pc', lg')" by fastforce
    then have w': "w' = WorkerAway pc'" "st' = st\<lparr>rl_logger := lg'\<rparr>"
      using run WorkerAway by (auto simp: away_steps(2) [OF False])
    have "unreleased pc = 0" using I WorkerAway by simp
    from worker_step_away [OF s False this] have "ring_logger_inv (st'\<lparr>rl_worker := w'\<rparr>)"
      using I WorkerAway idle [of w'] by (simp add: ring_logger_inv_def w')
    moreover have "logger_step ops hash (logger_view st) (logger_view (st'\<lparr>rl_worker := w'\<rparr>))"
      using worker_moves [where st = "logger_view st" and ops = ops] s WorkerAway by (simp add: logger_view_def w')
    ultimately show ?thesis by blast
  qed
next
  case (AtDequeue a pc)
  obtain pc' r' where s: "deq_step spurious pc (rl_ring st) = (pc', r')" by fastforce
  let ?lg = "rl_logger st"
  let ?lg' = "dequeue_history pc pc' ?lg"
  have I: "ring_inv (rl_ring st) (ring_threads (AtDequeue a pc) (rl_clients st)) (rl_claims st) (lg_taken ?lg) (rl_delivered st)"
      "worker_ring_ok (lg_taken ?lg) (AtDequeue a pc)"
      "lg_slots ?lg = map Some (take (lg_taken ?lg) (rl_claims st)) @ ring_slots (rl_ring st) (rl_claims st) (lg_taken ?lg)"
      "ring_cap (rl_ring st) = lg_capacity ?lg" "list_all (client_ring_ok (rl_claims st)) (rl_clients st)"
    using inv AtDequeue by (simp_all add: ring_logger_inv_def)
  have w': "w' = dequeue_returned a pc'"
    and st': "st' = st\<lparr>rl_ring := r', rl_delivered := rl_delivered st @ delivery_of pc pc', rl_logger := ?lg'\<rparr>"
    using run AtDequeue s by auto
  note A = worker_access [OF I(1,2) refl I(3) s small [unfolded ring_logger_small_def], folded w']
  have "lg_capacity ?lg' = lg_capacity ?lg" by (cases "(pc, pc', ?lg)" rule: dequeue_history.cases) simp_all
  then have "ring_logger_inv (st'\<lparr>rl_worker := w'\<rparr>)"
    using A(1-3) I(4,5) step_cap(2) [OF s] by (simp add: ring_logger_inv_def st')
  moreover have "logger_step ops hash (logger_view st) (logger_view (st'\<lparr>rl_worker := w'\<rparr>))"
    if "worker_step ops False now (worker_view (rl_claims st) (AtDequeue a pc)) ?lg = (worker_view (rl_claims st) w', ?lg')"
    using worker_moves [where st = "logger_view st" and ops = ops] that AtDequeue by (simp add: logger_view_def st')
  ultimately show ?thesis using A(4) [of ops now] AtDequeue by (auto simp: logger_view_def st')
qed


lemma ring_logger_simulates:
  assumes step: "ring_logger_step ops hash st st'" and inv: "ring_logger_inv st"
    and Q: "queue_inv (rl_logger st) (worker_view (rl_claims st) (rl_worker st))" and small: "ring_logger_small st"
  shows "ring_logger_inv st' \<and> (logger_view st' = logger_view st \<or> logger_step ops hash (logger_view st) (logger_view st'))"
  using step
proof cases
  case (ring_client_calls t pc' call)
  have "ring_logger_inv (st\<lparr>rl_logger := rl_logger st, rl_clients := (rl_clients st)[t := Away pc']\<rparr>)"
    by (rule client_keeps_ring [OF inv ring_client_calls(2,3)]) (use ring_client_calls(4) in auto)
  moreover have "logger_step ops hash (logger_view st) (logger_view st')"
    using client_calls [of t "logger_view st" pc' call] ring_client_calls by (simp add: logger_view_def map_update)
  ultimately show ?thesis using ring_client_calls(1) by simp
next
  case (ring_client_moves t spurious now pc' st1)
  then show ?thesis using client_simulates [OF inv _ _ Q small] by blast
next
  case (ring_client_returns t call b)
  then obtain pc where pc: "rl_clients st ! t = Away pc" "pc \<in> {Returned call b, StopReturned}" by auto
  have "ring_logger_inv (st\<lparr>rl_logger := rl_logger st, rl_clients := (rl_clients st)[t := Away ClientIdle]\<rparr>)"
    by (rule client_keeps_ring [OF inv ring_client_returns(2) pc(1)]) simp_all
  moreover have "logger_step ops hash (logger_view st) (logger_view st')"
    using client_returns [of t "logger_view st" call b] ring_client_returns(1,2) pc by (simp add: logger_view_def map_update)
  ultimately show ?thesis using ring_client_returns(1) by simp
next
  case (ring_worker_moves spurious now pc' st1)
  then show ?thesis using worker_simulates [OF inv _ small] by blast
next
  case (ring_level_set l)
  then show ?thesis using inv level_set [of ops hash "logger_view st" l]
    by (simp add: ring_logger_inv_def logger_view_def SetLevel_def)
next
  case (ring_flush_level_set l)
  then show ?thesis using inv flush_level_set [of ops hash "logger_view st" l]
    by (simp add: ring_logger_inv_def logger_view_def SetFlushLevel_def)
qed

lemma ring_logger_start_inv:
  assumes "AsyncLogger_new name (Some sink) options = Inr lg" and size: "unat (opt_queue_size options) \<le> 2 ^ 63"
  shows "ring_logger_inv (ring_logger_start lg (opt_queue_size options) moved n)"
proof -
  have "ring_threads (WorkerAway WorkerTop) (replicate n (Away ClientIdle)) i = RingIdle" for i by (cases i) simp_all
  then have "ring_threads (WorkerAway WorkerTop) (replicate n (Away ClientIdle)) = (\<lambda>_. RingIdle)" by (rule ext)
  moreover have "ring_shape (ring_new default_item moved (opt_queue_size options))" using size by (intro ring_new_shape) simp_all
  from ring_new_inv [OF this] have "ring_inv (ring_new default_item moved (opt_queue_size options)) (\<lambda>_. RingIdle) [] 0 []" .
  ultimately show ?thesis
    using assms by (auto simp: ring_logger_inv_def ring_logger_start_def AsyncLogger_new_def ring_slots_def
      ring_cap_def ring_new_def Let_def list_all_iff)
qed

lemma ring_logger_reach_inv:
  assumes "ring_logger_reach ops hash lg moved n st" and "ring_logger_small st"
  shows "ring_logger_inv st \<and> logger_reach ops hash lg n (logger_view st)"
proof -
  obtain name sink options where new: "AsyncLogger_new name (Some sink) options = Inr lg" "unat (opt_queue_size options) \<le> 2 ^ 63"
    and n: "n < 2 ^ 63" and path: "rtranclp (ring_logger_step ops hash) (ring_logger_start lg (opt_queue_size options) moved n) st"
    using assms(1) unfolding ring_logger_reach_def by blast
  have fresh: "fresh_logger lg" using new unfolding fresh_logger_def by blast
  from path assms(2) show ?thesis
  proof (induction rule: rtranclp_induct)
    case base
    then show ?case using ring_logger_start_inv [OF new] fresh n
      by (simp add: logger_reach_def logger_view_def ring_logger_start_def logger_start_def)
  next
    case (step st st')
    have small: "ring_logger_small st" using ring_logger_step_mono [OF step(2)] step(4) by (simp add: ring_logger_small_def)
    with step(3) have inv: "ring_logger_inv st" and reach: "logger_reach ops hash lg n (logger_view st)" by blast+
    have "queue_inv (rl_logger st) (worker_view (rl_claims st) (rl_worker st))"
      using queue.reach_parts(1) [OF reach TrueI] by (simp add: logger_view_def)
    from ring_logger_simulates [OF step(2) inv this small] reach show ?case
      by (auto simp: logger_reach_def)
  qed
qed

section \<open>Particular schedules\<close>

fun ring_logger_run :: "('s \<times> io_world) sink_ops \<Rightarrow> (nat \<Rightarrow> u64) \<Rightarrow> logger_action list \<Rightarrow> 's ring_logger \<Rightarrow> 's ring_logger" where
  "ring_logger_run ops hash [] st = st"
| "ring_logger_run ops hash (Call t c # as) st = ring_logger_run ops hash as
     (if t < length (rl_clients st) \<and> rl_clients st ! t = Away ClientIdle
      then st\<lparr>rl_clients := (rl_clients st)[t := Away (StartLoad c)]\<rparr> else st)"
| "ring_logger_run ops hash (CallStop t # as) st = ring_logger_run ops hash as
     (if t < length (rl_clients st) \<and> rl_clients st ! t = Away ClientIdle
      then st\<lparr>rl_clients := (rl_clients st)[t := Away StopLoad]\<rparr> else st)"
| "ring_logger_run ops hash (Run t # as) st = ring_logger_run ops hash as
     (if t < length (rl_clients st)
      then (case ring_client_step (hash t) False 0 (rl_clients st ! t) st of
        (pc', st') \<Rightarrow> st'\<lparr>rl_clients := (rl_clients st)[t := pc']\<rparr>) else st)"
| "ring_logger_run ops hash (RunWorker # as) st = ring_logger_run ops hash as
     (case ring_worker_step ops False 0 (rl_worker st) st of (pc', st') \<Rightarrow> st'\<lparr>rl_worker := pc'\<rparr>)"
| "ring_logger_run ops hash (Return t # as) st = ring_logger_run ops hash as
     (if t < length (rl_clients st)
      then (case rl_clients st ! t of
          Away (Returned call b) \<Rightarrow> st\<lparr>rl_clients := (rl_clients st)[t := Away ClientIdle]\<rparr>
        | Away StopReturned \<Rightarrow> st\<lparr>rl_clients := (rl_clients st)[t := Away ClientIdle]\<rparr>
        | _ \<Rightarrow> st) else st)"

lemma ring_logger_run_reach: "rtranclp (ring_logger_step ops hash) st (ring_logger_run ops hash as st)"
proof (induction as arbitrary: st)
  case (Cons a as)
  have go: "rtranclp (ring_logger_step ops hash) st (ring_logger_run ops hash as st')"
    if "st' = st \<or> ring_logger_step ops hash st st'" for st'
    using that Cons [of st'] by (auto intro: converse_rtranclp_into_rtranclp)
  show ?case
  proof (cases a)
    case (Call t c)
    then show ?thesis by (simp only: ring_logger_run.simps, intro go) (auto intro: ring_client_calls)
  next
    case (CallStop t)
    then show ?thesis by (simp only: ring_logger_run.simps, intro go) (auto intro: ring_client_calls)
  next
    case (Run t)
    then show ?thesis by (simp only: ring_logger_run.simps, intro go) (auto intro: ring_client_moves split: prod.splits)
  next
    case RunWorker
    then show ?thesis by (simp only: ring_logger_run.simps, intro go) (auto intro: ring_worker_moves split: prod.splits)
  next
    case (Return t)
    then show ?thesis
      by (simp only: ring_logger_run.simps, intro go)
        (auto intro: ring_client_returns split: client_pc.splits ring_client.splits)
  qed
qed simp

text \<open>
  One client has published its message, the other has claimed its position, and the worker has handed the
  first message to a sink that keeps messages in memory.
\<close>

definition ring_log_schedule :: "logger_action list" where
  "ring_log_schedule = [Call 0 (LogCall Info no_source []), Call 1 (LogCall Info no_source [])] @
     replicate 12 (Run 0) @ replicate 11 (Run 1) @ [Run 0] @ replicate 8 RunWorker"

definition ring_log_demo :: "LogMessage list ring_logger" where
  "ring_log_demo = ring_logger_run memory_ops (\<lambda>_. 0) ring_log_schedule (ring_logger_start small_logger 2 id 2)"

lemma ring_log_demo_reach: "ring_logger_reach memory_ops (\<lambda>_. 0) small_logger id 2 ring_log_demo"
  unfolding ring_logger_reach_def ring_log_demo_def
  by (intro conjI exI [of _ "''log''"] exI [of _ "([], memory_world)"]
      exI [of _ "default_AsyncLoggerOptions\<lparr>opt_queue_size := 2\<rparr>"])
    (simp_all add: small_logger_def AsyncLogger_new_def ring_logger_run_reach)

text \<open>What the following proofs read off this state, evaluated in one pass.\<close>

definition ring_log_view :: "'s ring_logger \<Rightarrow> (nat \<times> nat \<times> nat) \<times> worker_pc \<times> nat option list" where
  "ring_log_view st = ((length (rl_claims st), length (r_buffer (rl_ring st)), lg_taken (rl_logger st)),
     worker_view (rl_claims st) (rl_worker st), map (\<lambda>c. write_position (client_view c)) (rl_clients st))"

lemma ring_log_demo_view:
  "ring_log_view ring_log_demo = ((2, 2, 1), CountWritten (InDrain False) Info, [None, Some 1])"
  by code_simp

lemma ring_log_demo_facts:
  "length (rl_claims ring_log_demo) = 2" "length (r_buffer (rl_ring ring_log_demo)) = 2" "lg_taken (rl_logger ring_log_demo) = 1"
  "map (\<lambda>c. write_position (client_view c)) (rl_clients ring_log_demo) = [None, Some 1]"
  using ring_log_demo_view by (simp_all add: ring_log_view_def)

lemma ring_log_demo_small: "ring_logger_small ring_log_demo"
  by (simp add: ring_logger_small_def ring_cap_def ring_log_demo_facts)

text \<open>
  C4. The logger over its ring buffer implements the logger over a slot queue.  Whatever the interleaving of
  the accesses of \<open>TryEnqueue\<close> and \<open>TryDequeue\<close> with everything else the threads do, as long as the positions
  claimed and the capacity stay below half of the range of \<open>std::size_t\<close>: the state is one that the
  logger of \<open>Async_Logger\<close> reaches, so each of its properties holds of the code with the ring, and
  no thread runs into undefined behaviour of the buffer.
\<close>

theorem ring_logger_refines:
  assumes "ring_logger_reach ops hash lg moved n st" and "ring_logger_small st"
  shows "logger_reach ops hash lg n (logger_view st) \<and>
    (\<forall>call item b. AtEnqueue call item b EnqUndefined \<notin> set (rl_clients st)) \<and>
    (\<forall>a. rl_worker st \<noteq> AtDequeue a DeqUndefined)"
proof -
  have inv: "ring_logger_inv st" and reach: "logger_reach ops hash lg n (logger_view st)"
    using ring_logger_reach_inv [OF assms] by blast+
  have "client_ring_ok (rl_claims st) c" if "c \<in> set (rl_clients st)" for c
    using inv that by (simp add: ring_logger_inv_def list_all_iff)
  then show ?thesis using reach inv by (fastforce simp: ring_logger_inv_def)
qed

lemma logs_Some: "logs (map Some items) = map item_message (filter is_log items)"
  by (induction items) simp_all

theorem ring_logger_refines_witness:
  "logger_reach memory_ops (\<lambda>_. 0) small_logger 2 (logger_view ring_log_demo) \<and>
    write_position (sys_clients (logger_view ring_log_demo) ! 1) = Some 1"
proof -
  from ring_log_demo_facts(4) have "write_position (sys_clients (logger_view ring_log_demo) ! 1) = Some 1"
    by (auto simp: logger_view_def map_eq_Cons_conv)
  with ring_logger_refines [OF ring_log_demo_reach ring_log_demo_small] show ?thesis by blast
qed

text \<open>
  C5. The worker hands the sink the messages in the order in which their enqueues won the
  compare-exchange on the enqueue position, and none twice: the messages written are those of the items claimed
  first, as many as the worker has taken, up to the one in its hands.
\<close>

theorem ring_logger_writes_in_order:
  assumes "ring_logger_reach ops hash lg moved n st" and "ring_logger_small st"
  shows "\<exists>k. k \<le> lg_taken (rl_logger st) \<and> lg_taken (rl_logger st) \<le> Suc k \<and> lg_taken (rl_logger st) \<le> length (rl_claims st) \<and>
    writes (hist_calls (rl_logger st)) = map item_message (filter is_log (take k (rl_claims st))) \<and>
    length (rl_claims st) \<le> lg_taken (rl_logger st) + length (r_buffer (rl_ring st))"
proof -
  let ?lg = "rl_logger st" and ?cl = "rl_claims st"
  have inv: "ring_logger_inv st" and reach: "logger_reach ops hash lg n (logger_view st)"
    using ring_logger_reach_inv [OF assms] by blast+
  have slots: "lg_slots ?lg = map Some (take (lg_taken ?lg) ?cl) @ ring_slots (rl_ring st) ?cl (lg_taken ?lg)"
    and R: "lg_taken ?lg \<le> length ?cl" "length ?cl \<le> lg_taken ?lg + ring_cap (rl_ring st)"
    using inv ring_invD(4,5) unfolding ring_logger_inv_def by blast+
  have "take k (lg_slots ?lg) = map Some (take k ?cl)" if "k \<le> lg_taken ?lg" for k
    using that slots R by (simp add: take_map min_absorb1)
  with handed_over [OF reach] show ?thesis using R by (auto simp: logger_view_def logs_Some ring_cap_def)
qed

theorem ring_logger_writes_in_order_witness:
  "\<exists>k \<le> 1. writes (hist_calls (rl_logger ring_log_demo)) = map item_message (filter is_log (take k (rl_claims ring_log_demo))) \<and>
    length (rl_claims ring_log_demo) \<le> 3"
  using ring_logger_writes_in_order [OF ring_log_demo_reach ring_log_demo_small] by (auto simp: ring_log_demo_facts)

end
