(* ===== verification/Ring_Sequential.thy ===== *)
theory Ring_Sequential
  imports Ring_Concurrent
begin

text \<open>
  Calls of \<open>TryEnqueue\<close> and \<open>TryDequeue\<close> that no other thread disturbs: they finish within five
  accesses and two more for every spurious failure of the compare-exchange, and behave as the operations
  of a bounded queue.
\<close>

section \<open>Bounded queues\<close>

datatype 'a queue_op = OpEnqueue 'a | OpDequeue

datatype 'a queue_result = Enqueued bool | Dequeued "'a option"

text \<open>The reference: a list that takes at most \<open>cap\<close> elements.\<close>

fun list_queue :: "nat \<Rightarrow> 'a queue_op list \<Rightarrow> 'a list \<Rightarrow> 'a queue_result list" where
  "list_queue cap [] xs = []"
| "list_queue cap (OpEnqueue v # ops) xs =
     (if length xs < cap then Enqueued True # list_queue cap ops (xs @ [v])
      else Enqueued False # list_queue cap ops xs)"
| "list_queue cap (OpDequeue # ops) [] = Dequeued None # list_queue cap ops []"
| "list_queue cap (OpDequeue # ops) (x # xs) = Dequeued (Some x) # list_queue cap ops xs"

text \<open>A run of calls; every call comes with the outcomes of its own execution, of the type \<open>'s\<close>.\<close>

fun run_queue :: "('s \<Rightarrow> 'a \<Rightarrow> 'q \<Rightarrow> (bool \<times> 'q) option) \<Rightarrow> ('s \<Rightarrow> 'q \<Rightarrow> ('a option \<times> 'q) option) \<Rightarrow>
    ('s \<times> 'a queue_op) list \<Rightarrow> 'q \<Rightarrow> 'a queue_result list option" where
  "run_queue enq deq [] q = Some []"
| "run_queue enq deq ((s, OpEnqueue v) # ops) q =
     (case enq s v q of None \<Rightarrow> None | Some (b, q') \<Rightarrow> map_option ((#) (Enqueued b)) (run_queue enq deq ops q'))"
| "run_queue enq deq ((s, OpDequeue) # ops) q =
     (case deq s q of None \<Rightarrow> None | Some (x, q') \<Rightarrow> map_option ((#) (Dequeued x)) (run_queue enq deq ops q'))"

text \<open>
  What the user of a bounded queue relies on: \<open>holds n q xs\<close> says that \<open>q\<close> contains \<open>xs\<close> and can
  serve \<open>n\<close> more operations, \<open>enough s\<close> that an execution goes on for long enough.
\<close>

locale bounded_queue =
  fixes enq :: "'s \<Rightarrow> 'a \<Rightarrow> 'q \<Rightarrow> (bool \<times> 'q) option"
    and deq :: "'s \<Rightarrow> 'q \<Rightarrow> ('a option \<times> 'q) option"
    and enough :: "'s \<Rightarrow> bool"
    and holds :: "nat \<Rightarrow> 'q \<Rightarrow> 'a list \<Rightarrow> bool"
    and cap :: nat
  assumes enq_room: "enough s \<Longrightarrow> holds (Suc n) q xs \<Longrightarrow> length xs < cap \<Longrightarrow>
      \<exists>q'. enq s v q = Some (True, q') \<and> holds n q' (xs @ [v])"
    and enq_full: "enough s \<Longrightarrow> holds (Suc n) q xs \<Longrightarrow> \<not> length xs < cap \<Longrightarrow>
      \<exists>q'. enq s v q = Some (False, q') \<and> holds n q' xs"
    and deq_some: "enough s \<Longrightarrow> holds (Suc n) q (x # xs) \<Longrightarrow> \<exists>q'. deq s q = Some (Some x, q') \<and> holds n q' xs"
    and deq_none: "enough s \<Longrightarrow> holds (Suc n) q [] \<Longrightarrow> \<exists>q'. deq s q = Some (None, q') \<and> holds n q' []"
begin

lemma runs_as_list:
  "\<forall>(s, op) \<in> set ops. enough s \<Longrightarrow> holds (length ops) q xs \<Longrightarrow>
     run_queue enq deq ops q = Some (list_queue cap (map snd ops) xs)"
proof (induction ops arbitrary: q xs)
  case (Cons op ops)
  obtain s o' where op: "op = (s, o')" by (cases op)
  then have s: "enough s" using Cons.prems(1) by simp
  show ?case
  proof (cases o')
    case (OpEnqueue v)
    then show ?thesis
      using enq_room [OF s, of "length ops" q xs v] enq_full [OF s, of "length ops" q xs v] Cons op
      by (cases "length xs < cap") auto
  next
    case OpDequeue
    then show ?thesis
      using deq_some [OF s, of "length ops" q "hd xs" "tl xs"] deq_none [OF s, of "length ops" q] Cons op by (cases xs) auto
  qed
qed simp

end

section \<open>The ring buffer as a bounded queue\<close>

definition ring_holds :: "nat \<Rightarrow> nat \<Rightarrow> ('a, 'w::len word) ring \<Rightarrow> 'a list \<Rightarrow> bool" where
  "ring_holds c n r xs \<longleftrightarrow> ring_cap r = c \<and>
     (\<exists>cl d dl. ring_inv r (\<lambda>_. RingIdle) cl d dl \<and> xs = drop d cl \<and> length cl + n + c < 2 ^ (LENGTH('w) - 1))"

lemma ring_holds_mono:
  assumes "ring_holds c (Suc n) (r :: ('a, 'w::len word) ring) xs"
  shows "ring_holds c n r xs"
proof -
  from assms obtain cl d dl where h: "ring_cap r = c" "ring_inv r (\<lambda>_. RingIdle) cl d dl" "xs = drop d cl"
    "length cl + Suc n + c < 2 ^ (LENGTH('w) - 1)" unfolding ring_holds_def by blast
  then have "length cl + n + c < 2 ^ (LENGTH('w) - 1)" by linarith
  with h show ?thesis unfolding ring_holds_def by blast
qed

text \<open>A system with one thread that moves.\<close>

definition solo :: "('a, 'p) ring_thread \<Rightarrow> nat \<Rightarrow> ('a, 'p) ring_thread" where
  "solo pc = (\<lambda>_. RingIdle)(0 := pc)"

lemma solo_simps [simp]: "solo pc 0 = pc" "(solo pc)(0 := pc') = solo pc'" "solo RingIdle = (\<lambda>_. RingIdle)"
  by (auto simp: solo_def)

lemma solo_claims [simp]:
  "(\<exists>u. cons_pos (solo pc u) = Some q) \<longleftrightarrow> cons_pos pc = Some q"
  "(\<exists>u. prod_pos (solo pc u) = Some q) \<longleftrightarrow> prod_pos pc = Some q"
  by (auto simp: solo_def)

lemma solo_move:
  assumes "ring_inv r (solo pc) cl d dl" "prod_pos pc = None" "cons_pos pc = None" "prod_pos pc' = None"
    "cons_pos pc' = None" "knows r cl d dl pc'"
  shows "ring_inv r (solo pc') cl d dl"
  using inv_move [OF assms(1), of 0 pc'] assms by simp

text \<open>The cells of a buffer at rest, at the two ends of the queue.\<close>

lemma rest_cells:
  assumes inv: "ring_inv r (\<lambda>_. RingIdle) cl d dl"
  shows "length cl < d + ring_cap r \<Longrightarrow> seq_at r (length cl) = length cl"
    and "\<not> length cl < d + ring_cap r \<Longrightarrow> seq_at r (length cl) = Suc d \<and> Suc d < length cl"
    and "d < length cl \<Longrightarrow> seq_at r d = Suc d"
    and "\<not> d < length cl \<Longrightarrow> seq_at r d = d"
proof -
  note I = ring_invD [OF inv]
  have c: "1 < ring_cap r" using shape_cap I(1) by blast
  have free: "seq_at r (length cl) = length cl" if "length cl < d + ring_cap r"
  proof (rule cell_states [OF inv, of "length cl"])
    assume f: "length cl \<le> seq_at r (length cl)" "seq_at r (length cl) < length cl + ring_cap r"
      "seq_at r (length cl) mod ring_cap r = length cl mod ring_cap r"
    show ?thesis
    proof (rule ccontr)
      assume "seq_at r (length cl) \<noteq> length cl"
      then have "length cl + ring_cap r \<le> seq_at r (length cl)" using f by (intro mod_gap) simp_all
      then show False using f(2) by simp
    qed
  next
    fix q assume q: "d \<le> q" "q < length cl" "q mod ring_cap r = length cl mod ring_cap r"
    then have "q + ring_cap r \<le> length cl" by (intro mod_gap)
    then show ?thesis using q that by simp
  qed simp
  then show "length cl < d + ring_cap r \<Longrightarrow> seq_at r (length cl) = length cl" .
  show live: "d < length cl \<Longrightarrow> seq_at r d = Suc d" using I(6) [of d] by auto
  show "\<not> d < length cl \<Longrightarrow> seq_at r d = d" using free I(4) c by (cases "d = length cl") auto
  show "seq_at r (length cl) = Suc d \<and> Suc d < length cl" if "\<not> length cl < d + ring_cap r"
  proof -
    have E: "length cl = d + ring_cap r" using that I(5) by simp
    then have "seq_at r (length cl) = seq_at r d" by (intro seq_cong) simp
    then show ?thesis using live E c by simp
  qed
qed

text \<open>
  An execution that is long enough: the five accesses of the longest path, and the two accesses that
  a spurious failure of the compare-exchange costs.
\<close>

definition alone_bound :: "bool list \<Rightarrow> bool" where
  "alone_bound bs \<longleftrightarrow> 5 + 2 * length (filter id bs) \<le> length bs"

lemma alone_bound_tl: "alone_bound bs \<Longrightarrow> \<exists>b bs'. bs = b # bs' \<and> 4 + 2 * length (filter id bs') \<le> length bs'"
  by (cases bs) (auto simp: alone_bound_def split: if_splits)

lemma list_of_two: "2 \<le> length bs \<Longrightarrow> \<exists>b c cs. bs = b # c # cs"
  by (cases bs; cases "tl bs") auto

lemma enq_alone_claims:
  assumes "\<And>b. enq_step b (EnqSeq v p) r = (EnqCas v p, r)" and "r_enqueue_pos r = p"
    and "4 + 2 * length (filter id bs) \<le> length bs"
  shows "enq_alone bs (EnqSeq v p) r = Some (True,
    update_cell p (\<lambda>c. c\<lparr>cell_sequence := p + 1\<rparr>) (update_cell p (\<lambda>c. c\<lparr>cell_value := v\<rparr>) (r\<lparr>r_enqueue_pos := p + 1\<rparr>)))"
  using assms(3)
proof (induction bs rule: length_induct)
  case (1 bs)
  then obtain b c cs where bs: "bs = b # c # cs" using list_of_two [of bs] by auto
  show ?case
  proof (cases c)
    case True
    then show ?thesis using 1 bs assms(1,2) by (auto simp del: enq_step.simps(2) split: if_splits)
  next
    case False
    then obtain d e es where "cs = d # e # es" using 1(2) bs list_of_two [of cs] by (auto split: if_splits)
    then show ?thesis using False bs assms(1,2) by (simp del: enq_step.simps(2))
  qed
qed

lemma deq_alone_claims:
  assumes "\<And>b. deq_step b (DeqSeq p) r = (DeqCas p, r)" and "r_dequeue_pos r = p"
    and "4 + 2 * length (filter id bs) \<le> length bs"
  shows "deq_alone bs (DeqSeq p) r =
    (let r1 = r\<lparr>r_dequeue_pos := p + 1\<rparr>; v = cell_value (r_buffer r1 ! cell_index r1 p);
         r2 = update_cell p (\<lambda>c. c\<lparr>cell_value := r_moved r1 (cell_value c)\<rparr>) r1
     in Some (Some v, update_cell p (\<lambda>c. c\<lparr>cell_sequence := p + r_capacity r2\<rparr>) r2))"
  using assms(3)
proof (induction bs rule: length_induct)
  case (1 bs)
  then obtain b c cs where bs: "bs = b # c # cs" using list_of_two [of bs] by auto
  show ?case
  proof (cases c)
    case True
    then show ?thesis using 1 bs assms(1,2) by (auto simp del: deq_step.simps(2) split: if_splits)
  next
    case False
    then obtain d e es where "cs = d # e # es" using 1(2) bs list_of_two [of cs] by (auto split: if_splits)
    then show ?thesis using False bs assms(1,2) by (simp del: deq_step.simps(2) add: Let_def)
  qed
qed

lemma TryEnqueue_alone:
  assumes inv: "ring_inv (r :: ('a, 'w::len word) ring) (\<lambda>_. RingIdle) cl d dl"
    and small: "Suc (length cl) + ring_cap r < 2 ^ (LENGTH('w) - 1)" and enough: "alone_bound bs"
  shows "if length cl < d + ring_cap r
    then \<exists>r'. TryEnqueue bs v r = Some (True, r') \<and> ring_inv r' (\<lambda>_. RingIdle) (cl @ [v]) d dl \<and> ring_cap r' = ring_cap r
    else TryEnqueue bs v r = Some (False, r)"
proof -
  note I = ring_invD [OF inv] and R = rest_cells [OF inv]
  let ?E = "length cl" and ?p = "r_enqueue_pos r"
  have small': "length cl + ring_cap r < 2 ^ (LENGTH('w) - 1)" using small by simp
  have "?E < 2 ^ LENGTH('w)" using small by (intro half_range) simp
  then have p: "unat ?p = ?E" unfolding I(2) by (rule unat_of_nat_fits)
  have look: "enq_step b (EnqSeq v ?p) r =
      (if seq_at r ?E = ?E then EnqCas v ?p else if seq_at r ?E < ?E then EnqDone False else EnqLoad v, r)" for b
    using enq_seq_cases [OF inv small', of ?p b v] p by simp
  obtain b cs where bs: "bs = b # cs" and len: "4 + 2 * length (filter id cs) \<le> length cs"
    using alone_bound_tl [OF enough] by blast
  have four: "TryEnqueue bs v r = enq_alone cs (EnqSeq v ?p) r" by (simp add: TryEnqueue_def bs)
  show ?thesis
  proof (cases "?E < d + ring_cap r")
    case True
    define r1 where "r1 = r\<lparr>r_enqueue_pos := ?p + 1\<rparr>"
    define r2 where "r2 = update_cell ?p (\<lambda>c. c\<lparr>cell_value := v\<rparr>) r1"
    define r3 where "r3 = update_cell ?p (\<lambda>c. c\<lparr>cell_sequence := ?p + 1\<rparr>) r2"
    have 1: "enq_step False (EnqCas v ?p) r = (EnqWrite v ?p, r1)" by (simp add: r1_def)
    have 2: "enq_step False (EnqWrite v ?p) r1 = (EnqPublish ?p, r2)" by (simp add: r2_def)
    have 3: "enq_step False (EnqPublish ?p) r2 = (EnqDone True, r3)" by (simp add: r3_def)
    have "ring_inv r (solo (Enqueuing (EnqCas v ?p))) cl d dl"
      by (rule solo_move [of _ RingIdle]) (use inv R(1) [OF True] p in simp_all)
    from enqueue_access_inv [OF this solo_simps(1) 1 small']
    have i1: "ring_inv r1 (solo (Enqueuing (EnqWrite v ?p))) (cl @ [v]) d dl" and c1: "ring_cap r1 = ring_cap r" by simp_all
    have s1: "length (cl @ [v]) + ring_cap r1 < 2 ^ (LENGTH('w) - 1)" using small c1 by simp
    from enqueue_access_inv [OF i1 solo_simps(1) 2 s1]
    have i2: "ring_inv r2 (solo (Enqueuing (EnqPublish ?p))) (cl @ [v]) d dl" and c2: "ring_cap r2 = ring_cap r" using c1 by simp_all
    have s2: "length (cl @ [v]) + ring_cap r2 < 2 ^ (LENGTH('w) - 1)" using small c2 by simp
    from enqueue_access_inv [OF i2 solo_simps(1) 3 s2]
    have i3: "ring_inv r3 (solo (Enqueuing (EnqDone True))) (cl @ [v]) d dl" and c3: "ring_cap r3 = ring_cap r" using c2 by simp_all
    have "ring_inv r3 (solo RingIdle) (cl @ [v]) d dl" by (rule solo_move [OF i3]) simp_all
    moreover have "TryEnqueue bs v r = Some (True, r3)"
      unfolding four using enq_alone_claims [OF _ refl len, of v r] look R(1) [OF True] by (simp add: r1_def r2_def r3_def)
    ultimately show ?thesis using True c3 by simp
  next
    case False
    have "TryEnqueue bs v r = Some (False, r)"
      unfolding four using look R(2) [OF False] len by (cases cs) (simp_all del: enq_step.simps(2))
    then show ?thesis using False by simp
  qed
qed

lemma TryDequeue_alone:
  assumes inv: "ring_inv (r :: ('a, 'w::len word) ring) (\<lambda>_. RingIdle) cl d dl"
    and small: "length cl + ring_cap r < 2 ^ (LENGTH('w) - 1)" and enough: "alone_bound bs"
  shows "if d < length cl
    then \<exists>r' dl'. TryDequeue bs r = Some (Some (cl ! d), r') \<and> ring_inv r' (\<lambda>_. RingIdle) cl (Suc d) dl' \<and> ring_cap r' = ring_cap r
    else TryDequeue bs r = Some (None, r)"
proof -
  note I = ring_invD [OF inv] and R = rest_cells [OF inv]
  let ?p = "r_dequeue_pos r"
  have "d < 2 ^ LENGTH('w)" using small I(4) by (intro half_range) simp
  then have p: "unat ?p = d" unfolding I(3) by (rule unat_of_nat_fits)
  have look: "deq_step b (DeqSeq ?p) r =
      (if seq_at r d = Suc d then DeqCas ?p else if seq_at r d < Suc d then DeqDone None else DeqLoad, r)" for b
    using deq_seq_cases [OF inv small, of ?p b] p by simp
  obtain b cs where bs: "bs = b # cs" and len: "4 + 2 * length (filter id cs) \<le> length cs"
    using alone_bound_tl [OF enough] by blast
  have four: "TryDequeue bs r = deq_alone cs (DeqSeq ?p) r" by (simp add: TryDequeue_def bs)
  show ?thesis
  proof (cases "d < length cl")
    case True
    define r1 where "r1 = r\<lparr>r_dequeue_pos := ?p + 1\<rparr>"
    define v where "v = cell_value (r_buffer r1 ! cell_index r1 ?p)"
    define r2 where "r2 = update_cell ?p (\<lambda>c. c\<lparr>cell_value := r_moved r1 (cell_value c)\<rparr>) r1"
    define r3 where "r3 = update_cell ?p (\<lambda>c. c\<lparr>cell_sequence := ?p + r_capacity r2\<rparr>) r2"
    have 1: "deq_step False (DeqCas ?p) r = (DeqRead ?p, r1)" by (simp add: r1_def)
    have 2: "deq_step False (DeqRead ?p) r1 = (DeqRelease v ?p, r2)" by (simp add: r2_def v_def)
    have 3: "deq_step False (DeqRelease v ?p) r2 = (DeqDone (Some v), r3)" by (simp add: r3_def)
    have "ring_inv r (solo (Dequeuing (DeqCas ?p))) cl d dl"
      by (rule solo_move [of _ RingIdle]) (use inv R(3) True p in simp_all)
    from dequeue_access_inv [OF this solo_simps(1) 1 small]
    have i1: "ring_inv r1 (solo (Dequeuing (DeqRead ?p))) cl (Suc d) dl" and c1: "ring_cap r1 = ring_cap r" by simp_all
    have s1: "length cl + ring_cap r1 < 2 ^ (LENGTH('w) - 1)" using small c1 by simp
    from dequeue_access_inv [OF i1 solo_simps(1) 2 s1]
    have i2: "ring_inv r2 (solo (Dequeuing (DeqRelease v ?p))) cl (Suc d) (dl @ [(d, v)])" and c2: "ring_cap r2 = ring_cap r"
      using c1 p by simp_all
    have s2: "length cl + ring_cap r2 < 2 ^ (LENGTH('w) - 1)" using small c2 by simp
    from dequeue_access_inv [OF i2 solo_simps(1) 3 s2]
    have i3: "ring_inv r3 (solo (Dequeuing (DeqDone (Some v)))) cl (Suc d) (dl @ [(d, v)])" and c3: "ring_cap r3 = ring_cap r"
      using c2 by simp_all
    have "ring_inv r3 (solo RingIdle) cl (Suc d) (dl @ [(d, v)])" by (rule solo_move [OF i3]) simp_all
    moreover have "v = cl ! d" using ring_invD(12) [OF i2, of 0] p by simp
    moreover have "TryDequeue bs r = Some (Some v, r3)"
      unfolding four using deq_alone_claims [OF _ refl len, of r] look R(3) [OF True]
      by (simp add: Let_def r1_def r2_def r3_def v_def)
    ultimately show ?thesis using True c3 by auto
  next
    case False
    have "TryDequeue bs r = Some (None, r)"
      unfolding four using look R(4) [OF False] len by (cases cs) (simp_all del: deq_step.simps(2))
    then show ?thesis using False by simp
  qed
qed

interpretation ring_queue: bounded_queue TryEnqueue TryDequeue alone_bound "ring_holds c :: nat \<Rightarrow> ('a, 'w::len word) ring \<Rightarrow> 'a list \<Rightarrow> bool" c for c
proof
  fix n bs and q :: "('a, 'w word) ring" and xs :: "'a list" and v x :: 'a
  assume enough: "alone_bound bs"
  show "\<exists>q'. TryEnqueue bs v q = Some (True, q') \<and> ring_holds c n q' (xs @ [v])"
    if "ring_holds c (Suc n) q xs" "length xs < c"
  proof -
    from that(1) obtain cl d dl where h: "ring_cap q = c" "ring_inv q (\<lambda>_. RingIdle) cl d dl" "xs = drop d cl"
      "length cl + Suc n + c < 2 ^ (LENGTH('w) - 1)" by (auto simp: ring_holds_def)
    have "length cl < d + ring_cap q" using that(2) h ring_invD(4) [OF h(2)] by simp
    then obtain r' where "TryEnqueue bs v q = Some (True, r')" "ring_inv r' (\<lambda>_. RingIdle) (cl @ [v]) d dl" "ring_cap r' = ring_cap q"
      using TryEnqueue_alone [OF h(2) _ enough, of v] h by auto
    then show ?thesis
      using h ring_invD(4) [OF h(2)] unfolding ring_holds_def
      by (intro exI [of _ r'] conjI exI [of _ "cl @ [v]"] exI [of _ d] exI [of _ dl]) simp_all
  qed
  show "\<exists>q'. TryEnqueue bs v q = Some (False, q') \<and> ring_holds c n q' xs"
    if "ring_holds c (Suc n) q xs" "\<not> length xs < c"
  proof -
    from that(1) obtain cl d dl where h: "ring_cap q = c" "ring_inv q (\<lambda>_. RingIdle) cl d dl" "xs = drop d cl"
      "length cl + Suc n + c < 2 ^ (LENGTH('w) - 1)" by (auto simp: ring_holds_def)
    have "\<not> length cl < d + ring_cap q" using that(2) h ring_invD(4) [OF h(2)] by simp
    then have "TryEnqueue bs v q = Some (False, q)" using TryEnqueue_alone [OF h(2) _ enough, of v] h by auto
    then show ?thesis using ring_holds_mono [OF that(1)] by blast
  qed
  show "\<exists>q'. TryDequeue bs q = Some (Some x, q') \<and> ring_holds c n q' xs"
    if "ring_holds c (Suc n) q (x # xs)"
  proof -
    from that(1) obtain cl d dl where h: "ring_cap q = c" "ring_inv q (\<lambda>_. RingIdle) cl d dl" "x # xs = drop d cl"
      "length cl + Suc n + c < 2 ^ (LENGTH('w) - 1)" by (auto simp: ring_holds_def)
    have d: "d < length cl" using h(3) by (metis drop_all leI list.distinct(1))
    then have "x = cl ! d" "xs = drop (Suc d) cl" using h(3) by (simp_all flip: Cons_nth_drop_Suc)
    moreover obtain r' dl' where "TryDequeue bs q = Some (Some (cl ! d), r')" "ring_inv r' (\<lambda>_. RingIdle) cl (Suc d) dl'" "ring_cap r' = ring_cap q"
      using TryDequeue_alone [OF h(2) _ enough] h d by auto
    ultimately show ?thesis using h unfolding ring_holds_def by fastforce
  qed
  show "\<exists>q'. TryDequeue bs q = Some (None, q') \<and> ring_holds c n q' ([] :: 'a list)" if "ring_holds c (Suc n) q ([] :: 'a list)"
  proof -
    from that(1) obtain cl d dl where h: "ring_cap q = c" "ring_inv q (\<lambda>_. RingIdle) cl d dl" "[] = drop d cl"
      "length cl + Suc n + c < 2 ^ (LENGTH('w) - 1)" by (auto simp: ring_holds_def)
    have "\<not> d < length cl" using h(3) by simp
    then have "TryDequeue bs q = Some (None, q)" using TryDequeue_alone [OF h(2) _ enough] h by auto
    then show ?thesis using ring_holds_mono [OF that] by blast
  qed
qed

text \<open>
  C22. Used by one thread at a time, the ring buffer is the bounded list queue: every call of
  \<open>TryEnqueue\<close> and \<open>TryDequeue\<close> returns within five accesses and two more for every spurious failure of
  its compare-exchange, and any sequence of calls, with whatever spurious failures, returns what the list
  of at most \<open>RoundUpPowerOfTwo n\<close> elements returns.  The number of calls and the capacity together
  stay below half of the range of \<open>std::size_t\<close>; \<open>TryDequeue_range_end\<close> shows that the bound is needed.
\<close>

theorem ring_alone_is_list_queue:
  assumes "size_t_ok (n :: 'w::len word)"
    and "length ops + unat (RoundUpPowerOfTwo n) < 2 ^ (LENGTH('w) - 1)"
    and "\<forall>(spurious, op) \<in> set ops. 5 + 2 * length (filter id spurious) \<le> length spurious"
  shows "run_queue TryEnqueue TryDequeue ops (ring_new e m n) =
    Some (list_queue (unat (RoundUpPowerOfTwo n)) (map snd ops) [])"
proof (rule ring_queue.runs_as_list)
  let ?r = "ring_new e m n"
  show "\<forall>(spurious, op) \<in> set ops. alone_bound spurious" using assms(3) by (simp add: alone_bound_def)
  have c: "ring_cap ?r = unat (RoundUpPowerOfTwo n)" by (simp add: ring_cap_def ring_new_def Let_def)
  have "ring_shape ?r" using assms(1) by (intro ring_new_shape) (simp_all add: size_t_ok_def)
  then show "ring_holds (unat (RoundUpPowerOfTwo n)) (length ops) ?r []"
    using ring_new_inv assms(2) c unfolding ring_holds_def
    by (intro conjI exI [of _ "[]"] exI [of _ 0]) simp_all
qed

text \<open>The third access of the second call and of the sixth call is a compare-exchange that fails spuriously.\<close>

theorem ring_alone_is_list_queue_witness:
  "let plain = [False, False, False, False, False];
       fails = [False, False, True, False, False, False, False] in
   run_queue TryEnqueue TryDequeue
     [(plain, OpEnqueue (1 :: nat)), (fails, OpEnqueue 2), (plain, OpEnqueue 3), (plain, OpDequeue), (plain, OpEnqueue 4),
      (fails, OpDequeue), (plain, OpDequeue), (plain, OpDequeue)] (ring_new 0 id (1 :: u64)) =
   Some [Enqueued True, Enqueued True, Enqueued False, Dequeued (Some 1), Enqueued True, Dequeued (Some 2), Dequeued (Some 4),
     Dequeued None]"
proof -
  let ?plain = "[False, False, False, False, False]" and ?fails = "[False, False, True, False, False, False, False]"
  have "RoundUpPowerOfTwo (1 :: u64) = 2" by code_simp
  then show ?thesis
    using ring_alone_is_list_queue [of "1 :: u64"
        "[(?plain, OpEnqueue (1 :: nat)), (?fails, OpEnqueue 2), (?plain, OpEnqueue 3), (?plain, OpDequeue), (?plain, OpEnqueue 4),
          (?fails, OpDequeue), (?plain, OpDequeue), (?plain, OpDequeue)]" 0 id]
    by (simp add: size_t_ok_def Let_def del: run_queue.simps)
qed

lemma sint_half: "sint (of_nat (2 ^ (LENGTH('w) - 1)) :: 'w::len word) = - (2 ^ (LENGTH('w) - 1))"
proof -
  have "uint (2 ^ (LENGTH('w) - 1) :: 'w word) = 2 ^ (LENGTH('w) - 1)" by (rule uint_2p) (simp add: word_gt_0)
  then show ?thesis by (simp add: sint_uint signed_take_bit_def bit_exp_iff minus_exp_eq_not_mask)
qed

text \<open>
  The end of the range.  When half of the range of \<open>std::size_t\<close> less one values have been
  through an empty buffer, the difference computed by \<open>TryDequeue\<close> is the largest representable
  value minus the smallest: the call has no defined result, however long it runs.
\<close>

theorem TryDequeue_range_end:
  assumes "ring_shape (r :: ('a, 'w::len word) ring)" and "r_dequeue_pos r = of_nat (2 ^ (LENGTH('w) - 1) - 1)"
    and "cell_sequence (r_buffer r ! cell_index r (r_dequeue_pos r)) = r_dequeue_pos r"
  shows "TryDequeue bs r = None"
proof -
  let ?h = "2 ^ (LENGTH('w) - 1) :: nat" and ?p = "r_dequeue_pos r"
  obtain k where "1 \<le> k" "k < LENGTH('w)" using assms(1) by (auto simp: ring_shape_def)
  then have h: "2 \<le> ?h" using power_increasing [of 1 "LENGTH('w) - 1" "2::nat"] by simp
  have "?h - 1 < ?h" using h by simp
  then have "?h - 1 < 2 ^ LENGTH('w)" by (rule half_range)
  then have p: "unat ?p = ?h - 1" unfolding assms(2) by (rule unat_of_nat_fits)
  have "?p + 1 = of_nat (?h - 1) + of_nat 1" using assms(2) by simp
  also have "\<dots> = of_nat ?h" using h by (simp only: of_nat_add [symmetric]) simp
  finally have "sint (?p + 1) = - (2 ^ (LENGTH('w) - 1))" by (simp only: sint_half)
  moreover have "sint ?p = int ?h - 1" using p h by (subst sint_small) (simp_all add: of_nat_diff)
  moreover have "2 \<le> int ?h" using h by (simp only: of_nat_le_iff [symmetric, where ?'a = int] of_nat_numeral)
  ultimately have "signed_diff ?p (?p + 1) = None" by (simp add: signed_diff_def Let_def)
  then show ?thesis
    using cell_at_shape [OF assms(1), of ?p] assms(3) shape_index [OF assms(1), of ?p]
    by (cases bs; cases "tl bs") (auto simp: TryDequeue_def)
qed

theorem TryDequeue_range_end_witness:
  "TryDequeue [False, False, False, False, False] \<lparr>r_capacity = 2, r_mask = 1,
     r_buffer = [\<lparr>cell_sequence = 2147483648, cell_value = 0\<rparr>, \<lparr>cell_sequence = 2147483647, cell_value = 0\<rparr>],
     r_enqueue_pos = 2147483647, r_dequeue_pos = 2147483647 :: 32 word, r_moved = id\<rparr> = (None :: (nat option \<times> _) option)"
  by (rule TryDequeue_range_end) (simp_all add: ring_shape_def cell_index_def exI [of _ 1])

end
