(* ===== verification/Service_Http.thy ===== *)
theory Service_Http
  imports Log_Args
begin

text \<open>
  The text side of \<open>examples/service_example.cpp\<close>: splitting a request, choosing and printing the
  response, and sending it in pieces.  The searches of \<open>std::string_view\<close> are standard library
  functions and are defined here; \<open>npos\<close> is \<open>None\<close>.
\<close>

section \<open>Searching in a string view\<close>

fun find_first :: "string \<Rightarrow> string \<Rightarrow> nat option" where
  "find_first p [] = (if p = [] then Some 0 else None)"
| "find_first p (c # s) = (if prefix p (c # s) then Some 0 else map_option Suc (find_first p s))"

definition find_at :: "string \<Rightarrow> string \<Rightarrow> nat \<Rightarrow> nat option" where
  "find_at p s pos = (if pos \<le> length s then map_option ((+) pos) (find_first p (drop pos s)) else None)"

definition space :: char where
  "space = CHR '' ''"

definition crlf :: string where
  "crlf = [CHR 0x0D, CHR 0x0A]"

lemma find_first_skip: "c \<notin> set a \<Longrightarrow> find_first (c # p) (a @ s) = map_option ((+) (length a)) (find_first (c # p) s)"
proof (induction a)
  case Nil
  show ?case by (cases "find_first (c # p) s") simp_all
next
  case (Cons x a)
  then show ?case by (cases "find_first (c # p) s") simp_all
qed

lemma find_first_None: "c \<notin> set s \<Longrightarrow> find_first (c # p) s = None"
  using find_first_skip [of c s p "[]"] by simp

lemma find_first_here: "find_first (c # p) (c # p @ s) = Some 0"
  by simp

lemma find_first_char: "find_first [c] s = (if c \<in> set s then Some (length (takeWhile ((\<noteq>) c) s)) else None)"
  by (induction s) auto

section \<open>Requests\<close>

definition first_line :: "string \<Rightarrow> string" where
  "first_line request = (case find_at crlf request 0 of None \<Rightarrow> request | Some line_end \<Rightarrow> take line_end request)"

definition ParseRequest :: "string \<Rightarrow> string \<times> string" where
  "ParseRequest request =
     (let line = first_line request;
          first_space = find_at [space] line 0;
          second_space = find_at [space] line (case first_space of None \<Rightarrow> 0 | Some i \<Rightarrow> i + 1)
      in case (first_space, second_space) of
           (Some i, Some j) \<Rightarrow> (take i line, take (j - i - 1) (drop (i + 1) line))
         | _ \<Rightarrow> ([], []))"

lemma find_space_append: "space \<notin> set a \<Longrightarrow> find_first [space] (a @ space # b) = Some (length a)"
  using find_first_skip [of space a "[]" "space # b"] by simp

lemma ParseRequest_two:
  assumes "first_line request = m @ space # p @ space # rest" and "space \<notin> set m" and "space \<notin> set p"
  shows "ParseRequest request = (m, p)"
proof -
  have 1: "find_at [space] (m @ space # p @ space # rest) 0 = Some (length m)"
    using assms(2) by (simp add: find_at_def find_space_append)
  have 2: "find_at [space] (m @ space # p @ space # rest) (Suc (length m)) = Some (Suc (length m + length p))"
    using assms(3) by (simp add: find_at_def find_space_append)
  show ?thesis by (simp add: ParseRequest_def assms(1) Let_def 1 2)
qed

lemma ParseRequest_none: "space \<notin> set (first_line request) \<Longrightarrow> ParseRequest request = ([], [])"
  by (simp add: ParseRequest_def find_at_def find_first_None)

lemma ParseRequest_one:
  assumes "first_line request = m @ space # p" and "space \<notin> set m" and "space \<notin> set p"
  shows "ParseRequest request = ([], [])"
  using assms by (simp add: ParseRequest_def find_at_def find_space_append find_first_None)

text \<open>
  Reading a request.  When the first line, up to the first CR LF or the end of what was received,
  has two spaces or next_bytes, the method is the text before the first and the path the text between the
  first two; otherwise both are empty.
\<close>

theorem ParseRequest_spec:
  "case ParseRequest request of (method, path) \<Rightarrow>
     if 2 \<le> count_list (first_line request) space
     then \<exists>rest. first_line request = method @ [space] @ path @ [space] @ rest \<and> space \<notin> set method \<and> space \<notin> set path
     else (method, path) = ([], [])"
proof (cases "space \<in> set (first_line request)")
  case False
  then show ?thesis using ParseRequest_none by (simp add: count_list_0_iff)
next
  case True
  then obtain m after where m: "first_line request = m @ space # after" "space \<notin> set m" by (metis split_list_first)
  show ?thesis
  proof (cases "space \<in> set after")
    case False
    then show ?thesis using ParseRequest_one [OF m] m by (simp add: count_list_0_iff)
  next
    case True
    then obtain p rest where p: "after = p @ space # rest" "space \<notin> set p" by (metis split_list_first)
    then show ?thesis using ParseRequest_two [OF _ m(2) p(2)] m by auto
  qed
qed

section \<open>Responses\<close>

definition BuildJsonResponse :: "string \<Rightarrow> string" where
  "BuildJsonResponse body = body"

definition BuildHttpResponse :: "int \<Rightarrow> string \<Rightarrow> string \<Rightarrow> string \<Rightarrow> string" where
  "BuildHttpResponse status_code status_text content_type body =
     ''HTTP/1.1 '' @ int_text status_code @ '' '' @ status_text @ crlf @
     ''Content-Type: '' @ content_type @ crlf @
     ''Content-Length: '' @ decimal (length body) @ crlf @
     ''Connection: close'' @ crlf @ crlf @
     body"

record Reply =
  reply_status :: int
  reply_text :: string
  reply_type :: string
  reply_body :: string

text \<open>\<open>served\<close> is the value of \<open>total_requests\<close> when the branch of \<open>/metrics\<close> reads it.\<close>

definition choose_reply :: "string \<Rightarrow> string \<Rightarrow> u64 \<Rightarrow> Reply" where
  \<open>choose_reply method path served =
     (if method = [] \<or> path = [] then
        \<lparr>reply_status = 400, reply_text = ''Bad Request'', reply_type = ''application/json'',
         reply_body = BuildJsonResponse (''{"error":"invalid request"}'' @ [CHR 0x0A])\<rparr>
      else if path = ''/healthz'' \<or> path = ''/readyz'' then
        \<lparr>reply_status = 200, reply_text = ''OK'', reply_type = ''application/json'',
         reply_body = BuildJsonResponse (''{"status":"ok"}'' @ [CHR 0x0A])\<rparr>
      else if path = ''/metrics'' then
        \<lparr>reply_status = 200, reply_text = ''OK'', reply_type = ''text/plain; version=0.0.4'',
         reply_body = ''service_requests_total '' @ decimal (unat served) @ [CHR 0x0A]\<rparr>
      else
        \<lparr>reply_status = 200, reply_text = ''OK'', reply_type = ''application/json'',
         reply_body = BuildJsonResponse (''{"service":"hlog","message":"request processed"}'' @ [CHR 0x0A])\<rparr>)\<close>

definition reply_response :: "Reply \<Rightarrow> string" where
  "reply_response r = BuildHttpResponse (reply_status r) (reply_text r) (reply_type r) (reply_body r)"

text \<open>The arguments of the two log lines of \<open>HandleConnection\<close>.\<close>

definition request_line :: "string \<Rightarrow> string \<Rightarrow> string \<Rightarrow> Reply \<Rightarrow> LogArg list" where
  "request_line remote method path r =
     [literal_arg ''remote='', ArgString remote, literal_arg '' method='', ArgString method, literal_arg '' path='', ArgString path,
      literal_arg '' status='', ArgInt I32 (reply_status r), literal_arg '' bytes='', ArgInt U64 (int (length (reply_response r)))]"

definition recv_error_line :: "string \<Rightarrow> string \<Rightarrow> LogArg list" where
  "recv_error_line remote error_text =
     [literal_arg ''remote='', ArgString remote, literal_arg '' recv_error='', ArgCString (Some (error_text @ [NUL]))]"

section \<open>Reading a response\<close>

text \<open>
  What a client does: the header ends at the first empty line, \<open>Content-Length\<close> tells how much of
  the rest is the body.
\<close>

definition carriage_return :: char where
  "carriage_return = CHR 0x0D"

definition read_reply :: "string \<Rightarrow> (string \<times> string \<times> string) option" where
  "read_reply s =
     (case find_first (crlf @ crlf) s of
        None \<Rightarrow> None
      | Some i \<Rightarrow>
          (case find_first (crlf @ ''Content-Length: '') (take i s) of
             None \<Rightarrow> None
           | Some j \<Rightarrow>
               (let n = undecimal (takeWhile ((\<noteq>) carriage_return) (drop (j + 18) (take i s))) 0; body = drop (i + 4) s
                in if length body < n then None
                   else Some (takeWhile ((\<noteq>) space) (drop 9 (take i s)), take n body, drop n body))))"

lemma decimal_plain: "carriage_return \<notin> set (decimal n)" "space \<notin> set (decimal n)"
  using decimal_code_range [of "CHR 0x0D" n] decimal_code_range [of "CHR '' ''" n]
  by (auto simp: carriage_return_def space_def)

lemma int_text_plain: "carriage_return \<notin> set (int_text i)" "space \<notin> set (int_text i)"
  using decimal_plain by (auto simp: int_text_def carriage_return_def space_def)

lemma takeWhile_upto: "c \<notin> set a \<Longrightarrow> takeWhile ((\<noteq>) c) (a @ c # s) = a"
  by (induction a) auto

lemma read_response:
  assumes "carriage_return \<notin> set status_text" and "carriage_return \<notin> set content_type"
  shows "read_reply (BuildHttpResponse status_code status_text content_type body @ next_bytes) =
    Some (int_text status_code, body, next_bytes)"
proof -
  let ?cr = carriage_return and ?lf = "CHR 0x0A"
  define start where "start = ''HTTP/1.1 '' @ int_text status_code @ '' '' @ status_text"
  define ctype where "ctype = ?lf # ''Content-Type: '' @ content_type"
  define clen where "clen = ?lf # ''Content-Length: '' @ decimal (length body)"
  define conn where "conn = ?lf # ''Connection: close''"
  let ?head = "start @ ?cr # ctype @ ?cr # clen @ ?cr # conn"
  have cr: "?cr \<notin> set start" "?cr \<notin> set ctype" "?cr \<notin> set clen" "?cr \<notin> set conn"
    using assms int_text_plain(1) decimal_plain(1) by (auto simp: start_def ctype_def clen_def conn_def carriage_return_def)
  have all: "BuildHttpResponse status_code status_text content_type body @ next_bytes = ?head @ crlf @ crlf @ body @ next_bytes"
    by (simp add: BuildHttpResponse_def start_def ctype_def clen_def conn_def crlf_def carriage_return_def)
  have c: "crlf = [?cr, ?lf]" by (simp add: crlf_def carriage_return_def)
  have p: "find_first (?cr # n) (a @ ?cr # s) = (if prefix n s then Some (length a) else map_option ((+) (Suc (length a))) (find_first (?cr # n) s))"
    if "?cr \<notin> set a" for a n s
    using find_first_skip [OF that, of n "?cr # s"] by (cases "find_first (?cr # n) s") auto
  have empty_line: "find_first (crlf @ crlf) (?head @ crlf @ crlf @ body @ next_bytes) = Some (length ?head)"
    using cr by (simp add: c p) (simp add: ctype_def clen_def conn_def carriage_return_def)
  have field: "find_first (crlf @ ''Content-Length: '') ?head = Some (length start + Suc (length ctype))"
    using cr by (simp add: c p) (simp add: ctype_def clen_def conn_def carriage_return_def)
  have number: "drop (length start + Suc (length ctype) + 18) ?head = decimal (length body) @ ?cr # conn"
  proof -
    let ?before = "start @ ?cr # ctype @ ?cr # ?lf # ''Content-Length: ''"
    have "length start + Suc (length ctype) + 18 = length ?before" by simp
    moreover have "?head = ?before @ decimal (length body) @ ?cr # conn" by (simp add: clen_def)
    ultimately show ?thesis by (metis append_eq_conv_conj)
  qed
  have status: "takeWhile ((\<noteq>) space) (drop 9 ?head) = int_text status_code"
    using takeWhile_upto [OF int_text_plain(2)] by (simp add: start_def space_def [symmetric])
  define head where "head = ?head"
  have body: "drop (length head + 4) (head @ crlf @ crlf @ body @ next_bytes) = body @ next_bytes" by (simp add: c)
  show ?thesis
    unfolding read_reply_def all empty_line [folded head_def] head_def [symmetric]
    using field number status body
    by (simp add: head_def [symmetric] takeWhile_upto decimal_plain undecimal_decimal del: append_assoc)
qed

section \<open>Sending\<close>

text \<open>
  \<open>send k data\<close> is what the \<open>k\<close>-th call of \<open>::send\<close> on the socket returns for the bytes \<open>data\<close>: the
  number of bytes it took, or nothing positive when it failed.  POSIX promises that it takes at most
  the bytes it was given; more would move the pointer out of the buffer and wrap \<open>remaining\<close>, which
  is \<open>None\<close>.  The result holds the bytes the socket took and the number of calls.
\<close>

function SendAll :: "(nat \<Rightarrow> string \<Rightarrow> int) \<Rightarrow> nat \<Rightarrow> string \<Rightarrow> string \<Rightarrow> (string \<times> nat) option" where
  "SendAll send k taken data =
     (if data = [] then Some (taken, k)
      else let written = send k data in
        if written \<le> 0 then Some (taken, Suc k)
        else if int (length data) < written then None
        else SendAll send (Suc k) (taken @ take (nat written) data) (drop (nat written) data))"
  by pat_completeness auto
termination by (relation "measure (\<lambda>(send, k, taken, data). length data)") auto

declare SendAll.simps [simp del]

definition send_takes_given :: "(nat \<Rightarrow> string \<Rightarrow> int) \<Rightarrow> bool" where
  "send_takes_given send \<longleftrightarrow> (\<forall>k data. send k data \<le> int (length data))"

lemma SendAll_run:
  assumes contract: "send_takes_given send"
  shows "\<exists>sent rest k'. SendAll send k taken data = Some (taken @ sent, k') \<and> data = sent @ rest \<and> k \<le> k' \<and>
    k' \<le> k + length data \<and> (rest \<noteq> [] \<longrightarrow> k < k' \<and> send (k' - 1) rest \<le> 0)"
proof (induction data arbitrary: k taken rule: length_induct)
  case (1 data)
  show ?case
  proof (cases "data = [] \<or> send k data \<le> 0")
    case True
    then show ?thesis
      by (intro exI [of _ "[]"] exI [of _ data] exI [of _ "if data = [] then k else Suc k"])
        (auto simp: SendAll.simps [of send k taken data] Let_def Suc_le_eq)
  next
    case False
    let ?n = "nat (send k data)"
    have n: "0 < ?n" "?n \<le> length data" "\<not> int (length data) < send k data"
      using False contract [unfolded send_takes_given_def, rule_format, of k data] by auto
    then have "length (drop ?n data) < length data" by simp
    from 1 [rule_format, OF this, of "Suc k" "taken @ take ?n data"] obtain sent rest k' where
      IH: "SendAll send (Suc k) (taken @ take ?n data) (drop ?n data) = Some ((taken @ take ?n data) @ sent, k')"
        "drop ?n data = sent @ rest" "Suc k \<le> k'" "k' \<le> Suc k + length (drop ?n data)"
        "rest \<noteq> [] \<longrightarrow> Suc k < k' \<and> send (k' - 1) rest \<le> 0" by blast
    show ?thesis
    proof (intro exI conjI)
      show "SendAll send k taken data = Some (taken @ (take ?n data @ sent), k')"
        using False n IH(1) by (simp add: SendAll.simps [of send k taken data] Let_def)
      show "data = (take ?n data @ sent) @ rest" using IH(2) by (metis append_assoc append_take_drop_id)
      show "k \<le> k'" "k' \<le> k + length data" "rest \<noteq> [] \<longrightarrow> k < k' \<and> send (k' - 1) rest \<le> 0"
        using IH(3-5) n by auto
    qed
  qed
qed

text \<open>
  C28. Sending ends.  Whatever \<open>::send\<close> answers within its contract, the loop of \<open>SendAll\<close> ends after
  at most one call per byte, without leaving the buffer; the peer gets the response up to the bytes of
  the last call, if that one failed, and all of it otherwise.
\<close>

theorem SendAll_ends:
  assumes "send_takes_given send"
  shows "\<exists>sent rest calls. SendAll send 0 [] response = Some (sent, calls) \<and> response = sent @ rest \<and>
    calls \<le> length response \<and> (rest \<noteq> [] \<longrightarrow> send (calls - 1) rest \<le> 0)"
  using SendAll_run [OF assms, of 0 "[]" response] by auto

definition slow_send :: "nat \<Rightarrow> string \<Rightarrow> int" where
  "slow_send k data = min 3 (int (length data))"

theorem SendAll_ends_witness:
  "SendAll slow_send 0 [] ''response'' = Some (''response'', 3) \<and>
   (\<exists>sent rest calls. SendAll slow_send 0 [] ''response'' = Some (sent, calls) \<and> ''response'' = sent @ rest \<and> calls \<le> 8)"
proof -
  have "send_takes_given slow_send" by (simp add: send_takes_given_def slow_send_def)
  from SendAll_ends [OF this, of "''response''"] show ?thesis
    by (simp add: SendAll.simps slow_send_def)
qed

section \<open>What the peer reads\<close>

text \<open>
  C27. The answer can be read.  For every request and every value of the counter, what the peer has
  got once \<open>SendAll\<close> has ended without a failed call is a response whose status is the one chosen and
  whose \<open>Content-Length\<close> delimits exactly the body chosen, with nothing after it.
\<close>

theorem service_reply_readable:
  assumes "send_takes_given send" and "\<forall>i data. data \<noteq> [] \<longrightarrow> 0 < send i data"
  shows "\<exists>sent calls. SendAll send 0 [] (reply_response (choose_reply method path served)) = Some (sent, calls) \<and>
    read_reply sent = Some (int_text (reply_status (choose_reply method path served)),
      reply_body (choose_reply method path served), [])"
proof -
  let ?r = "choose_reply method path served"
  obtain sent rest calls where sent: "SendAll send 0 [] (reply_response ?r) = Some (sent, calls)"
    "reply_response ?r = sent @ rest" "rest \<noteq> [] \<longrightarrow> send (calls - 1) rest \<le> 0"
    using SendAll_run [OF assms(1), of 0 "[]" "reply_response ?r"] unfolding append_Nil by blast
  then have "sent = reply_response ?r" using assms(2) by (cases "rest = []") (auto simp: not_le [symmetric])
  moreover have "carriage_return \<notin> set (reply_text ?r)" "carriage_return \<notin> set (reply_type ?r)"
    by (simp_all add: choose_reply_def carriage_return_def)
  then have "read_reply (reply_response ?r) = Some (int_text (reply_status ?r), reply_body ?r, [])"
    using read_response [of "reply_text ?r" "reply_type ?r" "reply_status ?r" "reply_body ?r" "[]"]
    by (simp add: reply_response_def)
  ultimately show ?thesis using sent(1) by blast
qed

theorem service_reply_readable_witness:
  "\<exists>sent. read_reply sent = Some (''200'', ''service_requests_total 7'' @ [CHR 0x0A], []) \<and>
     sent = reply_response (choose_reply ''GET'' ''/metrics'' 7)"
proof -
  let ?r = "choose_reply ''GET'' ''/metrics'' 7" and ?send = "\<lambda>i :: nat. int \<circ> length"
  have 1: "send_takes_given ?send" by (simp add: send_takes_given_def)
  have "int_text (reply_status ?r) = ''200''" "reply_body ?r = ''service_requests_total 7'' @ [CHR 0x0A]" by code_simp+
  moreover have "SendAll ?send 0 [] (reply_response ?r) = Some (reply_response ?r, 1)"
  proof -
    have "reply_response ?r \<noteq> []" by (simp add: reply_response_def BuildHttpResponse_def)
    then show ?thesis by (simp add: SendAll.simps)
  qed
  ultimately show ?thesis using service_reply_readable [OF 1, of "''GET''" "''/metrics''" 7] by simp
qed
end
