(* ===== verification/Console_Sink.thy ===== *)
theory Console_Sink
  imports Sink_Interface
begin

text \<open>
  \<open>ConsoleSink\<close> of \<open>include/hlog/sinks/console_sink.h\<close> and \<open>src/sinks/console_sink.cpp\<close>: every
  message is formatted and handed to an \<open>std::ostream\<close>, whose errors are not looked at.
\<close>

datatype ConsoleStream = Stdout | Stderr

record ConsoleSinkOptions =
  con_stream :: ConsoleStream
  con_auto_flush :: bool
  con_pattern :: string

definition default_ConsoleSinkOptions :: ConsoleSinkOptions where
  "default_ConsoleSinkOptions =
     \<lparr>con_stream = Stdout, con_auto_flush = False, con_pattern = kDefaultLogPattern\<rparr>"

record ConsoleSink =
  con_output :: stream_id
  con_flushes :: bool
  con_formatter :: PatternFormatter

definition ResolveConsoleStream :: "ConsoleStream \<Rightarrow> stream_id" where
  "ResolveConsoleStream s = (if s = Stderr then StdErr else StdOut)"

definition ConsoleSink_on :: "stream_id \<Rightarrow> ConsoleSinkOptions \<Rightarrow> ConsoleSink" where
  "ConsoleSink_on output options =
     \<lparr>con_output = output, con_flushes = con_auto_flush options,
      con_formatter = PatternFormatter_new (con_pattern options)\<rparr>"

definition ConsoleSink_new :: "ConsoleSinkOptions \<Rightarrow> ConsoleSink" where
  "ConsoleSink_new options = ConsoleSink_on (ResolveConsoleStream (con_stream options)) options"

definition ConsoleSink_Write :: "LogMessage \<Rightarrow> (ConsoleSink \<times> io_world, unit) exec" where
  "ConsoleSink_Write message = (\<lambda>(s, w).
     let formatted = FormatTo (time_zone w) (con_formatter s) [] message @ [newline];
         w1 = stream_write (con_output s) formatted w
     in (Inr (), s, if con_flushes s then stream_flush (con_output s) w1 else w1))"

definition ConsoleSink_Flush :: "(ConsoleSink \<times> io_world, unit) exec" where
  "ConsoleSink_Flush = (\<lambda>(s, w). (Inr (), s, stream_flush (con_output s) w))"

definition ConsoleSink_ops :: "(ConsoleSink \<times> io_world) sink_ops" where
  "ConsoleSink_ops =
     \<lparr>op_write = ConsoleSink_Write, op_flush = ConsoleSink_Flush,
      op_next = default_NextAutoFlushTime, op_due = default_FlushIfDue\<rparr>"

section \<open>What reaches the stream\<close>

definition console_line :: "LogMessage \<Rightarrow> ConsoleSink \<times> io_world \<Rightarrow> string" where
  "console_line m = (\<lambda>(s, w). Format (time_zone w) (con_formatter s) m @ [newline])"

definition console_text :: "ConsoleSink \<times> io_world \<Rightarrow> string" where
  "console_text = (\<lambda>(s, w). os_visible (streams w (con_output s)) @ os_pending (streams w (con_output s)))"

text \<open>A stream in a world where no call fails stays good and loses nothing.\<close>

lemma stream_write_ok:
  assumes "all_ok w" and "\<not> os_bad (streams w i)"
  shows "all_ok (stream_write i bs w) \<and> \<not> os_bad (streams (stream_write i bs w) i) \<and>
    os_visible (streams (stream_write i bs w) i) @ os_pending (streams (stream_write i bs w) i) =
      os_visible (streams w i) @ os_pending (streams w i) @ bs"
proof -
  obtain k w' where k: "next_outcome w = (IoOk k, w')" and ok: "all_ok w'"
    using all_ok_next [OF assms(1)] by (cases "next_outcome w") blast
  with assms(2) next_outcome_frame [OF k] show ?thesis
    by (simp add: stream_write_def Let_def take_drop_joined all_ok_def del: take_append drop_append)
qed

lemma stream_flush_ok:
  assumes "all_ok w" and "\<not> os_bad (streams w i)"
  shows "all_ok (stream_flush i w) \<and> \<not> os_bad (streams (stream_flush i w) i) \<and>
    os_pending (streams (stream_flush i w) i) = [] \<and>
    os_visible (streams (stream_flush i w) i) = os_visible (streams w i) @ os_pending (streams w i)"
proof -
  obtain k w' where k: "next_outcome w = (IoOk k, w')" and ok: "all_ok w'"
    using all_ok_next [OF assms(1)] by (cases "next_outcome w") blast
  with assms(2) next_outcome_frame [OF k] show ?thesis by (simp add: stream_flush_def Let_def all_ok_def)
qed

definition console_inv :: "ConsoleSink \<times> io_world \<Rightarrow> bool" where
  "console_inv = (\<lambda>(s, w). all_ok w \<and> \<not> os_bad (streams w (con_output s)))"

definition console_durable :: "ConsoleSink \<times> io_world \<Rightarrow> string" where
  "console_durable = (\<lambda>(s, w). os_visible (streams w (con_output s)))"

lemma ConsoleSink_Write_ok:
  "console_inv st \<Longrightarrow> ConsoleSink_Write m st = (Inr (), st') \<Longrightarrow>
     console_inv st' \<and> console_text st' = console_text st @ console_line m st"
  using stream_write_ok stream_flush_ok
  by (cases st)
    (auto simp: console_inv_def ConsoleSink_Write_def console_text_def console_line_def Let_def FormatTo_append
      split: if_splits)

lemma stream_time_zone: "time_zone (stream_write i bs w) = time_zone w" "time_zone (stream_flush i w) = time_zone w"
proof -
  obtain r v where r: "next_outcome w = (r, v)" by (cases "next_outcome w")
  show "time_zone (stream_write i bs w) = time_zone w" "time_zone (stream_flush i w) = time_zone w"
    using next_outcome_frame [OF r] r
    by (cases r; auto simp: stream_write_def stream_flush_def Let_def)+
qed

lemma console_format:
  "op_write ConsoleSink_ops m st = (r, st') \<Longrightarrow> same_format console_line (\<lambda>_. False) st st'"
  "op_flush ConsoleSink_ops st = (r, st') \<Longrightarrow> same_format console_line (\<lambda>_. False) st st'"
  by (cases st; auto simp: same_format_def console_line_def ConsoleSink_ops_def ConsoleSink_Write_def ConsoleSink_Flush_def
    stream_time_zone Let_def split: if_splits)+

interpretation console: sink_contract ConsoleSink_ops console_inv console_text console_durable console_line "\<lambda>_. False"
proof unfold_locales
  show "console_inv st' \<and> same_format console_line (\<lambda>_. False) st st' \<and> (\<exists>old kept. console_text st = old @ kept \<and>
      console_text st' = kept @ console_line m st \<and> (False \<or> old = []))"
    if "console_inv st" "op_write ConsoleSink_ops m st = (Inr (), st')" for st m st'
    using ConsoleSink_Write_ok [of st m st'] console_format(1) [OF that(2)] that by (auto simp: ConsoleSink_ops_def)
  show "console_inv st' \<and> same_format console_line (\<lambda>_. False) st st' \<and> console_text st' = console_text st \<and> console_durable st' = console_text st'"
    if "console_inv st" "op_flush ConsoleSink_ops st = (Inr (), st')" for st st'
    using that stream_flush_ok console_format(2) [OF that(2)]
    by (cases st) (auto simp: ConsoleSink_ops_def ConsoleSink_Flush_def console_inv_def
      console_text_def console_durable_def)
qed (auto simp: ConsoleSink_ops_def default_FlushIfDue_def default_NextAutoFlushTime_def same_format_def)

text \<open>
  A console sink never throws.  On a stream in good state whose calls succeed the formatted
  line goes out behind everything written before, and is visible at once with \<open>auto_flush\<close> or on
  a unit-buffered stream; on a stream in error state the message is dropped without notice.
\<close>

theorem ConsoleSink_Write_effect:
  "\<exists>w'. ConsoleSink_Write m (s, w) = (Inr (), s, w') \<and>
     (let before = streams w (con_output s); after = streams w' (con_output s);
          line = Format (time_zone w) (con_formatter s) m @ [newline]
      in if os_bad before then after = before
         else if all_ok w then
           os_visible after @ os_pending after = os_visible before @ os_pending before @ line \<and>
           (if con_flushes s \<or> os_unitbuf before then os_pending after = [] else True)
         else True)"
proof -
  let ?i = "con_output s" and ?line = "Format (time_zone w) (con_formatter s) m @ [newline]"
  let ?w1 = "stream_write ?i ?line w"
  let ?w2 = "if con_flushes s then stream_flush ?i ?w1 else ?w1"
  have run: "ConsoleSink_Write m (s, w) = (Inr (), s, ?w2)"
    by (simp add: ConsoleSink_Write_def FormatTo_append Let_def)
  have bad: "os_bad (streams w ?i) \<Longrightarrow> ?w2 = w"
    by (simp add: stream_write_def stream_flush_def Let_def)
  have unit: "os_pending (streams ?w1 ?i) = []"
    if "all_ok w" "\<not> os_bad (streams w ?i)" "os_unitbuf (streams w ?i)"
    using that all_ok_next [OF that(1)]
    by (auto simp: stream_write_def Let_def split: prod.splits io_outcome.splits)
  show ?thesis
    using run bad unit stream_write_ok [of w ?i ?line] stream_flush_ok [of ?w1 ?i]
    by (intro exI [of _ ?w2]) (auto simp: Let_def)
qed

end
