(* ===== verification/File_Sink.thy ===== *)
theory File_Sink
  imports Sink_Interface
begin

text \<open>
  \<open>FileSink\<close> of \<open>include/hlog/sinks/file_sink.h\<close> and \<open>src/sinks/file_sink.cpp\<close>: lines are
  collected in \<open>staging_buffer_\<close> and handed to the file stream when the batch is large or old
  enough.  The computations run on the sink together with its environment.  Times are on \<open>int\<close>:
  the flush interval is taken to be below 292 years, so that its conversion to nanoseconds does
  not overflow \<open>std::int64_t\<close>.
\<close>

record FileSinkOptions =
  fs_truncate :: bool
  fs_max_batch_size :: nat
  fs_flush_interval :: int
  fs_pattern :: string

definition default_FileSinkOptions :: FileSinkOptions where
  "default_FileSinkOptions =
     \<lparr>fs_truncate = False, fs_max_batch_size = 64 * 1024, fs_flush_interval = 50,
      fs_pattern = kDefaultLogPattern\<rparr>"

record FileSink =
  fs_options :: FileSinkOptions
  fs_output :: ofstream
  fs_staging :: string
  fs_batch_started :: int
  fs_formatter :: PatternFormatter

definition NormalizeBatchSize :: "nat \<Rightarrow> nat" where
  "NormalizeBatchSize batch_size = (if batch_size = 0 then 1 else batch_size)"

definition MakeFileSinkOptions :: "bool \<Rightarrow> FileSinkOptions" where
  "MakeFileSinkOptions trunc = default_FileSinkOptions\<lparr>fs_truncate := trunc\<rparr>"

definition FileSink_new :: "string \<Rightarrow> FileSinkOptions \<Rightarrow> (io_world, FileSink) exec" where
  "FileSink_new path options = (\<lambda>w.
     let options' = options\<lparr>fs_max_batch_size := NormalizeBatchSize (fs_max_batch_size options)\<rparr>;
         (output, w') = ofstream_open path (fs_truncate options') (ofstream_closed, w)
     in if \<not> of_open output then (Inl (RuntimeError (''failed to open log file: '' @ path)), w')
        else (Inr \<lparr>fs_options = options', fs_output = output, fs_staging = [], fs_batch_started = 0,
                   fs_formatter = PatternFormatter_new (fs_pattern options)\<rparr>, w'))"

definition FileSink_new_truncate :: "string \<Rightarrow> bool \<Rightarrow> (io_world, FileSink) exec" where
  "FileSink_new_truncate path trunc = FileSink_new path (MakeFileSinkOptions trunc)"

definition FileSink_hand_over :: "(FileSink \<times> io_world, unit) exec" where
  "FileSink_hand_over = (\<lambda>(s, w).
     if fs_staging s \<noteq> [] then
       (let (output, w') = ofstream_write (fs_staging s) (fs_output s, w)
        in if of_bad output then (Inl (RuntimeError ''failed to write log batch''), s\<lparr>fs_output := output\<rparr>, w')
           else (Inr (), s\<lparr>fs_output := output, fs_staging := [], fs_batch_started := 0\<rparr>, w'))
     else (Inr (), s, w))"

definition FileSink_flush_stream :: "(FileSink \<times> io_world, unit) exec" where
  "FileSink_flush_stream = (\<lambda>(s, w).
     let (output, w') = ofstream_flush (fs_output s, w)
     in (if of_bad output then Inl (RuntimeError ''failed to flush log file'') else Inr (),
         s\<lparr>fs_output := output\<rparr>, w'))"

definition FileSink_DrainStagingBuffer :: "bool \<Rightarrow> (FileSink \<times> io_world, unit) exec" where
  "FileSink_DrainStagingBuffer flush_stream =
     andthen FileSink_hand_over (\<lambda>_. when_do flush_stream FileSink_flush_stream)"

text \<open>The part of \<open>Write\<close> before the decision to drain, and that decision.\<close>

definition FileSink_stage :: "LogMessage \<Rightarrow> io_world \<Rightarrow> FileSink \<Rightarrow> FileSink" where
  "FileSink_stage message w s =
     (let s1 = (if fs_staging s = [] then s\<lparr>fs_batch_started := steady_now w\<rparr> else s)
      in s1\<lparr>fs_staging := FormatTo (time_zone w) (fs_formatter s1) (fs_staging s1) message @ [newline]\<rparr>)"

definition flush_for_interval :: "int \<Rightarrow> int \<Rightarrow> int \<Rightarrow> bool" where
  "flush_for_interval flush_interval batch_started now \<longleftrightarrow>
     flush_interval > 0 \<and> batch_started \<noteq> 0 \<and> now - batch_started \<ge> ns_of_ms flush_interval"

definition FileSink_Write :: "LogMessage \<Rightarrow> (FileSink \<times> io_world, unit) exec" where
  "FileSink_Write message = (\<lambda>(s, w).
     let s' = FileSink_stage message w s;
         for_size = length (fs_staging s') \<ge> fs_max_batch_size (fs_options s');
         for_interval = flush_for_interval (fs_flush_interval (fs_options s')) (fs_batch_started s') (steady_now w)
     in if for_size \<or> for_interval then FileSink_DrainStagingBuffer for_interval (s', w)
        else (Inr (), s', w))"

definition FileSink_Flush :: "(FileSink \<times> io_world, unit) exec" where
  "FileSink_Flush = FileSink_DrainStagingBuffer True"

definition auto_flush_time :: "string \<Rightarrow> int \<Rightarrow> int \<Rightarrow> int" where
  "auto_flush_time staging flush_interval batch_started =
     (if staging = [] \<or> flush_interval \<le> 0 \<or> batch_started = 0 then time_max
      else batch_started + ns_of_ms flush_interval)"

definition FileSink_NextAutoFlushTime :: "FileSink \<times> io_world \<Rightarrow> int" where
  "FileSink_NextAutoFlushTime = (\<lambda>(s, w).
     auto_flush_time (fs_staging s) (fs_flush_interval (fs_options s)) (fs_batch_started s))"

definition FileSink_FlushIfDue :: "int \<Rightarrow> (FileSink \<times> io_world, bool) exec" where
  "FileSink_FlushIfDue now = (\<lambda>st.
     let deadline = FileSink_NextAutoFlushTime st
     in if deadline = time_max \<or> now < deadline then (Inr False, st)
        else andthen (FileSink_DrainStagingBuffer True) (\<lambda>_. ret True) st)"

definition FileSink_ops :: "(FileSink \<times> io_world) sink_ops" where
  "FileSink_ops =
     \<lparr>op_write = FileSink_Write, op_flush = FileSink_Flush,
      op_next = FileSink_NextAutoFlushTime, op_due = FileSink_FlushIfDue\<rparr>"

section \<open>What has been accepted and what is in the file\<close>

text \<open>
  The bytes accepted so far are in the file, in the stream's buffer or in the staging buffer, in
  this order.
\<close>

definition file_text :: "FileSink \<times> io_world \<Rightarrow> string" where
  "file_text = (\<lambda>(s, w). stream_text (fs_output s) w @ fs_staging s)"

definition file_durable :: "FileSink \<times> io_world \<Rightarrow> string" where
  "file_durable = (\<lambda>(s, w). content w (of_path (fs_output s)))"

definition file_line :: "LogMessage \<Rightarrow> FileSink \<times> io_world \<Rightarrow> string" where
  "file_line m = (\<lambda>(s, w). Format (time_zone w) (fs_formatter s) m @ [newline])"

definition file_good :: "FileSink \<times> io_world \<Rightarrow> bool" where
  "file_good = (\<lambda>(s, w). stream_good (fs_output s) w)"

definition file_inv :: "FileSink \<times> io_world \<Rightarrow> bool" where
  "file_inv = (\<lambda>(s, w). stream_good (fs_output s) w \<and>
     length (fs_staging s) < fs_max_batch_size (fs_options s))"

text \<open>
  What every call keeps, also one that throws: the sink's file, options and format; other files;
  and the file has only grown, to a prefix of the text accepted before the call plus \<open>extra\<close>.
\<close>

definition file_step :: "string \<Rightarrow> FileSink \<times> io_world \<Rightarrow> FileSink \<times> io_world \<Rightarrow> bool" where
  "file_step extra st st' \<longleftrightarrow>
     of_path (fs_output (fst st')) = of_path (fs_output (fst st)) \<and>
     fs_options (fst st') = fs_options (fst st) \<and> fs_formatter (fst st') = fs_formatter (fst st) \<and>
     only_grows (of_path (fs_output (fst st))) (snd st) (snd st') \<and>
     prefix (file_durable st') (file_text st @ extra)"

lemma hand_over_ok:
  assumes good: "file_good st" and run: "FileSink_hand_over st = (r, st')"
  shows "file_step [] st st' \<and> of_open (fs_output (fst st')) \<and>
    (r = Inr () \<longrightarrow> file_good st' \<and> file_text st' = file_text st \<and> fs_staging (fst st') = [])"
proof -
  obtain s w where st: "st = (s, w)" by (cases st)
  obtain f w' where wr: "ofstream_write (fs_staging s) (fs_output s, w) = (f, w')"
    by (cases "ofstream_write (fs_staging s) (fs_output s, w)")
  have g: "stream_good (fs_output s) w" using good st by (simp add: file_good_def)
  note spec = ofstream_write_spec [OF g wr]
  have pre: "prefix (content w' (of_path (fs_output s))) (file_text st)"
    using spec st content_prefix_text [of w' f] by (simp add: file_text_def)
  have pre0: "prefix (content w (of_path (fs_output s))) (file_text st)"
    using st by (simp add: file_text_def prefix_prefix)
  show ?thesis
    using run st wr spec g pre pre0
    by (auto simp: FileSink_hand_over_def file_step_def file_durable_def file_good_def file_text_def
      stream_good_def split: if_splits)
qed

lemma flush_stream_ok:
  assumes good: "file_good st" and run: "FileSink_flush_stream st = (r, st')"
  shows "file_step [] st st' \<and> of_open (fs_output (fst st')) \<and>
    (r = Inr () \<longrightarrow> file_good st' \<and> file_text st' = file_text st \<and>
       fs_staging (fst st') = fs_staging (fst st) \<and> of_pending (fs_output (fst st')) = [])"
proof -
  obtain s w where st: "st = (s, w)" by (cases st)
  obtain f w' where fl: "ofstream_flush (fs_output s, w) = (f, w')"
    by (cases "ofstream_flush (fs_output s, w)")
  have g: "stream_good (fs_output s) w" using good st by (simp add: file_good_def)
  note spec = ofstream_flush_spec [OF g fl]
  have pre: "prefix (content w' (of_path (fs_output s))) (file_text st)"
    using spec st content_prefix_text [of w' f] by (simp add: file_text_def prefix_prefix)
  show ?thesis
    using run st fl spec g pre
    by (auto simp: FileSink_flush_stream_def file_step_def file_durable_def file_good_def file_text_def
      stream_good_def split: if_splits)
qed

lemma file_step_trans:
  "file_step [] st st1 \<Longrightarrow> file_text st1 = file_text st \<Longrightarrow> file_step [] st1 st2 \<Longrightarrow> file_step [] st st2"
  by (auto simp: file_step_def intro: only_grows_trans)

lemma file_durable_prefix: "prefix (file_durable st) (file_text st)"
  by (cases st) (simp add: file_durable_def file_text_def prefix_prefix)

lemma file_step_refl [simp]: "file_step [] st st"
  by (simp add: file_step_def file_durable_prefix)

lemma drain_ok:
  assumes good: "file_good st" and run: "FileSink_DrainStagingBuffer b st = (r, st')"
  shows "file_step [] st st' \<and>
    (r = Inr () \<longrightarrow> file_good st' \<and> file_text st' = file_text st \<and> fs_staging (fst st') = [] \<and>
       (b \<longrightarrow> file_durable st' = file_text st'))"
proof -
  obtain r1 st1 where h: "FileSink_hand_over st = (r1, st1)" by (cases "FileSink_hand_over st")
  note h_ok = hand_over_ok [OF good h]
  show ?thesis
  proof (cases r1)
    case (Inl e)
    with run h h_ok show ?thesis by (auto simp: FileSink_DrainStagingBuffer_def)
  next
    case (Inr u)
    then have ok: "r1 = Inr ()" by simp
    obtain r2 st2 where f: "FileSink_flush_stream st1 = (r2, st2)" by (cases "FileSink_flush_stream st1")
    have good1: "file_good st1" using h_ok ok by blast
    note f_ok = flush_stream_ok [OF good1 f]
    have durable: "fs_staging (fst st2) = [] \<Longrightarrow> of_pending (fs_output (fst st2)) = [] \<Longrightarrow>
        file_durable st2 = file_text st2"
      by (cases st2) (simp add: file_durable_def file_text_def stream_text_def)
    show ?thesis
      using run h h_ok ok f f_ok durable
      by (cases b) (auto simp: FileSink_DrainStagingBuffer_def intro: file_step_trans)
  qed
qed

lemma stage_ok:
  assumes "file_good (s, w)"
  shows "file_good (FileSink_stage m w s, w) \<and>
    file_text (FileSink_stage m w s, w) = file_text (s, w) @ file_line m (s, w) \<and>
    file_step (file_line m (s, w)) (s, w) (FileSink_stage m w s, w) \<and>
    fs_options (FileSink_stage m w s) = fs_options s"
  using assms
  by (auto simp: FileSink_stage_def file_good_def file_text_def file_line_def file_step_def
    file_durable_def FormatTo_append Let_def prefix_prefix)

lemma file_step_extra:
  "file_step x st st1 \<Longrightarrow> file_text st1 = file_text st @ x \<Longrightarrow> file_step [] st1 st2 \<Longrightarrow> file_step x st st2"
  by (auto simp: file_step_def intro: only_grows_trans)

lemma Write_ok:
  assumes good: "file_good st" and pos: "0 < fs_max_batch_size (fs_options (fst st))"
    and run: "FileSink_Write m st = (r, st')"
  shows "file_step (file_line m st) st st' \<and>
    (r = Inr () \<longrightarrow> file_inv st' \<and> file_text st' = file_text st @ file_line m st)"
proof -
  obtain s w where st: "st = (s, w)" by (cases st)
  let ?s = "FileSink_stage m w s"
  note stage = stage_ok [of s w m, folded st, OF good]
  let ?size = "length (fs_staging ?s) \<ge> fs_max_batch_size (fs_options ?s)"
  let ?int = "flush_for_interval (fs_flush_interval (fs_options ?s)) (fs_batch_started ?s) (steady_now w)"
  show ?thesis
  proof (cases "?size \<or> ?int")
    case True
    then have d: "FileSink_DrainStagingBuffer ?int (?s, w) = (r, st')"
      using run st by (auto simp: FileSink_Write_def Let_def)
    have "file_good (?s, w)" using stage by simp
    from drain_ok [OF this d] have step: "file_step [] (?s, w) st'" and
      ok: "r = Inr () \<Longrightarrow> file_good st' \<and> file_text st' = file_text (?s, w) \<and> fs_staging (fst st') = []"
      by auto
    have "fs_options (fst st') = fs_options s" using step stage by (simp add: file_step_def)
    then have "r = Inr () \<Longrightarrow> file_inv st'"
      using ok pos st by (cases st') (auto simp: file_inv_def file_good_def)
    with ok step stage show ?thesis by (auto intro: file_step_extra)
  next
    case False
    then have "r = Inr ()" "st' = (?s, w)" using run st by (auto simp: FileSink_Write_def Let_def)
    with False stage show ?thesis by (auto simp: file_inv_def file_good_def)
  qed
qed

lemma file_inv_good: "file_inv st \<Longrightarrow> file_good st \<and> 0 < fs_max_batch_size (fs_options (fst st))"
  by (cases st) (auto simp: file_inv_def file_good_def)

lemma drain_inv:
  assumes inv: "file_inv st" and run: "FileSink_DrainStagingBuffer True st = (Inr u, st')"
  shows "file_inv st' \<and> file_text st' = file_text st \<and> file_durable st' = file_text st'"
proof -
  have "file_step [] st st'" and ok: "file_good st'" "file_text st' = file_text st"
    "fs_staging (fst st') = []" "file_durable st' = file_text st'"
    using drain_ok [OF _ run] file_inv_good [OF inv] by auto
  then show ?thesis using file_inv_good [OF inv] by (cases st') (auto simp: file_inv_def file_good_def file_step_def)
qed

lemma FlushIfDue_cases:
  "FileSink_FlushIfDue now st =
     (if FileSink_NextAutoFlushTime st = time_max \<or> now < FileSink_NextAutoFlushTime st then (Inr False, st)
      else case FileSink_DrainStagingBuffer True st of (Inl e, st') \<Rightarrow> (Inl e, st') | (Inr u, st') \<Rightarrow> (Inr True, st'))"
  by (simp add: FileSink_FlushIfDue_def andthen_def Let_def split: prod.splits sum.splits)

lemma file_step_format: "file_step x st st' \<Longrightarrow> same_format file_line (\<lambda>_. False) st st'"
  by (cases st; cases st') (simp add: file_step_def same_format_def file_line_def only_grows_def)

lemma drain_format:
  assumes "file_inv st" and "FileSink_DrainStagingBuffer True st = (r, st')"
  shows "same_format file_line (\<lambda>_. False) st st'"
  using drain_ok [OF _ assms(2)] file_inv_good [OF assms(1)] file_step_format by blast

interpretation filesink: sink_contract FileSink_ops file_inv file_text file_durable file_line "\<lambda>_. False"
proof unfold_locales
  show "file_inv st' \<and> same_format file_line (\<lambda>_. False) st st' \<and>
      (\<exists>old kept. file_text st = old @ kept \<and> file_text st' = kept @ file_line m st \<and> (False \<or> old = []))"
    if "file_inv st" "op_write FileSink_ops m st = (Inr (), st')" for st m st'
  proof -
    have "FileSink_Write m st = (Inr (), st')" using that(2) by (simp add: FileSink_ops_def)
    then have "file_inv st' \<and> file_text st' = file_text st @ file_line m st \<and> same_format file_line (\<lambda>_. False) st st'"
      using Write_ok [of st m "Inr ()" st'] file_inv_good [OF that(1)] file_step_format [of "file_line m st" st st'] by simp
    then show ?thesis by auto
  qed
  show "file_inv st' \<and> same_format file_line (\<lambda>_. False) st st' \<and> file_text st' = file_text st \<and> file_durable st' = file_text st'"
    if "file_inv st" "op_flush FileSink_ops st = (Inr (), st')" for st st'
    using drain_inv [OF that(1), of "()"] drain_format [OF that(1)] that(2) by (simp add: FileSink_ops_def FileSink_Flush_def)
  show "file_inv st' \<and> same_format file_line (\<lambda>_. False) st st' \<and> file_text st' = file_text st \<and> (\<not> b \<longrightarrow> st' = st)"
    if "file_inv st" "op_due FileSink_ops now st = (Inr b, st')" for st now b st'
    using that drain_inv [OF that(1)] drain_format [OF that(1)]
    by (auto simp: FileSink_ops_def same_format_def FlushIfDue_cases split: if_splits prod.splits sum.splits)
qed (auto simp: FileSink_ops_def FlushIfDue_cases split: prod.splits sum.splits)

section \<open>Sequences of calls\<close>

definition call_text :: "(int \<Rightarrow> tm) \<Rightarrow> PatternFormatter \<Rightarrow> sink_call \<Rightarrow> string" where
  "call_text tz f c = (case c of CallWrite m t \<Rightarrow> Format tz f m @ [newline] | _ \<Rightarrow> [])"

lemma set_clock_same [simp]:
  "file_good (set_clock t st) = file_good st" "file_inv (set_clock t st) = file_inv st"
  "file_text (set_clock t st) = file_text st" "file_durable (set_clock t st) = file_durable st"
  "fst (set_clock t st) = fst st" "time_zone (snd (set_clock t st)) = time_zone (snd st)"
  by (cases st; simp add: set_clock_def file_good_def file_inv_def file_text_def file_durable_def
      stream_good_def stream_text_def content_def)+

text \<open>What one call does to the sink, at any outcome of the calls it makes.\<close>

definition file_frame :: "FileSink \<times> io_world \<Rightarrow> FileSink \<times> io_world \<Rightarrow> bool" where
  "file_frame st st' \<longleftrightarrow>
     of_path (fs_output (fst st')) = of_path (fs_output (fst st)) \<and>
     fs_options (fst st') = fs_options (fst st) \<and>
     fs_formatter (fst st') = fs_formatter (fst st) \<and> time_zone (snd st') = time_zone (snd st)"

lemma file_step_frame: "file_step x st st' \<Longrightarrow> file_frame st st'"
  by (auto simp: file_step_def file_frame_def only_grows_def)

lemma run_call_ok:
  assumes inv: "file_inv st" and run: "run_call FileSink_ops c st = (r, st')"
  shows "file_frame st st' \<and> prefix (file_durable st')
      (file_text st @ call_text (time_zone (snd st)) (fs_formatter (fst st)) c) \<and>
    (r = Inr () \<longrightarrow> file_inv st' \<and>
       file_text st' = file_text st @ call_text (time_zone (snd st)) (fs_formatter (fst st)) c)"
proof (cases c)
  case (CallWrite m t)
  have "file_good (set_clock t st)" "0 < fs_max_batch_size (fs_options (fst (set_clock t st)))"
    using file_inv_good [OF inv] by simp_all
  from Write_ok [OF this, of m r st'] run CallWrite
  have w: "file_step (file_line m (set_clock t st)) (set_clock t st) st'"
    "r = Inr () \<Longrightarrow> file_inv st' \<and> file_text st' = file_text st @ file_line m (set_clock t st)"
    by (auto simp: FileSink_ops_def)
  have line: "file_line m (set_clock t st) = call_text (time_zone (snd st)) (fs_formatter (fst st)) c"
    using CallWrite by (cases st) (simp add: file_line_def call_text_def set_clock_def)
  have "file_frame st st'" using file_step_frame [OF w(1)] by (simp add: file_frame_def)
  with w line show ?thesis by (simp add: file_step_def)
next
  case CallFlush
  then have d: "FileSink_DrainStagingBuffer True st = (r, st')"
    using run by (simp add: FileSink_ops_def FileSink_Flush_def)
  have "file_step [] st st'" using drain_ok [OF _ d] file_inv_good [OF inv] by auto
  then show ?thesis
    using CallFlush drain_inv [OF inv, of "()" st'] d
    by (auto simp: call_text_def file_step_frame) (auto simp: file_step_def)
next
  case (CallFlushIfDue now)
  show ?thesis
  proof (cases "FileSink_NextAutoFlushTime st = time_max \<or> now < FileSink_NextAutoFlushTime st")
    case True
    then have "FileSink_FlushIfDue now st = (Inr False, st)" by (simp add: FlushIfDue_cases)
    then have "r = Inr ()" "st' = st" using run CallFlushIfDue by (auto simp: FileSink_ops_def)
    then show ?thesis using inv CallFlushIfDue
      by (simp add: call_text_def file_frame_def file_durable_prefix)
  next
    case False
    then have d: "FileSink_DrainStagingBuffer True st = (r, st')"
      using run CallFlushIfDue
      by (auto simp: FileSink_ops_def FlushIfDue_cases andthen_def split: prod.splits sum.splits)
    have "file_step [] st st'" using drain_ok [OF _ d] file_inv_good [OF inv] by auto
    then show ?thesis
      using CallFlushIfDue drain_inv [OF inv, of "()" st'] d
      by (auto simp: call_text_def file_step_frame) (auto simp: file_step_def)
  qed
qed

lemma run_calls_ok:
  "file_inv st \<Longrightarrow> run_calls FileSink_ops cs st = (r, st') \<Longrightarrow>
     file_frame st st' \<and>
     prefix (file_durable st') (file_text st @ concat (map (call_text (time_zone (snd st)) (fs_formatter (fst st))) cs)) \<and>
     (r = Inr () \<longrightarrow> file_inv st' \<and>
        file_text st' = file_text st @ concat (map (call_text (time_zone (snd st)) (fs_formatter (fst st))) cs))"
proof (induction cs arbitrary: st)
  case Nil
  then show ?case by (auto simp: file_frame_def file_durable_prefix)
next
  case (Cons c cs)
  let ?t = "call_text (time_zone (snd st)) (fs_formatter (fst st))"
  obtain r1 st1 where one: "run_call FileSink_ops c st = (r1, st1)" by (cases "run_call FileSink_ops c st")
  note ok = run_call_ok [OF Cons.prems(1) one]
  show ?case
  proof (cases r1)
    case (Inl e)
    then have "r = Inl e" "st' = st1" using Cons.prems(2) one by auto
    with ok show ?thesis by (auto intro: prefix_prefix simp flip: append_assoc)
  next
    case (Inr u)
    then have ok1: "file_inv st1" "file_text st1 = file_text st @ ?t c" "file_frame st st1"
      and rest: "run_calls FileSink_ops cs st1 = (r, st')"
      using ok Cons.prems(2) one by auto
    have same: "call_text (time_zone (snd st1)) (fs_formatter (fst st1)) = ?t"
      using ok1(3) by (simp add: file_frame_def)
    from Cons.IH [OF ok1(1) rest] ok1 show ?thesis
      by (auto simp: same) (auto simp: file_frame_def)
  qed
qed

lemma FileSink_new_ok:
  assumes "FileSink_new path opts w = (Inr s, w1)"
  shows "file_inv (s, w1) \<and> fs_staging s = [] \<and> of_path (fs_output s) = path \<and>
    file_text (s, w1) = (if fs_truncate opts then [] else content w path) \<and>
    fs_formatter s = PatternFormatter_new (fs_pattern opts) \<and> time_zone w1 = time_zone w \<and>
    fs_flush_interval (fs_options s) = fs_flush_interval opts \<and>
    fs_max_batch_size (fs_options s) = NormalizeBatchSize (fs_max_batch_size opts)"
proof -
  obtain f v where op: "ofstream_open path (fs_truncate opts) (ofstream_closed, w) = (f, v)"
    by (cases "ofstream_open path (fs_truncate opts) (ofstream_closed, w)")
  have "\<not> of_open ofstream_closed" by (simp add: ofstream_closed_def)
  from ofstream_open_spec [OF this op] assms op show ?thesis
    by (auto simp: FileSink_new_def Let_def file_inv_def file_text_def stream_text_def
      NormalizeBatchSize_def split: if_splits)
qed

text \<open>
  C38. A file sink opened on a file and given any sequence of writes, flushes and deadline checks,
  with the operating system failing at any call: the file always holds a prefix of its initial
  content (nothing when it was truncated) followed by the formatted lines in order, so no line is
  ever lost in the middle, repeated, reordered or torn apart.  As long as nothing was thrown, the
  rest of that text is in the stream's buffer and the staging buffer, which stays below the batch
  size.
\<close>

theorem FileSink_calls_log:
  assumes "FileSink_new path opts w = (Inr s, w1)"
    and "run_calls FileSink_ops cs (s, w1) = (r, (s2, w2))"
  shows "let wanted = (if fs_truncate opts then [] else content w path) @
           concat (map (call_text (time_zone w) (PatternFormatter_new (fs_pattern opts))) cs)
    in prefix (content w2 path) wanted \<and>
      (if r = Inr () then content w2 path @ of_pending (fs_output s2) @ fs_staging s2 = wanted \<and>
         length (fs_staging s2) < NormalizeBatchSize (fs_max_batch_size opts) else True)"
proof -
  note new = FileSink_new_ok [OF assms(1)]
  have inv: "file_inv (s, w1)" using new by blast
  note run = run_calls_ok [OF inv assms(2)]
  have path: "of_path (fs_output s2) = path" and opts: "fs_options s2 = fs_options s"
    using run new by (auto simp: file_frame_def)
  have "file_text (s2, w2) = content w2 path @ of_pending (fs_output s2) @ fs_staging s2"
    "file_durable (s2, w2) = content w2 path"
    using path by (simp_all add: file_text_def stream_text_def file_durable_def)
  then show ?thesis using run new opts by (auto simp: Let_def file_inv_def)
qed

definition example_sink :: "FileSinkOptions \<Rightarrow> FileSink" where
  "example_sink opts =
     \<lparr>fs_options = opts\<lparr>fs_max_batch_size := NormalizeBatchSize (fs_max_batch_size opts)\<rparr>,
      fs_output = \<lparr>of_path = ''app.log'', of_open = True, of_bad = False, of_pending = []\<rparr>,
      fs_staging = [], fs_batch_started = 0, fs_formatter = PatternFormatter_new (fs_pattern opts)\<rparr>"

definition example_disk :: io_world where
  "example_disk = idle_world\<lparr>disk := [''app.log'' \<mapsto> []]\<rparr>"

lemma example_open: "FileSink_new ''app.log'' opts idle_world = (Inr (example_sink opts), example_disk)"
  by (simp add: FileSink_new_def ofstream_open_def ofstream_closed_def next_outcome_def idle_world_def
    example_sink_def example_disk_def content_def Let_def)

definition bare_options :: FileSinkOptions where
  "bare_options = default_FileSinkOptions\<lparr>fs_pattern := ''> %v''\<rparr>"

lemma bare_line: "Format tz (PatternFormatter_new ''> %v'') default_message = ''> ''"
  by (simp add: Format_def FormatTo_def PatternFormatter_new_def RebuildTokens_def pattern_eval
    flush_literal_def push_token_def default_message_def)

lemma bare_calls:
  "\<exists>s w. run_calls FileSink_ops [CallWrite default_message 5, CallFlush] (example_sink bare_options, example_disk) =
     (Inr (), (s, w))"
  by (simp add: FileSink_ops_def FileSink_Write_def FileSink_Flush_def FileSink_stage_def
    FileSink_DrainStagingBuffer_def FileSink_hand_over_def FileSink_flush_stream_def
    ofstream_write_def ofstream_flush_def next_outcome_def example_sink_def example_disk_def
    idle_world_def bare_options_def default_FileSinkOptions_def set_clock_def FormatTo_append bare_line
    flush_for_interval_def NormalizeBatchSize_def Let_def)

theorem FileSink_calls_log_witness:
  "\<exists>s w. run_calls FileSink_ops [CallWrite default_message 5, CallFlush] (example_sink bare_options, example_disk) =
     (Inr (), (s, w)) \<and> prefix (content w ''app.log'') (''> '' @ [newline])"
proof -
  obtain s w where run: "run_calls FileSink_ops [CallWrite default_message 5, CallFlush]
      (example_sink bare_options, example_disk) = (Inr (), (s, w))"
    using bare_calls by blast
  from FileSink_calls_log [OF example_open this] run show ?thesis
    by (auto simp: call_text_def content_def idle_world_def bare_options_def default_FileSinkOptions_def
      bare_line Let_def)
qed

section \<open>Deadlines\<close>

lemma Write_started:
  assumes good: "file_good (s, w)" and int: "0 < fs_flush_interval (fs_options s)" and now: "0 < steady_now w"
    and past: "fs_staging s = [] \<or> (0 < fs_batch_started s \<and> fs_batch_started s \<le> steady_now w)"
    and run: "FileSink_Write m (s, w) = (Inr (), (s', w'))"
  shows "fs_staging s' = [] \<or>
    (0 < fs_batch_started s' \<and> fs_batch_started s' \<le> steady_now w \<and>
     steady_now w - fs_batch_started s' < ns_of_ms (fs_flush_interval (fs_options s)) \<and>
     fs_flush_interval (fs_options s') = fs_flush_interval (fs_options s))"
proof -
  let ?s = "FileSink_stage m w s"
  let ?int = "flush_for_interval (fs_flush_interval (fs_options ?s)) (fs_batch_started ?s) (steady_now w)"
  have stage: "0 < fs_batch_started ?s" "fs_batch_started ?s \<le> steady_now w" "fs_options ?s = fs_options s"
    using now past by (auto simp: FileSink_stage_def Let_def)
  show ?thesis
  proof (cases "length (fs_staging ?s) \<ge> fs_max_batch_size (fs_options ?s) \<or> ?int")
    case True
    then have "FileSink_DrainStagingBuffer ?int (?s, w) = (Inr (), (s', w'))"
      using run by (auto simp: FileSink_Write_def Let_def)
    with drain_ok [of "(?s, w)"] stage_ok [OF good] show ?thesis by auto
  next
    case False
    then have "s' = ?s" using run by (auto simp: FileSink_Write_def Let_def)
    with False stage int show ?thesis by (auto simp: flush_for_interval_def)
  qed
qed

text \<open>
  Bounded delay.  After a write at a positive clock reading \<open>t\<close>, with a positive flush
  interval, either nothing is staged or the sink asks for a flush at a time later than \<open>t\<close> and at
  most one interval away; and a deadline check at or after the time asked for makes everything
  accepted so far durable, unless the operating system fails and the check throws.
\<close>

theorem FileSink_deadline:
  assumes inv: "file_inv (s, w)" and int: "0 < fs_flush_interval (fs_options s)" and now: "0 < steady_now w"
    and past: "fs_staging s = [] \<or> (0 < fs_batch_started s \<and> fs_batch_started s \<le> steady_now w)"
    and run: "FileSink_Write m (s, w) = (Inr (), (s', w'))"
    and far: "steady_now w + ns_of_ms (fs_flush_interval (fs_options s)) < time_max"
  shows "fs_staging s' = [] \<or>
    (let deadline = FileSink_NextAutoFlushTime (s', w') in
     steady_now w < deadline \<and> deadline \<le> steady_now w + ns_of_ms (fs_flush_interval (fs_options s)) \<and>
     (\<forall>later st2. deadline \<le> later \<longrightarrow> FileSink_FlushIfDue later (s', w') = (Inr True, st2) \<longrightarrow>
        file_durable st2 = file_text (s', w') \<and> fs_staging (fst st2) = []) \<and>
     (\<forall>later st2. deadline \<le> later \<longrightarrow> FileSink_FlushIfDue later (s', w') \<noteq> (Inr False, st2)))"
proof (cases "fs_staging s' = []")
  case False
  have good: "file_good (s, w)" using file_inv_good [OF inv] by simp
  let ?d = "FileSink_NextAutoFlushTime (s', w')"
  from Write_started [OF good int now past run] False
  have b: "0 < fs_batch_started s'" "fs_batch_started s' \<le> steady_now w"
    "steady_now w - fs_batch_started s' < ns_of_ms (fs_flush_interval (fs_options s))"
    "fs_flush_interval (fs_options s') = fs_flush_interval (fs_options s)" by auto
  then have d: "?d = fs_batch_started s' + ns_of_ms (fs_flush_interval (fs_options s))"
    using False int by (simp add: FileSink_NextAutoFlushTime_def auto_flush_time_def)
  have "FileSink_Write m (s, w) = (Inr (), (s', w'))" by (rule run)
  then have inv': "file_inv (s', w')" using Write_ok [OF good] file_inv_good [OF inv] by blast
  have "?d \<noteq> time_max" using d b far by simp
  then have due: "FileSink_FlushIfDue later (s', w') =
      (case FileSink_DrainStagingBuffer True (s', w') of (Inl e, st') \<Rightarrow> (Inl e, st') | (Inr u, st') \<Rightarrow> (Inr True, st'))"
    if "?d \<le> later" for later
    using that by (simp add: FlushIfDue_cases)
  have drained: "file_durable st2 = file_text (s', w') \<and> fs_staging (fst st2) = []"
    if "FileSink_DrainStagingBuffer True (s', w') = (Inr u, st2)" for u st2
    using drain_ok [OF _ that] file_inv_good [OF inv'] by auto
  show ?thesis
    unfolding Let_def using d b due drained by (auto split: prod.splits sum.splits)
qed simp

lemma example_inv: "file_inv (example_sink opts, example_disk)"
  using FileSink_new_ok [OF example_open] by blast

lemma bare_write:
  "FileSink_Write default_message (example_sink bare_options, example_disk) =
     (Inr (), (example_sink bare_options)\<lparr>fs_batch_started := 1, fs_staging := ''> '' @ [newline]\<rparr>, example_disk)"
  by (simp add: FileSink_Write_def FileSink_stage_def example_sink_def example_disk_def
    idle_world_def bare_options_def default_FileSinkOptions_def FormatTo_append bare_line
    flush_for_interval_def NormalizeBatchSize_def ns_of_ms_def Let_def)

theorem FileSink_deadline_witness:
  "steady_now example_disk <
     FileSink_NextAutoFlushTime
       ((example_sink bare_options)\<lparr>fs_batch_started := 1, fs_staging := ''> '' @ [newline]\<rparr>, example_disk)"
proof -
  have "0 < fs_flush_interval (fs_options (example_sink bare_options))"
    "0 < steady_now example_disk" "fs_staging (example_sink bare_options) = []"
    "steady_now example_disk + ns_of_ms (fs_flush_interval (fs_options (example_sink bare_options))) < time_max"
    by (simp_all add: example_sink_def example_disk_def idle_world_def bare_options_def
      default_FileSinkOptions_def ns_of_ms_def time_max_def)
  from FileSink_deadline [OF example_inv this(1,2) disjI1 [OF this(3)] bare_write this(4)]
  show ?thesis by (simp add: Let_def)
qed

text \<open>
  C39. A batch that is handed over because of its size, before it is old enough, is not flushed.  Whatever was staged
  before, all that the write does with the file is one write of the whole batch to its stream; afterwards the staging
  buffer is empty, so the sink asks for no further flush and no deadline check ever does one.  Unless the
  stream itself passes bytes on, nothing of the batch becomes durable.  The flush interval therefore bounds
  the delay of staged bytes only.
\<close>

theorem FileSink_size_batch_unflushed:
  assumes run: "FileSink_Write m (s, w) = (Inr (), st')"
    and big: "fs_max_batch_size (fs_options s) \<le> length (fs_staging s @ file_line m (s, w))"
    and young: "\<not> flush_for_interval (fs_flush_interval (fs_options s))
      (if fs_staging s = [] then steady_now w else fs_batch_started s) (steady_now w)"
  shows "ofstream_write (fs_staging s @ file_line m (s, w)) (fs_output s, w) = (fs_output (fst st'), snd st') \<and>
    fs_staging (fst st') = [] \<and> FileSink_NextAutoFlushTime st' = time_max \<and>
    (\<forall>now. FileSink_FlushIfDue now st' = (Inr False, st')) \<and>
    (file_inv (s, w) \<and> outcomes w = [] \<longrightarrow>
       file_text st' = file_text (s, w) @ file_line m (s, w) \<and> file_durable st' = file_durable (s, w))"
proof -
  let ?s = "FileSink_stage m w s" and ?batch = "fs_staging s @ file_line m (s, w)"
  have stage: "fs_staging ?s = ?batch" "fs_options ?s = fs_options s" "fs_output ?s = fs_output s"
    "fs_batch_started ?s = (if fs_staging s = [] then steady_now w else fs_batch_started s)"
    by (simp_all add: FileSink_stage_def file_line_def FormatTo_append Let_def)
  obtain f v where wr: "ofstream_write ?batch (fs_output s, w) = (f, v)" by (cases "ofstream_write ?batch (fs_output s, w)")
  have "?batch \<noteq> []" by (simp add: file_line_def)
  then have st': "st' = (?s\<lparr>fs_output := f, fs_staging := [], fs_batch_started := 0\<rparr>, v)"
    using run stage young big wr
    by (auto simp: FileSink_Write_def FileSink_DrainStagingBuffer_def FileSink_hand_over_def Let_def split: if_splits)
  then have next_time: "FileSink_NextAutoFlushTime st' = time_max"
    by (simp add: FileSink_NextAutoFlushTime_def auto_flush_time_def)
  then have never: "FileSink_FlushIfDue now st' = (Inr False, st')" for now by (simp add: FlushIfDue_cases)
  have "file_text st' = file_text (s, w) @ file_line m (s, w) \<and> file_durable st' = file_durable (s, w)"
    if "file_inv (s, w)" "outcomes w = []"
  proof -
    have "of_open (fs_output s)" "\<not> of_bad (fs_output s)" "disk w (of_path (fs_output s)) \<noteq> None"
      using that(1) by (simp_all add: file_inv_def stream_good_def)
    then have "f = (fs_output s)\<lparr>of_pending := of_pending (fs_output s) @ ?batch\<rparr>" "v = append_disk (of_path (fs_output s)) [] w"
      using wr that(2) by (auto simp: ofstream_write_def next_outcome_def)
    then show ?thesis using st' by (simp add: file_text_def stream_text_def file_durable_def)
  qed
  then show ?thesis using st' wr next_time never by simp
qed

text \<open>A line joins a staged one, and the two reach the size of a batch.\<close>

definition staged_sink :: FileSink where
  "staged_sink = (example_sink (bare_options\<lparr>fs_max_batch_size := 6\<rparr>))\<lparr>fs_batch_started := 1, fs_staging := ''> '' @ [newline]\<rparr>"

theorem FileSink_size_batch_unflushed_witness:
  "\<exists>st'. FileSink_Write default_message (staged_sink, example_disk) = (Inr (), st') \<and> fs_staging (fst st') = [] \<and>
     file_durable st' = [] \<and> FileSink_NextAutoFlushTime st' = time_max"
proof -
  have line: "file_line default_message (staged_sink, example_disk) = ''> '' @ [newline]"
    by (simp add: file_line_def staged_sink_def example_sink_def bare_options_def default_FileSinkOptions_def bare_line)
  obtain st' where run: "FileSink_Write default_message (staged_sink, example_disk) = (Inr (), st')"
    by (simp add: FileSink_Write_def FileSink_stage_def FileSink_DrainStagingBuffer_def FileSink_hand_over_def staged_sink_def
      example_sink_def example_disk_def idle_world_def bare_options_def default_FileSinkOptions_def FormatTo_append bare_line
      flush_for_interval_def NormalizeBatchSize_def ns_of_ms_def ofstream_write_def next_outcome_def Let_def)
  have "fs_max_batch_size (fs_options staged_sink) \<le> length (fs_staging staged_sink @ file_line default_message (staged_sink, example_disk))"
    unfolding line by (simp add: staged_sink_def example_sink_def NormalizeBatchSize_def)
  moreover have "\<not> flush_for_interval (fs_flush_interval (fs_options staged_sink))
      (if fs_staging staged_sink = [] then steady_now example_disk else fs_batch_started staged_sink) (steady_now example_disk)"
    by (simp add: flush_for_interval_def staged_sink_def example_sink_def example_disk_def idle_world_def bare_options_def
      default_FileSinkOptions_def ns_of_ms_def)
  moreover have "file_inv (staged_sink, example_disk)" "outcomes example_disk = []" "file_durable (staged_sink, example_disk) = []"
    using example_inv [of "bare_options\<lparr>fs_max_batch_size := 6\<rparr>"]
    by (simp_all add: file_inv_def staged_sink_def example_disk_def idle_world_def file_durable_def content_def example_sink_def
      NormalizeBatchSize_def)
  ultimately show ?thesis using FileSink_size_batch_unflushed [OF run] run by auto
qed

end
