(* ===== verification/Rotating_File_Sink.thy ===== *)
theory Rotating_File_Sink
  imports File_Sink
begin

text \<open>
  \<open>RotatingFileSink\<close> of \<open>include/hlog/sinks/rotating_file_sink.h\<close> and
  \<open>src/sinks/rotating_file_sink.cpp\<close>: a file sink that renames its file to \<open>path.1\<close>, \<open>path.1\<close> to
  \<open>path.2\<close> and so on when the next line would exceed the size limit.  Sizes are on \<open>nat\<close>: the sums
  of file and line sizes are taken to fit \<open>std::size_t\<close>.
\<close>

record RotatingFileSinkOptions =
  rs_truncate_on_open :: bool
  rs_max_file_size :: nat
  rs_max_files :: nat
  rs_max_batch_size :: nat
  rs_flush_interval :: int
  rs_pattern :: string

definition default_RotatingFileSinkOptions :: RotatingFileSinkOptions where
  "default_RotatingFileSinkOptions =
     \<lparr>rs_truncate_on_open = False, rs_max_file_size = 10 * 1024 * 1024, rs_max_files = 3,
      rs_max_batch_size = 64 * 1024, rs_flush_interval = 50, rs_pattern = kDefaultLogPattern\<rparr>"

record RotatingFileSink =
  rs_path :: string
  rs_options :: RotatingFileSinkOptions
  rs_output :: ofstream
  rs_staging :: string
  rs_current_size :: nat
  rs_batch_started :: int
  rs_formatter :: PatternFormatter

section \<open>Helpers of the source file\<close>

definition NormalizeSize :: "nat \<Rightarrow> nat" where
  "NormalizeSize v = (if v = 0 then 1 else v)"

definition ArchivePath :: "string \<Rightarrow> nat \<Rightarrow> string" where
  "ArchivePath path index = path @ ''.'' @ decimal index"

definition RemoveIfExists :: "string \<Rightarrow> (io_world, unit) exec" where
  "RemoveIfExists path = (\<lambda>w.
     case fs_remove path w of
       (Some OtherFsError, w') \<Rightarrow> (Inl (RuntimeError (''failed to remove path during rotation: '' @ path)), w')
     | (_, w') \<Rightarrow> (Inr (), w'))"

definition RenameIfExists :: "string \<Rightarrow> string \<Rightarrow> (io_world, unit) exec" where
  "RenameIfExists source destination = (\<lambda>w.
     case fs_exists source w of
       ((Some _, _), w1) \<Rightarrow> (Inl (RuntimeError (''failed to inspect path during rotation: '' @ source)), w1)
     | ((None, exists), w1) \<Rightarrow>
         if \<not> exists then (Inr (), w1)
         else andthen (RemoveIfExists destination)
           (\<lambda>_ w2. case fs_rename source destination w2 of
              (Some _, w3) \<Rightarrow> (Inl (RuntimeError (''failed to rotate log file from '' @ source @ '' to '' @ destination)), w3)
            | (None, w3) \<Rightarrow> (Inr (), w3)) w1)"

definition ExistingFileSize :: "string \<Rightarrow> (io_world, nat) exec" where
  "ExistingFileSize path = (\<lambda>w.
     case fs_file_size path w of
       (Inl NoSuchFile, w') \<Rightarrow> (Inr 0, w')
     | (Inl OtherFsError, w') \<Rightarrow> (Inl (RuntimeError (''failed to query log file size: '' @ path)), w')
     | (Inr n, w') \<Rightarrow> (Inr n, w'))"

section \<open>Opening and rotating\<close>

definition RotatingFileSink_Open :: "bool \<Rightarrow> (RotatingFileSink \<times> io_world, unit) exec" where
  "RotatingFileSink_Open trunc = (\<lambda>(s, w).
     let (output, w') = ofstream_open (rs_path s) trunc (rs_output s, w)
     in (if of_open output then Inr () else Inl (RuntimeError (''failed to open log file: '' @ rs_path s)),
         s\<lparr>rs_output := output\<rparr>, w'))"

definition set_current_size :: "nat \<Rightarrow> (RotatingFileSink \<times> io_world, unit) exec" where
  "set_current_size n = updates (\<lambda>(s, w). (s\<lparr>rs_current_size := n\<rparr>, w))"

definition RotatingFileSink_ResetOnStartup :: "(RotatingFileSink \<times> io_world, unit) exec" where
  "RotatingFileSink_ResetOnStartup = (\<lambda>(s, w).
     (if rs_truncate_on_open (rs_options s) then
        andthen (on_world (RemoveIfExists (rs_path s))) (\<lambda>_.
        andthen (on_world (for_each [1..<rs_max_files (rs_options s) + 1]
                   (\<lambda>index. RemoveIfExists (ArchivePath (rs_path s) index)))) (\<lambda>_.
        andthen (set_current_size 0) (\<lambda>_.
        RotatingFileSink_Open True)))
      else
        andthen (on_world (ExistingFileSize (rs_path s))) (\<lambda>size.
        andthen (set_current_size size) (\<lambda>_.
        RotatingFileSink_Open False))) (s, w))"

definition RotatingFileSink_new :: "string \<Rightarrow> RotatingFileSinkOptions \<Rightarrow> (io_world, RotatingFileSink) exec" where
  "RotatingFileSink_new path options = (\<lambda>w.
     let options' = options\<lparr>rs_max_file_size := NormalizeSize (rs_max_file_size options),
                            rs_max_batch_size := NormalizeSize (rs_max_batch_size options)\<rparr>;
         s = \<lparr>rs_path = path, rs_options = options', rs_output = ofstream_closed, rs_staging = [],
              rs_current_size = 0, rs_batch_started = 0, rs_formatter = PatternFormatter_new (rs_pattern options)\<rparr>
     in if path = [] then (Inl (InvalidArgument ''RotatingFileSink requires a non-empty path''), w)
        else case RotatingFileSink_ResetOnStartup (s, w) of
            (Inl e, _, w') \<Rightarrow> (Inl e, w')
          | (Inr _, s', w') \<Rightarrow> (Inr s', w'))"

text \<open>The loop of \<open>RotateFiles\<close> from \<open>index\<close> down to 2.\<close>

fun shift_archives :: "string \<Rightarrow> nat \<Rightarrow> (io_world, unit) exec" where
  "shift_archives path (Suc (Suc n)) =
     andthen (RenameIfExists (ArchivePath path (Suc n)) (ArchivePath path (Suc (Suc n))))
       (\<lambda>_. shift_archives path (Suc n))"
| "shift_archives path _ = ret ()"

definition RotatingFileSink_RotateFiles :: "(RotatingFileSink \<times> io_world, unit) exec" where
  "RotatingFileSink_RotateFiles = (\<lambda>(s, w).
     let (output, w') = ofstream_close (rs_output s, w);
         reopen = andthen (set_current_size 0) (\<lambda>_. RotatingFileSink_Open True)
     in (if rs_max_files (rs_options s) = 0 then reopen
         else andthen (on_world (shift_archives (rs_path s) (rs_max_files (rs_options s)))) (\<lambda>_.
              andthen (on_world (RenameIfExists (rs_path s) (ArchivePath (rs_path s) 1))) (\<lambda>_.
              reopen))) (s\<lparr>rs_output := output\<rparr>, w'))"

section \<open>Draining, writing and flushing\<close>

definition RotatingFileSink_hand_over :: "(RotatingFileSink \<times> io_world, unit) exec" where
  "RotatingFileSink_hand_over = (\<lambda>(s, w).
     if rs_staging s \<noteq> [] then
       (let (output, w') = ofstream_write (rs_staging s) (rs_output s, w)
        in if of_bad output then
             (Inl (RuntimeError ''failed to write rotating log batch''), s\<lparr>rs_output := output\<rparr>, w')
           else (Inr (), s\<lparr>rs_output := output, rs_current_size := rs_current_size s + length (rs_staging s),
                           rs_staging := [], rs_batch_started := 0\<rparr>, w'))
     else (Inr (), s, w))"

definition RotatingFileSink_flush_stream :: "(RotatingFileSink \<times> io_world, unit) exec" where
  "RotatingFileSink_flush_stream = (\<lambda>(s, w).
     let (output, w') = ofstream_flush (rs_output s, w)
     in (if of_bad output then Inl (RuntimeError ''failed to flush rotating log file'') else Inr (),
         s\<lparr>rs_output := output\<rparr>, w'))"

definition RotatingFileSink_DrainStagingBuffer :: "bool \<Rightarrow> (RotatingFileSink \<times> io_world, unit) exec" where
  "RotatingFileSink_DrainStagingBuffer flush_stream =
     andthen RotatingFileSink_hand_over (\<lambda>_. when_do flush_stream RotatingFileSink_flush_stream)"

text \<open>The two halves of \<open>Write\<close>: making room for a line, then staging it.\<close>

definition must_rotate :: "RotatingFileSink \<Rightarrow> nat \<Rightarrow> bool" where
  "must_rotate s added \<longleftrightarrow>
     rs_current_size s + length (rs_staging s) + added > rs_max_file_size (rs_options s) \<and>
     rs_current_size s + length (rs_staging s) > 0"

definition RotatingFileSink_make_room :: "nat \<Rightarrow> (RotatingFileSink \<times> io_world, unit) exec" where
  "RotatingFileSink_make_room added = (\<lambda>(s, w).
     when_do (must_rotate s added)
       (andthen (RotatingFileSink_DrainStagingBuffer True) (\<lambda>_. RotatingFileSink_RotateFiles)) (s, w))"

definition RotatingFileSink_stage :: "string \<Rightarrow> (RotatingFileSink \<times> io_world, unit) exec" where
  "RotatingFileSink_stage formatted = (\<lambda>(s, w).
     let now = steady_now w;
         s1 = (if rs_staging s = [] then s\<lparr>rs_batch_started := now\<rparr> else s);
         s2 = s1\<lparr>rs_staging := rs_staging s1 @ formatted\<rparr>;
         for_size = length (rs_staging s2) \<ge> rs_max_batch_size (rs_options s2);
         for_interval = flush_for_interval (rs_flush_interval (rs_options s2)) (rs_batch_started s2) now
     in if for_size \<or> for_interval then RotatingFileSink_DrainStagingBuffer for_interval (s2, w)
        else (Inr (), s2, w))"

definition RotatingFileSink_Write :: "LogMessage \<Rightarrow> (RotatingFileSink \<times> io_world, unit) exec" where
  "RotatingFileSink_Write message = (\<lambda>(s, w).
     let formatted = FormatTo (time_zone w) (rs_formatter s) [] message @ [newline]
     in andthen (RotatingFileSink_make_room (length formatted)) (\<lambda>_. RotatingFileSink_stage formatted) (s, w))"

definition RotatingFileSink_Flush :: "(RotatingFileSink \<times> io_world, unit) exec" where
  "RotatingFileSink_Flush = RotatingFileSink_DrainStagingBuffer True"

definition RotatingFileSink_NextAutoFlushTime :: "RotatingFileSink \<times> io_world \<Rightarrow> int" where
  "RotatingFileSink_NextAutoFlushTime = (\<lambda>(s, w).
     auto_flush_time (rs_staging s) (rs_flush_interval (rs_options s)) (rs_batch_started s))"

definition RotatingFileSink_FlushIfDue :: "int \<Rightarrow> (RotatingFileSink \<times> io_world, bool) exec" where
  "RotatingFileSink_FlushIfDue now = (\<lambda>st.
     let deadline = RotatingFileSink_NextAutoFlushTime st
     in if deadline = time_max \<or> now < deadline then (Inr False, st)
        else andthen (RotatingFileSink_DrainStagingBuffer True) (\<lambda>_. ret True) st)"

definition RotatingFileSink_ops :: "(RotatingFileSink \<times> io_world) sink_ops" where
  "RotatingFileSink_ops =
     \<lparr>op_write = RotatingFileSink_Write, op_flush = RotatingFileSink_Flush,
      op_next = RotatingFileSink_NextAutoFlushTime, op_due = RotatingFileSink_FlushIfDue\<rparr>"

section \<open>What the file system calls of a rotation do\<close>

lemma ArchivePath_eq [simp]: "ArchivePath p i = ArchivePath p j \<longleftrightarrow> i = j"
  by (simp add: ArchivePath_def)

lemma ArchivePath_not_path [simp]: "ArchivePath p i \<noteq> p" "p \<noteq> ArchivePath p i"
  by (simp_all add: ArchivePath_def)

text \<open>Everything of the environment except the disk and the outcomes still to come.\<close>

definition same_setting :: "io_world \<Rightarrow> io_world \<Rightarrow> bool" where
  "same_setting w w' \<longleftrightarrow> steady_now w' = steady_now w \<and> time_zone w' = time_zone w \<and>
     streams w' = streams w \<and> (all_ok w \<longrightarrow> all_ok w')"

lemma same_setting_refl [simp]: "same_setting w w"
  by (simp add: same_setting_def)

lemma same_setting_trans [trans]: "same_setting w1 w2 \<Longrightarrow> same_setting w2 w3 \<Longrightarrow> same_setting w1 w3"
  by (simp add: same_setting_def)

type_synonym files = "string \<Rightarrow> string option"

definition moved :: "string \<Rightarrow> string \<Rightarrow> files \<Rightarrow> files" where
  "moved src dst d = (case d src of None \<Rightarrow> d | Some bs \<Rightarrow> d(src := None, dst := Some bs))"

lemma RemoveIfExists_spec:
  assumes "RemoveIfExists p w = (r, w')"
  shows "same_setting w w' \<and> disk w' = (if r = Inr () then (disk w)(p := None) else disk w)"
proof -
  obtain x v where r: "next_outcome w = (x, v)" by (cases "next_outcome w")
  show ?thesis
    using assms r next_outcome_frame [OF r]
    by (cases x) (auto simp: RemoveIfExists_def fs_remove_def same_setting_def)
qed

lemma fs_exists_spec:
  assumes "fs_exists p w = ((e, b), w')"
  shows "same_setting w w' \<and> disk w' = disk w \<and> (e = None \<longrightarrow> (b \<longleftrightarrow> disk w p \<noteq> None))"
proof -
  obtain x v where r: "next_outcome w = (x, v)" by (cases "next_outcome w")
  show ?thesis
    using assms r next_outcome_frame [OF r]
    by (cases x) (auto simp: fs_exists_def same_setting_def)
qed

lemma fs_rename_spec:
  assumes "fs_rename src dst w = (e, w')"
  shows "same_setting w w' \<and> (e = None \<longrightarrow> disk w' = moved src dst (disk w)) \<and> (e \<noteq> None \<longrightarrow> disk w' = disk w)"
proof -
  obtain x v where r: "next_outcome w = (x, v)" by (cases "next_outcome w")
  show ?thesis
    using assms r next_outcome_frame [OF r]
    by (cases x) (auto simp: fs_rename_def same_setting_def moved_def split: option.splits)
qed

lemma RenameIfExists_spec:
  assumes "RenameIfExists src dst w = (r, w')" and "src \<noteq> dst"
  shows "same_setting w w' \<and>
    (if r = Inr () then disk w' = moved src dst (disk w)
     else disk w' = disk w \<or> (disk w src \<noteq> None \<and> disk w' = (disk w)(dst := None)))"
proof -
  obtain e b w1 where ex: "fs_exists src w = ((e, b), w1)" by (cases "fs_exists src w") auto
  note ex_spec = fs_exists_spec [OF ex]
  show ?thesis
  proof (cases "e = None \<and> b")
    case False
    with assms ex ex_spec show ?thesis
      by (cases e) (auto simp: RenameIfExists_def moved_def)
  next
    case True
    obtain r2 w2 where rm: "RemoveIfExists dst w1 = (r2, w2)" by (cases "RemoveIfExists dst w1")
    obtain e3 w3 where rn: "fs_rename src dst w2 = (e3, w3)" by (cases "fs_rename src dst w2")
    from True assms ex ex_spec rm rn RemoveIfExists_spec [OF rm] fs_rename_spec [OF rn]
    show ?thesis
      by (cases r2; cases e3)
        (auto simp: RenameIfExists_def moved_def same_setting_def split: option.splits)
  qed
qed

section \<open>The text the files hold\<close>

definition bytes_of :: "string option \<Rightarrow> string" where
  "bytes_of b = (case b of None \<Rightarrow> [] | Some bs \<Rightarrow> bs)"

lemma bytes_of_simps [simp]: "bytes_of None = []" "bytes_of (Some bs) = bs"
  by (simp_all add: bytes_of_def)

lemma content_bytes: "content w p = bytes_of (disk w p)"
  by (simp add: content_def bytes_of_def)

text \<open>The archives from the oldest, number \<open>n\<close>, to number 1; and the whole log with the current file.\<close>

fun older :: "string \<Rightarrow> nat \<Rightarrow> files \<Rightarrow> string" where
  "older p 0 d = []"
| "older p (Suc n) d = bytes_of (d (ArchivePath p (Suc n))) @ older p n d"

definition retained :: "string \<Rightarrow> nat \<Rightarrow> files \<Rightarrow> string" where
  "retained p n d = older p n d @ bytes_of (d p)"

lemma older_other: "(\<And>i. 1 \<le> i \<Longrightarrow> i \<le> n \<Longrightarrow> d' (ArchivePath p i) = d (ArchivePath p i)) \<Longrightarrow> older p n d' = older p n d"
  by (induction n) auto

lemma older_upd [simp]: "n < i \<Longrightarrow> older p n (d(ArchivePath p i := b)) = older p n d"
  "older p n (d(p := b)) = older p n d"
  by (rule older_other; simp)+

lemma older_newest:
  "d (ArchivePath p 1) = None \<Longrightarrow> older p (Suc n) (d(ArchivePath p 1 := Some bs)) = older p (Suc n) d @ bs"
proof (induction n)
  case (Suc n)
  then show ?case by (simp only: older.simps) (simp add: fun_upd_other)
qed simp

text \<open>One shift: what was in the oldest place may go, everything else keeps its order.\<close>

lemma shift_archives_frame:
  "shift_archives p n w = (r, w') \<Longrightarrow> same_setting w w' \<and>
    (\<forall>q. (\<forall>i. 1 \<le> i \<longrightarrow> i \<le> n \<longrightarrow> q \<noteq> ArchivePath p i) \<longrightarrow> disk w' q = disk w q)"
proof (induction p n arbitrary: w r w' rule: shift_archives.induct)
  case (1 path n)
  obtain r1 w1 where one: "RenameIfExists (ArchivePath path (Suc n)) (ArchivePath path (Suc (Suc n))) w = (r1, w1)"
    by (cases "RenameIfExists (ArchivePath path (Suc n)) (ArchivePath path (Suc (Suc n))) w")
  from RenameIfExists_spec [OF one]
  have sp: "same_setting w w1" "\<And>q. q \<noteq> ArchivePath path (Suc n) \<Longrightarrow> q \<noteq> ArchivePath path (Suc (Suc n)) \<Longrightarrow> disk w1 q = disk w q"
    by (auto simp: moved_def split: if_splits option.splits)
  show ?case
  proof (cases r1)
    case (Inl e)
    with 1 one sp show ?thesis by auto
  next
    case (Inr u)
    then have "shift_archives path (Suc n) w1 = (r, w')" using 1 one by simp
    from "1.IH" [OF this] sp show ?thesis by (auto intro: same_setting_trans)
  qed
qed auto

lemma shift_archives_keeps:
  "shift_archives p n w = (r, w') \<Longrightarrow>
     \<exists>lost. older p n (disk w) = lost @ older p n (disk w') \<and>
       lost \<in> {[], bytes_of (disk w (ArchivePath p n))}"
proof (induction p n arbitrary: w r w' rule: shift_archives.induct)
  case (1 p n)
  let ?a = "ArchivePath p (Suc n)" and ?b = "ArchivePath p (Suc (Suc n))"
  obtain r1 w1 where one: "RenameIfExists ?a ?b w = (r1, w1)" by (cases "RenameIfExists ?a ?b w")
  note sp = RenameIfExists_spec [OF one]
  show ?case
  proof (cases r1)
    case (Inl e)
    then have "w' = w1" using 1 one by simp
    then show ?thesis using sp Inl by auto
  next
    case (Inr u)
    then have rest: "shift_archives p (Suc n) w1 = (r, w')" using 1 one by simp
    have m: "disk w1 = moved ?a ?b (disk w)" using sp Inr by simp
    have "disk w' ?b = disk w1 ?b" using shift_archives_frame [OF rest] by auto
    moreover obtain lost where lost: "older p (Suc n) (disk w1) = lost @ older p (Suc n) (disk w')"
      "lost \<in> {[], bytes_of (disk w1 ?a)}" using "1.IH" [OF rest] by blast
    moreover have "bytes_of (disk w1 ?a) = []" using m by (auto simp: moved_def split: option.splits)
    ultimately show ?thesis using m by (auto simp: moved_def split: option.splits)
  qed
qed auto

lemma shift_archives_ok:
  "shift_archives p n w = (Inr (), w') \<Longrightarrow> 1 \<le> i \<Longrightarrow> i \<le> n \<Longrightarrow>
    disk w' (ArchivePath p i) =
      (if n = 1 then disk w (ArchivePath p 1)
       else if i = 1 then None
       else if i = n \<and> disk w (ArchivePath p (n - 1)) = None then disk w (ArchivePath p n)
       else disk w (ArchivePath p (i - 1)))"
proof (induction p n arbitrary: w w' rule: shift_archives.induct)
  case (1 p n)
  let ?a = "ArchivePath p (Suc n)" and ?b = "ArchivePath p (Suc (Suc n))"
  obtain r1 w1 where one: "RenameIfExists ?a ?b w = (r1, w1)" by (cases "RenameIfExists ?a ?b w")
  with "1.prems" have r1: "r1 = Inr ()" and rest: "shift_archives p (Suc n) w1 = (Inr (), w')"
    by (cases r1; auto)+
  have m: "disk w1 = moved ?a ?b (disk w)" using RenameIfExists_spec [OF one] r1 by simp
  have a1: "disk w1 ?a = None" using m by (auto simp: moved_def split: option.splits)
  have top: "disk w' ?b = disk w1 ?b" using shift_archives_frame [OF rest] by auto
  show ?case
  proof (cases "i = Suc (Suc n)")
    case True
    then show ?thesis using top m by (auto simp: moved_def split: option.splits)
  next
    case False
    then have i: "i \<le> Suc n" using "1.prems" by simp
    from "1.IH" [OF rest "1.prems"(2) i] False a1 m i show ?thesis
      using "1.prems"(2) by (auto simp: moved_def split: option.splits if_splits)
  qed
qed auto

section \<open>Rotation\<close>

definition rs_ready :: "RotatingFileSink \<times> io_world \<Rightarrow> bool" where
  "rs_ready = (\<lambda>(s, w). stream_good (rs_output s) w \<and> of_path (rs_output s) = rs_path s)"

text \<open>What no operation changes.\<close>

definition rs_frame :: "RotatingFileSink \<times> io_world \<Rightarrow> RotatingFileSink \<times> io_world \<Rightarrow> bool" where
  "rs_frame = (\<lambda>(s, w) (s', w'). rs_path s' = rs_path s \<and> rs_options s' = rs_options s \<and>
     rs_formatter s' = rs_formatter s \<and> same_setting w w')"

lemma rs_frame_refl [simp]: "rs_frame st st"
  by (simp add: rs_frame_def split_def)

lemma rs_frame_trans: "rs_frame st1 st2 \<Longrightarrow> rs_frame st2 st3 \<Longrightarrow> rs_frame st1 st3"
  by (auto simp: rs_frame_def intro: same_setting_trans)

lemma close_idle:
  assumes "stream_good f w" and "of_pending f = []" and "ofstream_close (f, w) = (f', w')"
  shows "\<not> of_open f' \<and> same_setting w w' \<and> disk w' = disk w"
proof -
  obtain x v where r: "next_outcome w = (x, v)" by (cases "next_outcome w")
  have "(disk v)(of_path f \<mapsto> content v (of_path f)) = disk w"
    using assms(1) next_outcome_frame [OF r] by (auto simp: stream_good_def content_def fun_eq_iff)
  with assms r next_outcome_frame [OF r] show ?thesis
    by (cases x) (auto simp: ofstream_close_def stream_good_def same_setting_def)
qed

lemma Open_spec:
  assumes closed: "\<not> of_open (rs_output s)" and run: "RotatingFileSink_Open trunc (s, w) = (r, (s', w'))"
  shows "rs_frame (s, w) (s', w') \<and> rs_staging s' = rs_staging s \<and> rs_current_size s' = rs_current_size s \<and>
    (if r = Inr () then rs_ready (s', w') \<and> of_pending (rs_output s') = [] \<and>
       disk w' = (disk w)(rs_path s \<mapsto> (if trunc then [] else content w (rs_path s)))
     else disk w' = disk w)"
proof -
  obtain f v where op: "ofstream_open (rs_path s) trunc (rs_output s, w) = (f, v)"
    by (cases "ofstream_open (rs_path s) trunc (rs_output s, w)")
  note sp = ofstream_open_spec [OF closed op]
  have "of_open f \<Longrightarrow> disk v = (disk w)(rs_path s \<mapsto> (if trunc then [] else content w (rs_path s)))"
    using sp by (auto simp: fun_eq_iff stream_good_def content_def split: option.splits)
  with run op sp show ?thesis
    by (auto simp: RotatingFileSink_Open_def rs_frame_def rs_ready_def same_setting_def split: if_splits)
qed

definition reopen :: "(RotatingFileSink \<times> io_world, unit) exec" where
  "reopen = andthen (set_current_size 0) (\<lambda>_. RotatingFileSink_Open True)"

lemma reopen_spec:
  assumes "\<not> of_open (rs_output s)" and "reopen (s, w) = (r, (s', w'))"
  shows "rs_frame (s, w) (s', w') \<and> rs_staging s' = rs_staging s \<and>
    (if r = Inr () then rs_ready (s', w') \<and> of_pending (rs_output s') = [] \<and> rs_current_size s' = 0 \<and>
       disk w' = (disk w)(rs_path s := Some [])
     else disk w' = disk w)"
  using Open_spec [of "s\<lparr>rs_current_size := 0\<rparr>" True w r s' w'] assms
  by (simp add: reopen_def set_current_size_def rs_frame_def)

text \<open>The renames of one rotation together, in terms of the files they leave.\<close>

definition rename_all :: "string \<Rightarrow> nat \<Rightarrow> (io_world, unit) exec" where
  "rename_all p n = andthen (shift_archives p n) (\<lambda>_. RenameIfExists p (ArchivePath p 1))"

lemma rename_all_keeps:
  assumes run: "rename_all p n w = (r, w')" and n: "0 < n"
  shows "same_setting w w' \<and>
    (\<exists>lost. retained p n (disk w) = lost @ retained p n (disk w') \<and>
       lost \<in> {[], bytes_of (disk w (ArchivePath p n))}) \<and> (r = Inr () \<longrightarrow> disk w' p = None)"
proof -
  obtain r1 w1 where one: "shift_archives p n w = (r1, w1)" by (cases "shift_archives p n w")
  from shift_archives_keeps [OF one] obtain lost where
    lost: "older p n (disk w) = lost @ older p n (disk w1)" "lost \<in> {[], bytes_of (disk w (ArchivePath p n))}"
    by blast
  have frame: "same_setting w w1" "disk w1 p = disk w p" using shift_archives_frame [OF one] by auto
  show ?thesis
  proof (cases r1)
    case (Inl e)
    then have "w' = w1" "r \<noteq> Inr ()" using run one by (auto simp: rename_all_def)
    then show ?thesis using lost frame by (auto simp: retained_def)
  next
    case (Inr u)
    then have two: "RenameIfExists p (ArchivePath p 1) w1 = (r, w')" using run one by (simp add: rename_all_def)
    note sp = RenameIfExists_spec [OF two]
    obtain k where k: "n = Suc k" using n by (cases n) auto
    have ok1: "shift_archives p n w = (Inr (), w1)" using one Inr by simp
    have a1: "disk w1 (ArchivePath p 1) = None" if "k > 0"
      using shift_archives_ok [OF ok1, of 1] that k by simp
    have cleared: "older p n d = bytes_of (d (ArchivePath p 1)) \<and> lost = []" if "k = 0" for d
      using that k lost one by simp
    let ?d = "disk w1" and ?a = "ArchivePath p 1"
    have kept: "older p n (?d(?a := None)) = older p n ?d" if "k > 0"
      using a1 [OF that] by (simp add: fun_upd_idem)
    have added: "older p n (?d(p := None, ?a := Some bs)) = older p n ?d @ bs" if "k > 0" for bs
      using older_newest [of "?d(p := None)" p k bs] a1 [OF that] k by simp
    have final: "disk w' = ?d \<or> (?d p \<noteq> None \<and> disk w' = ?d(?a := None)) \<or>
        (\<exists>bs. ?d p = Some bs \<and> disk w' = ?d(p := None, ?a := Some bs))"
      using sp by (auto simp: moved_def split: if_splits option.splits)
    have lost': "\<exists>x. retained p n (disk w) = x @ retained p n (disk w') \<and> x \<in> {[], bytes_of (disk w (ArchivePath p n))}"
    proof (cases "k > 0")
      case True
      then show ?thesis
        using final lost frame kept added by (auto simp: retained_def)
    next
      case False
      then show ?thesis
        using final lost frame cleared k by (auto simp: retained_def)
    qed
    have "r = Inr () \<Longrightarrow> disk w' p = None"
      using sp by (auto simp: moved_def split: option.splits)
    with lost' sp frame show ?thesis by (auto intro: same_setting_trans)
  qed
qed

lemma rename_all_ok:
  assumes run: "rename_all p n w = (Inr (), w')" and there: "disk w p \<noteq> None" and i: "1 \<le> i" "i \<le> n"
  shows "disk w' (ArchivePath p i) =
    (if i = 1 then disk w p
     else if i = n \<and> disk w (ArchivePath p (n - 1)) = None then disk w (ArchivePath p n)
     else disk w (ArchivePath p (i - 1)))"
proof -
  obtain r1 w1 where one: "shift_archives p n w = (r1, w1)" by (cases "shift_archives p n w")
  then have ok: "shift_archives p n w = (Inr (), w1)" "RenameIfExists p (ArchivePath p 1) w1 = (Inr (), w')"
    using run by (cases r1; simp add: rename_all_def)+
  have "disk w1 p = disk w p" using shift_archives_frame [OF one] by auto
  then show ?thesis
    using RenameIfExists_spec [OF ok(2)] shift_archives_ok [OF ok(1) i] there i
    by (auto simp: moved_def split: option.splits)
qed

lemma RotateFiles_eq:
  "RotatingFileSink_RotateFiles (s, w) =
     (let (output, v) = ofstream_close (rs_output s, w); n = rs_max_files (rs_options s); p = rs_path s
      in if n = 0 then reopen (s\<lparr>rs_output := output\<rparr>, v)
         else case rename_all p n v of
             (Inl e, v1) \<Rightarrow> (Inl e, s\<lparr>rs_output := output\<rparr>, v1)
           | (Inr _, v1) \<Rightarrow> reopen (s\<lparr>rs_output := output\<rparr>, v1))"
  by (auto simp: RotatingFileSink_RotateFiles_def reopen_def rename_all_def on_world_def Let_def
    split: prod.splits sum.splits)

text \<open>A rotation that starts with a flushed file, at any outcome of its file system calls.\<close>

lemma RotateFiles_spec:
  assumes ready: "rs_ready (s, w)" and flushed: "of_pending (rs_output s) = []"
    and run: "RotatingFileSink_RotateFiles (s, w) = (r, (s', w'))"
    and n: "n = rs_max_files (rs_options s)" and p: "p = rs_path s"
  shows "rs_frame (s, w) (s', w') \<and> rs_staging s' = rs_staging s \<and>
    (\<exists>lost. retained p n (disk w) = lost @ retained p n (disk w') \<and>
       lost \<in> {[], bytes_of (disk w (if n = 0 then p else ArchivePath p n))}) \<and>
    (r = Inr () \<longrightarrow> rs_ready (s', w') \<and> of_pending (rs_output s') = [] \<and> rs_current_size s' = 0 \<and>
       disk w' p = Some [] \<and>
       (\<forall>i. 1 \<le> i \<longrightarrow> i \<le> n \<longrightarrow> disk w' (ArchivePath p i) =
         (if i = 1 then disk w p
          else if i = n \<and> disk w (ArchivePath p (n - 1)) = None then disk w (ArchivePath p n)
          else disk w (ArchivePath p (i - 1)))))"
proof -
  obtain f v where cl: "ofstream_close (rs_output s, w) = (f, v)" by (cases "ofstream_close (rs_output s, w)")
  have good: "stream_good (rs_output s) w" "of_path (rs_output s) = p" using ready p by (simp_all add: rs_ready_def)
  then have there: "disk w p \<noteq> None" by (simp add: stream_good_def)
  have closed: "\<not> of_open f" "same_setting w v" "disk v = disk w"
    using close_idle [OF good(1) flushed cl] by auto
  let ?s = "s\<lparr>rs_output := f\<rparr>"
  have re: "rs_frame (s, w) (s', w') \<and> rs_staging s' = rs_staging s \<and>
      (if r = Inr () then rs_ready (s', w') \<and> of_pending (rs_output s') = [] \<and> rs_current_size s' = 0 \<and>
         disk w' = (disk v1)(p := Some []) else disk w' = disk v1)"
    if "reopen (?s, v1) = (r, (s', w'))" "same_setting w v1" for v1
    using reopen_spec [of ?s v1 r s' w'] that closed p by (auto simp: rs_frame_def intro: same_setting_trans)
  show ?thesis
  proof (cases "n = 0")
    case True
    then have "reopen (?s, v) = (r, (s', w'))" using run cl n by (simp add: RotateFiles_eq)
    from re [OF this closed(2)] closed True show ?thesis by (auto simp: retained_def split: if_splits)
  next
    case False
    obtain r1 v1 where ren: "rename_all p n v = (r1, v1)" by (cases "rename_all p n v")
    note keeps = rename_all_keeps [OF ren]
    have set1: "same_setting w v1" using keeps False closed(2) by (auto intro: same_setting_trans)
    show ?thesis
    proof (cases r1)
      case (Inl e)
      then have "r = Inl e" "s' = ?s" "w' = v1" using run cl ren n p False by (auto simp: RotateFiles_eq)
      then show ?thesis using keeps False closed set1 by (auto simp: rs_frame_def)
    next
      case (Inr u)
      then have "reopen (?s, v1) = (r, (s', w'))" using run cl ren n p False by (auto simp: RotateFiles_eq)
      note re = re [OF this set1]
      have "rename_all p n v = (Inr (), v1)" "disk v p \<noteq> None" using ren Inr there closed by simp_all
      note ok = rename_all_ok [OF this]
      show ?thesis
        using re keeps ok False closed Inr by (auto simp: retained_def split: if_splits)
    qed
  qed
qed

section \<open>Draining\<close>

text \<open>The text of the current file once everything handed over and staged has reached it.\<close>

definition rs_current :: "RotatingFileSink \<times> io_world \<Rightarrow> string" where
  "rs_current = (\<lambda>(s, w). stream_text (rs_output s) w @ rs_staging s)"

definition rs_good :: "RotatingFileSink \<times> io_world \<Rightarrow> bool" where
  "rs_good = (\<lambda>(s, w). rs_ready (s, w) \<and> rs_current_size s = length (stream_text (rs_output s) w))"

definition rs_step :: "RotatingFileSink \<times> io_world \<Rightarrow> RotatingFileSink \<times> io_world \<Rightarrow> bool" where
  "rs_step st st' \<longleftrightarrow> rs_frame st st' \<and> prefix (content (snd st') (rs_path (fst st))) (rs_current st) \<and>
     (\<forall>q. q \<noteq> rs_path (fst st) \<longrightarrow> disk (snd st') q = disk (snd st) q)"

lemma rs_hand_over_ok:
  assumes good: "rs_good (s, w)" and run: "RotatingFileSink_hand_over (s, w) = (r, (s', w'))"
  shows "rs_step (s, w) (s', w') \<and>
    (r = Inr () \<longrightarrow> rs_good (s', w') \<and> rs_current (s', w') = rs_current (s, w) \<and> rs_staging s' = [])"
proof -
  obtain f v where wr: "ofstream_write (rs_staging s) (rs_output s, w) = (f, v)"
    by (cases "ofstream_write (rs_staging s) (rs_output s, w)")
  have g: "stream_good (rs_output s) w" "of_path (rs_output s) = rs_path s"
    using good by (simp_all add: rs_good_def rs_ready_def)
  note spec = ofstream_write_spec [OF g(1) wr]
  have pre: "prefix (content v (rs_path s)) (rs_current (s, w))"
    using spec g content_prefix_text [of v f] by (simp add: rs_current_def)
  have pre0: "prefix (content w (rs_path s)) (rs_current (s, w))"
    using g content_prefix_text [of w "rs_output s"] by (simp add: rs_current_def prefix_prefix)
  show ?thesis
    using run wr spec g pre pre0 good
    by (auto simp: RotatingFileSink_hand_over_def rs_step_def rs_frame_def rs_good_def rs_ready_def
      rs_current_def stream_good_def same_setting_def only_grows_def split: if_splits)
qed

lemma rs_flush_stream_ok:
  assumes good: "rs_good (s, w)" and run: "RotatingFileSink_flush_stream (s, w) = (r, (s', w'))"
  shows "rs_step (s, w) (s', w') \<and>
    (r = Inr () \<longrightarrow> rs_good (s', w') \<and> rs_current (s', w') = rs_current (s, w) \<and>
       rs_staging s' = rs_staging s \<and> of_pending (rs_output s') = [])"
proof -
  obtain f v where fl: "ofstream_flush (rs_output s, w) = (f, v)" by (cases "ofstream_flush (rs_output s, w)")
  have g: "stream_good (rs_output s) w" "of_path (rs_output s) = rs_path s"
    using good by (simp_all add: rs_good_def rs_ready_def)
  note spec = ofstream_flush_spec [OF g(1) fl]
  have pre: "prefix (content v (rs_path s)) (rs_current (s, w))"
    using spec g content_prefix_text [of v f] by (simp add: rs_current_def prefix_prefix)
  show ?thesis
    using run fl spec g pre good
    by (auto simp: RotatingFileSink_flush_stream_def rs_step_def rs_frame_def rs_good_def rs_ready_def
      rs_current_def stream_good_def same_setting_def only_grows_def split: if_splits)
qed

lemma rs_step_refl: "rs_good st \<Longrightarrow> rs_step st st"
  by (cases st) (auto simp: rs_step_def rs_good_def rs_ready_def rs_current_def stream_text_def prefix_prefix)

lemma rs_drain_ok:
  assumes good: "rs_good (s, w)" and run: "RotatingFileSink_DrainStagingBuffer b (s, w) = (r, (s', w'))"
  shows "rs_step (s, w) (s', w') \<and>
    (r = Inr () \<longrightarrow> rs_good (s', w') \<and> rs_current (s', w') = rs_current (s, w) \<and> rs_staging s' = [] \<and>
       (b \<longrightarrow> of_pending (rs_output s') = []))"
proof -
  obtain r1 s1 w1 where h: "RotatingFileSink_hand_over (s, w) = (r1, (s1, w1))"
    by (cases "RotatingFileSink_hand_over (s, w)") auto
  note h_ok = rs_hand_over_ok [OF good h]
  show ?thesis
  proof (cases "b \<and> r1 = Inr ()")
    case False
    with run h h_ok show ?thesis by (cases r1) (auto simp: RotatingFileSink_DrainStagingBuffer_def)
  next
    case True
    then have f: "RotatingFileSink_flush_stream (s1, w1) = (r, (s', w'))"
      using run h by (simp add: RotatingFileSink_DrainStagingBuffer_def)
    have "rs_good (s1, w1)" using h_ok True by simp
    note f_ok = rs_flush_stream_ok [OF this f]
    have "rs_path s1 = rs_path s" using h_ok by (simp add: rs_step_def rs_frame_def)
    then show ?thesis
      using f_ok h_ok True by (auto simp: rs_step_def intro: rs_frame_trans)
  qed
qed

section \<open>Writing\<close>

text \<open>What the sink has accepted and not yet discarded, and the part of it that is in files.\<close>

definition rs_accepted :: "RotatingFileSink \<times> io_world \<Rightarrow> string" where
  "rs_accepted = (\<lambda>(s, w). older (rs_path s) (rs_max_files (rs_options s)) (disk w) @ rs_current (s, w))"

definition rs_durable :: "RotatingFileSink \<times> io_world \<Rightarrow> string" where
  "rs_durable = (\<lambda>(s, w). retained (rs_path s) (rs_max_files (rs_options s)) (disk w))"

definition rs_line :: "LogMessage \<Rightarrow> RotatingFileSink \<times> io_world \<Rightarrow> string" where
  "rs_line m = (\<lambda>(s, w). Format (time_zone w) (rs_formatter s) m @ [newline])"

definition rs_inv :: "RotatingFileSink \<times> io_world \<Rightarrow> bool" where
  "rs_inv = (\<lambda>(s, w). rs_good (s, w) \<and> length (rs_staging s) < rs_max_batch_size (rs_options s))"

lemma rs_step_durable:
  assumes "rs_step (s, w) (s', w')"
  shows "prefix (rs_durable (s', w')) (rs_accepted (s, w))"
proof -
  have "older (rs_path s) n (disk w') = older (rs_path s) n (disk w)" for n
    using assms by (intro older_other) (simp add: rs_step_def)
  then show ?thesis
    using assms by (auto simp: rs_durable_def rs_accepted_def retained_def rs_step_def rs_frame_def content_bytes)
qed

lemma rs_step_accepted:
  assumes "rs_step (s, w) (s', w')" and "rs_current (s', w') = rs_current (s, w) @ x"
  shows "rs_accepted (s', w') = rs_accepted (s, w) @ x"
proof -
  have "older (rs_path s) n (disk w') = older (rs_path s) n (disk w)" for n
    using assms(1) by (intro older_other) (simp add: rs_step_def)
  then show ?thesis using assms by (simp add: rs_accepted_def rs_step_def rs_frame_def)
qed

lemma rs_flushed:
  assumes "rs_good (s, w)" and "rs_staging s = []" and "of_pending (rs_output s) = []"
  shows "disk w (rs_path s) = Some (rs_current (s, w))" and "rs_durable (s, w) = rs_accepted (s, w)"
  using assms
  by (auto simp: rs_good_def rs_ready_def stream_good_def rs_current_def stream_text_def content_def
    rs_durable_def rs_accepted_def retained_def)

text \<open>How a rotation rearranges the archives; \<open>current\<close> is the text of the file that was closed.\<close>

definition archives_after :: "string \<Rightarrow> nat \<Rightarrow> string \<Rightarrow> files \<Rightarrow> files \<Rightarrow> bool" where
  "archives_after p n current d d' \<longleftrightarrow>
     (\<forall>i. 1 \<le> i \<longrightarrow> i \<le> n \<longrightarrow> d' (ArchivePath p i) =
       (if i = 1 then Some current
        else if i = n \<and> d (ArchivePath p (n - 1)) = None then d (ArchivePath p n)
        else d (ArchivePath p (i - 1))))"

lemma make_room_ok:
  assumes good: "rs_good (s, w)" and run: "RotatingFileSink_make_room k (s, w) = (r, (s', w'))"
  shows "rs_frame (s, w) (s', w') \<and> (\<exists>lost. prefix (lost @ rs_durable (s', w')) (rs_accepted (s, w))) \<and>
    (r = Inr () \<longrightarrow> rs_good (s', w') \<and> (\<exists>lost. rs_accepted (s, w) = lost @ rs_accepted (s', w')) \<and>
       (if must_rotate s k then rs_current (s', w') = [] \<and> rs_staging s' = [] \<and>
          archives_after (rs_path s) (rs_max_files (rs_options s)) (rs_current (s, w)) (disk w) (disk w')
        else (s', w') = (s, w)))"
proof (cases "must_rotate s k")
  case False
  then have "r = Inr ()" "(s', w') = (s, w)" using run by (simp_all add: RotatingFileSink_make_room_def)
  then show ?thesis
    using good False rs_step_durable [OF rs_step_refl [OF good]] by (auto intro: exI [of _ "[]"])
next
  case True
  let ?p = "rs_path s" and ?n = "rs_max_files (rs_options s)"
  obtain r1 s1 w1 where d: "RotatingFileSink_DrainStagingBuffer True (s, w) = (r1, (s1, w1))"
    by (cases "RotatingFileSink_DrainStagingBuffer True (s, w)") auto
  note d_ok = rs_drain_ok [OF good d]
  have step: "rs_step (s, w) (s1, w1)" using d_ok by simp
  have same: "rs_path s1 = ?p" "rs_options s1 = rs_options s" "\<And>q. q \<noteq> ?p \<Longrightarrow> disk w1 q = disk w q"
    using step by (simp_all add: rs_step_def rs_frame_def)
  show ?thesis
  proof (cases r1)
    case (Inl e)
    then have "r = Inl e" "s' = s1" "w' = w1" using run True d by (simp_all add: RotatingFileSink_make_room_def)
    then show ?thesis
      using step rs_step_durable [OF step] by (auto simp: rs_step_def intro: exI [of _ "[]"])
  next
    case (Inr u)
    then have g1: "rs_good (s1, w1)" "rs_staging s1 = []" "of_pending (rs_output s1) = []"
      "rs_current (s1, w1) = rs_current (s, w)" using d_ok by auto
    have rot: "RotatingFileSink_RotateFiles (s1, w1) = (r, (s', w'))"
      using run True d Inr by (simp add: RotatingFileSink_make_room_def)
    have ready: "rs_ready (s1, w1)" using g1(1) by (simp add: rs_good_def)
    note sp = RotateFiles_spec [OF ready g1(3) rot refl refl, unfolded same]
    have full: "rs_durable (s1, w1) = rs_accepted (s, w)" "disk w1 ?p = Some (rs_current (s, w))"
      using rs_flushed [OF g1(1-3)] rs_step_accepted [OF step, of "[]"] g1(4) same by auto
    have frame: "rs_frame (s, w) (s', w')" using sp step by (auto simp: rs_step_def intro: rs_frame_trans)
    from sp obtain lost where lost: "retained ?p ?n (disk w1) = lost @ retained ?p ?n (disk w')" by blast
    have dur: "rs_accepted (s, w) = lost @ rs_durable (s', w')"
      using lost full frame same by (simp add: rs_durable_def rs_frame_def)
    have ok: "rs_good (s', w') \<and> rs_current (s', w') = [] \<and> rs_staging s' = [] \<and>
        rs_durable (s', w') = rs_accepted (s', w') \<and>
        archives_after ?p ?n (rs_current (s, w)) (disk w) (disk w')" if "r = Inr ()"
    proof -
      have r: "rs_ready (s', w')" "of_pending (rs_output s') = []" "rs_current_size s' = 0" "disk w' ?p = Some []"
        "rs_staging s' = []" "rs_path s' = ?p" using sp that g1 frame by (auto simp: rs_frame_def)
      then have g: "rs_good (s', w')" "rs_current (s', w') = []"
        by (auto simp: rs_good_def rs_ready_def stream_text_def content_def rs_current_def)
      have "archives_after ?p ?n (rs_current (s, w)) (disk w) (disk w')"
        using sp that full same by (simp add: archives_after_def)
      with g r rs_flushed(2) [OF g(1)] show ?thesis by simp
    qed
    show ?thesis using frame dur ok True by auto
  qed
qed

lemma rs_stage_ok:
  assumes good: "rs_good (s, w)" and pos: "0 < rs_max_batch_size (rs_options s)"
    and run: "RotatingFileSink_stage x (s, w) = (r, (s', w'))"
  shows "rs_frame (s, w) (s', w') \<and> prefix (rs_durable (s', w')) (rs_accepted (s, w) @ x) \<and>
    (\<forall>q. q \<noteq> rs_path s \<longrightarrow> disk w' q = disk w q) \<and>
    (r = Inr () \<longrightarrow> rs_inv (s', w') \<and> rs_current (s', w') = rs_current (s, w) @ x \<and>
       rs_accepted (s', w') = rs_accepted (s, w) @ x)"
proof -
  let ?s1 = "if rs_staging s = [] then s\<lparr>rs_batch_started := steady_now w\<rparr> else s"
  let ?s = "?s1\<lparr>rs_staging := rs_staging ?s1 @ x\<rparr>"
  let ?int = "flush_for_interval (rs_flush_interval (rs_options ?s)) (rs_batch_started ?s) (steady_now w)"
  have same: "rs_path ?s = rs_path s" "rs_options ?s = rs_options s" "rs_formatter ?s = rs_formatter s"
    "rs_output ?s = rs_output s" "rs_staging ?s = rs_staging s @ x" "rs_current_size ?s = rs_current_size s"
    by simp_all
  have g: "rs_good (?s, w)" using good by (simp add: rs_good_def rs_ready_def)
  have acc: "rs_current (?s, w) = rs_current (s, w) @ x" "rs_accepted (?s, w) = rs_accepted (s, w) @ x"
    using same by (simp_all add: rs_current_def rs_accepted_def)
  have fr: "rs_frame (s, w) (?s, w)" using same by (simp add: rs_frame_def)
  show ?thesis
  proof (cases "length (rs_staging ?s) \<ge> rs_max_batch_size (rs_options ?s) \<or> ?int")
    case True
    then have "RotatingFileSink_DrainStagingBuffer ?int (?s, w) = (r, (s', w'))"
      using run by (auto simp: RotatingFileSink_stage_def Let_def)
    note d = rs_drain_ok [OF g this]
    then have step: "rs_step (?s, w) (s', w')" by simp
    have frame: "rs_frame (s, w) (s', w')" using step fr by (auto simp: rs_step_def intro: rs_frame_trans)
    have "prefix (rs_durable (s', w')) (rs_accepted (s, w) @ x)" using rs_step_durable [OF step] acc by simp
    moreover have "\<forall>q. q \<noteq> rs_path s \<longrightarrow> disk w' q = disk w q" using step same by (simp add: rs_step_def)
    moreover have "rs_inv (s', w') \<and> rs_current (s', w') = rs_current (s, w) @ x \<and>
       rs_accepted (s', w') = rs_accepted (s, w) @ x" if "r = Inr ()"
    proof -
      have k: "rs_good (s', w')" "rs_current (s', w') = rs_current (?s, w)" "rs_staging s' = []"
        using d that by auto
      have "rs_accepted (s', w') = rs_accepted (?s, w)" using rs_step_accepted [OF step, of "[]"] k by simp
      with k acc frame pos show ?thesis by (simp add: rs_inv_def rs_frame_def)
    qed
    ultimately show ?thesis using frame by blast
  next
    case False
    then have "r = Inr ()" "s' = ?s" "w' = w" using run by (auto simp: RotatingFileSink_stage_def Let_def)
    with False acc fr g rs_step_durable [OF rs_step_refl [OF g]] show ?thesis
      by (simp add: rs_inv_def)
  qed
qed

lemma rs_Write_ok:
  assumes good: "rs_good (s, w)" and pos: "0 < rs_max_batch_size (rs_options s)"
    and run: "RotatingFileSink_Write m (s, w) = (r, (s', w'))" and line: "line = rs_line m (s, w)"
  shows "rs_frame (s, w) (s', w') \<and> (\<exists>lost. prefix (lost @ rs_durable (s', w')) (rs_accepted (s, w) @ line)) \<and>
    (r = Inr () \<longrightarrow> rs_inv (s', w') \<and> (\<exists>lost kept. rs_accepted (s, w) = lost @ kept \<and> rs_accepted (s', w') = kept @ line) \<and>
       (if must_rotate s (length line)
        then rs_current (s', w') = line \<and>
          archives_after (rs_path s) (rs_max_files (rs_options s)) (rs_current (s, w)) (disk w) (disk w')
        else rs_current (s', w') = rs_current (s, w) @ line \<and> (\<forall>q. q \<noteq> rs_path s \<longrightarrow> disk w' q = disk w q)))"
proof -
  have l: "FormatTo (time_zone w) (rs_formatter s) [] m @ [newline] = line"
    using line by (simp add: rs_line_def Format_def)
  have run: "andthen (RotatingFileSink_make_room (length line)) (\<lambda>_. RotatingFileSink_stage line) (s, w) = (r, (s', w'))"
    using run by (simp only: RotatingFileSink_Write_def Let_def prod.case l)
  obtain r1 s1 w1 where mr: "RotatingFileSink_make_room (length line) (s, w) = (r1, (s1, w1))"
    by (cases "RotatingFileSink_make_room (length line) (s, w)") auto
  note mr_ok = make_room_ok [OF good mr]
  have fr1: "rs_frame (s, w) (s1, w1)" using mr_ok by blast
  show ?thesis
  proof (cases r1)
    case (Inl e)
    then have stop: "r = Inl e" "s' = s1" "w' = w1" using run mr by simp_all
    obtain lost where "prefix (lost @ rs_durable (s1, w1)) (rs_accepted (s, w))" using mr_ok by blast
    with stop have "prefix (lost @ rs_durable (s', w')) (rs_accepted (s, w) @ line)" "r \<noteq> Inr ()"
      by (simp_all add: prefix_prefix)
    with fr1 stop show ?thesis by blast
  next
    case (Inr u)
    then have st: "RotatingFileSink_stage line (s1, w1) = (r, (s', w'))"
      using run mr by simp
    have g1: "rs_good (s1, w1)" and pos1: "0 < rs_max_batch_size (rs_options s1)" and p1: "rs_path s1 = rs_path s"
      using mr_ok Inr fr1 pos by (auto simp: rs_frame_def)
    from mr_ok Inr obtain lost where lost: "rs_accepted (s, w) = lost @ rs_accepted (s1, w1)" by auto
    note st_ok = rs_stage_ok [OF g1 pos1 st]
    have fr: "rs_frame (s, w) (s', w')" using fr1 st_ok rs_frame_trans by blast
    have dur: "prefix (lost @ rs_durable (s', w')) (rs_accepted (s, w) @ line)"
      using st_ok lost by simp
    have arch: "archives_after (rs_path s) n c d (disk w') = archives_after (rs_path s) n c d (disk w1)" for n c d
      using st_ok p1 by (simp add: archives_after_def)
    have ok: "rs_inv (s', w')" "rs_current (s', w') = rs_current (s1, w1) @ line"
      "rs_accepted (s', w') = rs_accepted (s1, w1) @ line" if "r = Inr ()"
      using st_ok that by simp_all
    have room: "if must_rotate s (length line) then rs_current (s1, w1) = [] \<and>
          archives_after (rs_path s) (rs_max_files (rs_options s)) (rs_current (s, w)) (disk w) (disk w1)
        else (s1, w1) = (s, w)"
      using mr_ok Inr by (simp split: if_splits)
    have others: "\<forall>q. q \<noteq> rs_path s \<longrightarrow> disk w' q = disk w1 q" using st_ok p1 by simp
    have "\<exists>lost kept. rs_accepted (s, w) = lost @ kept \<and> rs_accepted (s', w') = kept @ line" if "r = Inr ()"
      using lost ok [OF that] by blast
    moreover have "if must_rotate s (length line)
        then rs_current (s', w') = line \<and>
          archives_after (rs_path s) (rs_max_files (rs_options s)) (rs_current (s, w)) (disk w) (disk w')
        else rs_current (s', w') = rs_current (s, w) @ line \<and> (\<forall>q. q \<noteq> rs_path s \<longrightarrow> disk w' q = disk w q)"
      if "r = Inr ()"
      using room ok [OF that] arch others by (cases "must_rotate s (length line)") simp_all
    ultimately show ?thesis using fr dur ok by blast
  qed
qed

lemma rs_inv_good: "rs_inv (s, w) \<Longrightarrow> rs_good (s, w) \<and> 0 < rs_max_batch_size (rs_options s)"
  by (auto simp: rs_inv_def)

lemma rs_drain_inv:
  assumes inv: "rs_inv (s, w)" and run: "RotatingFileSink_DrainStagingBuffer True (s, w) = (r, (s', w'))"
  shows "rs_frame (s, w) (s', w') \<and> prefix (rs_durable (s', w')) (rs_accepted (s, w)) \<and>
    (\<forall>q. q \<noteq> rs_path s \<longrightarrow> disk w' q = disk w q) \<and>
    (r = Inr () \<longrightarrow> rs_inv (s', w') \<and> rs_current (s', w') = rs_current (s, w) \<and>
       rs_accepted (s', w') = rs_accepted (s, w) \<and> rs_durable (s', w') = rs_accepted (s', w'))"
proof -
  note good = rs_inv_good [OF inv]
  note d = rs_drain_ok [OF conjunct1 [OF good] run]
  then have step: "rs_step (s, w) (s', w')" by simp
  have "rs_options s' = rs_options s" using step by (simp add: rs_step_def rs_frame_def)
  then show ?thesis
    using d good step rs_step_durable [OF step] rs_step_accepted [OF step, of "[]"] rs_flushed(2) [of s' w']
    by (auto simp: rs_inv_def rs_step_def)
qed

lemma rs_FlushIfDue_cases:
  "RotatingFileSink_FlushIfDue now st =
     (if RotatingFileSink_NextAutoFlushTime st = time_max \<or> now < RotatingFileSink_NextAutoFlushTime st
      then (Inr False, st)
      else case RotatingFileSink_DrainStagingBuffer True st of
        (Inl e, st') \<Rightarrow> (Inl e, st') | (Inr u, st') \<Rightarrow> (Inr True, st'))"
  by (simp add: RotatingFileSink_FlushIfDue_def andthen_def Let_def split: prod.splits sum.splits)

lemma rs_frame_format: "rs_frame st st' \<Longrightarrow> same_format rs_line (\<lambda>_. True) st st'"
  by (cases st; cases st') (simp add: rs_frame_def same_format_def rs_line_def same_setting_def)

interpretation rotating: sink_contract RotatingFileSink_ops rs_inv rs_accepted rs_durable rs_line "\<lambda>_. True"
proof unfold_locales
  fix st m st' assume "rs_inv st" "op_write RotatingFileSink_ops m st = (Inr (), st')"
  moreover obtain s w s' w' where "st = (s, w)" "st' = (s', w')" by (cases st; cases st')
  ultimately show "rs_inv st' \<and> same_format rs_line (\<lambda>_. True) st st' \<and>
      (\<exists>old kept. rs_accepted st = old @ kept \<and> rs_accepted st' = kept @ rs_line m st \<and> (True \<or> old = []))"
    using rs_Write_ok [OF _ _ _ refl, of s w m "Inr ()" s' w'] rs_inv_good [of s w] rs_frame_format [of "(s, w)" "(s', w')"]
    by (simp add: RotatingFileSink_ops_def)
next
  fix st st' assume "rs_inv st" "op_flush RotatingFileSink_ops st = (Inr (), st')"
  then show "rs_inv st' \<and> same_format rs_line (\<lambda>_. True) st st' \<and> rs_accepted st' = rs_accepted st \<and> rs_durable st' = rs_accepted st'"
    using rs_drain_inv [of "fst st" "snd st" "Inr ()" "fst st'" "snd st'"] rs_frame_format [of st st']
    by (simp add: RotatingFileSink_ops_def RotatingFileSink_Flush_def)
next
  fix st now b st' assume "rs_inv st" "op_due RotatingFileSink_ops now st = (Inr b, st')"
  then show "rs_inv st' \<and> same_format rs_line (\<lambda>_. True) st st' \<and> rs_accepted st' = rs_accepted st \<and>
      (\<not> b \<longrightarrow> st' = st)"
    using rs_drain_inv [of "fst st" "snd st" "Inr ()" "fst st'" "snd st'"] rs_frame_format [of st st']
    by (auto simp: RotatingFileSink_ops_def same_format_def rs_FlushIfDue_cases split: if_splits prod.splits sum.splits)
qed (auto simp: RotatingFileSink_ops_def rs_FlushIfDue_cases split: prod.splits sum.splits)

section \<open>Opening\<close>

lemma remove_all_spec:
  "for_each xs (\<lambda>i. RemoveIfExists (ArchivePath p i)) w = (Inr (), w') \<Longrightarrow>
     same_setting w w' \<and> disk w' = (\<lambda>q. if q \<in> ArchivePath p ` set xs then None else disk w q)"
proof (induction xs arbitrary: w)
  case (Cons x xs)
  obtain r1 w1 where one: "RemoveIfExists (ArchivePath p x) w = (r1, w1)" by (cases "RemoveIfExists (ArchivePath p x) w")
  with Cons.prems have "r1 = Inr ()" "for_each xs (\<lambda>i. RemoveIfExists (ArchivePath p i)) w1 = (Inr (), w')"
    by (cases r1; simp)+
  with Cons.IH RemoveIfExists_spec [OF one] show ?case
    by (auto intro: same_setting_trans simp: fun_eq_iff)
qed simp

lemma ExistingFileSize_spec:
  assumes "ExistingFileSize p w = (Inr n, w')"
  shows "same_setting w w' \<and> disk w' = disk w \<and> n = length (content w p)"
proof -
  obtain x v where r: "next_outcome w = (x, v)" by (cases "next_outcome w")
  show ?thesis
    using assms r next_outcome_frame [OF r]
    by (cases x) (auto simp: ExistingFileSize_def fs_file_size_def same_setting_def content_def split: option.splits)
qed

lemma older_empty: "(\<And>i. 1 \<le> i \<Longrightarrow> i \<le> n \<Longrightarrow> d (ArchivePath p i) = None) \<Longrightarrow> older p n d = []"
  by (induction n) auto

lemma ResetOnStartup_ok:
  assumes run: "RotatingFileSink_ResetOnStartup (s, w) = (Inr (), (s', w'))"
    and new: "\<not> of_open (rs_output s)" "rs_staging s = []"
  shows "rs_frame (s, w) (s', w') \<and> rs_good (s', w') \<and> rs_staging s' = [] \<and>
    (if rs_truncate_on_open (rs_options s)
     then rs_current (s', w') = [] \<and>
       (\<forall>i. 1 \<le> i \<longrightarrow> i \<le> rs_max_files (rs_options s) \<longrightarrow> disk w' (ArchivePath (rs_path s) i) = None)
     else rs_current (s', w') = content w (rs_path s) \<and> (\<forall>q. q \<noteq> rs_path s \<longrightarrow> disk w' q = disk w q)) \<and>
    (\<forall>q. q \<noteq> rs_path s \<longrightarrow> q \<notin> ArchivePath (rs_path s) ` {1..rs_max_files (rs_options s)} \<longrightarrow> disk w' q = disk w q)"
proof (cases "rs_truncate_on_open (rs_options s)")
  case True
  let ?rm = "for_each [1..<rs_max_files (rs_options s) + 1] (\<lambda>i. RemoveIfExists (ArchivePath (rs_path s) i))"
  obtain r1 w1 where one: "RemoveIfExists (rs_path s) w = (r1, w1)" by (cases "RemoveIfExists (rs_path s) w")
  obtain r2 w2 where two: "?rm w1 = (r2, w2)" by (cases "?rm w1")
  from run one two True have r: "r1 = Inr ()" "r2 = Inr ()" and
    op: "RotatingFileSink_Open True (s\<lparr>rs_current_size := 0\<rparr>, w2) = (Inr (), (s', w'))"
    by (cases r1; cases r2; simp add: RotatingFileSink_ResetOnStartup_def on_world_def set_current_size_def)+
  have "?rm w1 = (Inr (), w2)" using two r by simp
  note rm = remove_all_spec [OF this]
  have "rs_frame (s, w) (s', w')"
    using Open_spec [OF _ op] RemoveIfExists_spec [OF one] rm new
    by (auto simp: rs_frame_def intro: same_setting_trans)
  moreover from this have "rs_path s' = rs_path s" by (simp add: rs_frame_def)
  ultimately show ?thesis
    using Open_spec [OF _ op] RemoveIfExists_spec [OF one] rm new True
    by (auto simp: rs_good_def rs_ready_def rs_current_def stream_text_def content_def)
next
  case False
  obtain r1 w1 where one: "ExistingFileSize (rs_path s) w = (r1, w1)" by (cases "ExistingFileSize (rs_path s) w")
  from run one False obtain n where r: "r1 = Inr n" and
    op: "RotatingFileSink_Open False (s\<lparr>rs_current_size := n\<rparr>, w1) = (Inr (), (s', w'))"
    by (cases r1) (simp_all add: RotatingFileSink_ResetOnStartup_def on_world_def set_current_size_def)
  have "ExistingFileSize (rs_path s) w = (Inr n, w1)" using one r by simp
  note sz = ExistingFileSize_spec [OF this]
  have "rs_frame (s, w) (s', w')"
    using Open_spec [OF _ op] sz new by (auto simp: rs_frame_def intro: same_setting_trans)
  moreover from this have "rs_path s' = rs_path s" by (simp add: rs_frame_def)
  ultimately show ?thesis
    using Open_spec [OF _ op] sz new False
    by (auto simp: rs_good_def rs_ready_def rs_current_def stream_text_def content_def)
qed

lemma RotatingFileSink_new_ok:
  assumes "RotatingFileSink_new path opts w = (Inr s, w1)"
  shows "rs_inv (s, w1) \<and> rs_path s = path \<and> path \<noteq> [] \<and> same_setting w w1 \<and> rs_staging s = [] \<and>
    rs_formatter s = PatternFormatter_new (rs_pattern opts) \<and>
    rs_options s = opts\<lparr>rs_max_file_size := NormalizeSize (rs_max_file_size opts),
                        rs_max_batch_size := NormalizeSize (rs_max_batch_size opts)\<rparr> \<and>
    rs_accepted (s, w1) = (if rs_truncate_on_open opts then [] else retained path (rs_max_files opts) (disk w)) \<and>
    (rs_truncate_on_open opts \<longrightarrow> rs_current (s, w1) = [] \<and>
       (\<forall>i. 1 \<le> i \<longrightarrow> i \<le> rs_max_files opts \<longrightarrow> disk w1 (ArchivePath path i) = None)) \<and>
    (\<not> rs_truncate_on_open opts \<longrightarrow> rs_current (s, w1) = content w path \<and> (\<forall>q. q \<noteq> path \<longrightarrow> disk w1 q = disk w q)) \<and>
    (\<forall>q. q \<noteq> path \<longrightarrow> q \<notin> ArchivePath path ` {1..rs_max_files opts} \<longrightarrow> disk w1 q = disk w q)"
proof -
  let ?opts = "opts\<lparr>rs_max_file_size := NormalizeSize (rs_max_file_size opts),
                    rs_max_batch_size := NormalizeSize (rs_max_batch_size opts)\<rparr>"
  let ?s = "\<lparr>rs_path = path, rs_options = ?opts, rs_output = ofstream_closed, rs_staging = [],
             rs_current_size = 0, rs_batch_started = 0, rs_formatter = PatternFormatter_new (rs_pattern opts)\<rparr>"
  from assms have path: "path \<noteq> []" and run: "RotatingFileSink_ResetOnStartup (?s, w) = (Inr (), (s, w1))"
    by (auto simp: RotatingFileSink_new_def split: if_splits prod.splits sum.splits)
  have "\<not> of_open (rs_output ?s)" "rs_staging ?s = []" by (simp_all add: ofstream_closed_def)
  note ok = ResetOnStartup_ok [OF run this]
  have "older path (rs_max_files opts) (disk w1) = (if rs_truncate_on_open opts then [] else older path (rs_max_files opts) (disk w))"
    using ok by (auto intro!: older_empty older_other)
  with ok path show ?thesis
    by (auto simp: rs_inv_def rs_frame_def rs_accepted_def retained_def content_bytes NormalizeSize_def)
qed

section \<open>Sequences of calls\<close>

lemma rs_set_clock [simp]:
  "rs_inv (set_clock t st) = rs_inv st" "rs_accepted (set_clock t st) = rs_accepted st"
  "rs_durable (set_clock t st) = rs_durable st" "rs_current (set_clock t st) = rs_current st"
  "fst (set_clock t st) = fst st" "disk (snd (set_clock t st)) = disk (snd st)"
  by (cases st; simp add: set_clock_def rs_inv_def rs_good_def rs_ready_def rs_accepted_def rs_durable_def
      rs_current_def stream_good_def stream_text_def content_def)+

text \<open>What stays the same from call to call.\<close>

definition rs_setting :: "RotatingFileSink \<times> io_world \<Rightarrow> RotatingFileSink \<times> io_world \<Rightarrow> bool" where
  "rs_setting st st' \<longleftrightarrow> rs_path (fst st') = rs_path (fst st) \<and> rs_options (fst st') = rs_options (fst st) \<and>
     rs_formatter (fst st') = rs_formatter (fst st) \<and> time_zone (snd st') = time_zone (snd st)"

lemma rs_frame_setting: "rs_frame st st' \<Longrightarrow> rs_setting st st'"
  by (auto simp: rs_frame_def rs_setting_def same_setting_def)

lemma rs_setting_refl [simp]: "rs_setting st st"
  by (simp add: rs_setting_def)

lemma rs_setting_trans: "rs_setting st1 st2 \<Longrightarrow> rs_setting st2 st3 \<Longrightarrow> rs_setting st1 st3"
  by (simp add: rs_setting_def)

text \<open>A file is within the limit or holds nothing but one line.\<close>

definition within_limit :: "(int \<Rightarrow> tm) \<Rightarrow> PatternFormatter \<Rightarrow> nat \<Rightarrow> string \<Rightarrow> bool" where
  "within_limit tz f limit t \<longleftrightarrow> length t \<le> limit \<or> (\<exists>m. t = Format tz f m @ [newline])"

definition rs_bounded :: "RotatingFileSink \<times> io_world \<Rightarrow> bool" where
  "rs_bounded = (\<lambda>(s, w). let ok = within_limit (time_zone w) (rs_formatter s) (rs_max_file_size (rs_options s)) in
     ok (rs_current (s, w)) \<and>
     (\<forall>i. 1 \<le> i \<longrightarrow> i \<le> rs_max_files (rs_options s) \<longrightarrow> pred_option ok (disk w (ArchivePath (rs_path s) i))))"

lemma rs_bounded_keep:
  assumes "rs_bounded (s, w)" and "rs_setting (s, w) (s', w')" and "rs_current (s', w') = rs_current (s, w)"
    and "\<forall>q. q \<noteq> rs_path s \<longrightarrow> disk w' q = disk w q"
  shows "rs_bounded (s', w')"
  using assms by (simp add: rs_bounded_def rs_setting_def Let_def)

lemma rs_Write_bounded:
  assumes good: "rs_good (s, w)" and pos: "0 < rs_max_batch_size (rs_options s)" and bounded: "rs_bounded (s, w)"
    and run: "RotatingFileSink_Write m (s, w) = (Inr (), (s', w'))"
  shows "rs_bounded (s', w')"
proof -
  let ?line = "rs_line m (s, w)"
  note ok = rs_Write_ok [OF good pos run refl]
  let ?ok = "within_limit (time_zone w) (rs_formatter s) (rs_max_file_size (rs_options s))"
  have one: "?ok ?line" by (auto simp: within_limit_def rs_line_def)
  have same: "rs_setting (s, w) (s', w')" using ok rs_frame_setting by blast
  have size: "rs_current_size s + length (rs_staging s) = length (rs_current (s, w))"
    using good by (simp add: rs_good_def rs_current_def)
  have cur: "?ok (rs_current (s, w))" and arch: "\<And>i. 1 \<le> i \<Longrightarrow> i \<le> rs_max_files (rs_options s) \<Longrightarrow>
      pred_option ?ok (disk w (ArchivePath (rs_path s) i))"
    using bounded by (auto simp: rs_bounded_def Let_def)
  show ?thesis
  proof (cases "must_rotate s (length ?line)")
    case False
    then have "?ok (rs_current (s, w) @ ?line)"
      using one size by (auto simp: must_rotate_def within_limit_def)
    with ok False same arch show ?thesis
      by (simp add: rs_bounded_def rs_setting_def Let_def)
  next
    case True
    then have cur': "rs_current (s', w') = ?line"
      and after: "archives_after (rs_path s) (rs_max_files (rs_options s)) (rs_current (s, w)) (disk w) (disk w')"
      using ok by simp_all
    have "pred_option ?ok (disk w' (ArchivePath (rs_path s) i))" if i: "1 \<le> i" "i \<le> rs_max_files (rs_options s)" for i
    proof -
      have "disk w' (ArchivePath (rs_path s) i) = Some (rs_current (s, w)) \<or>
          disk w' (ArchivePath (rs_path s) i) = disk w (ArchivePath (rs_path s) i) \<or>
          (i \<noteq> 1 \<and> disk w' (ArchivePath (rs_path s) i) = disk w (ArchivePath (rs_path s) (i - 1)))"
        using after i by (auto simp: archives_after_def)
      then show ?thesis using arch [OF i] arch [of "i - 1"] cur i by auto
    qed
    then show ?thesis using one cur' same by (simp add: rs_bounded_def rs_setting_def Let_def)
  qed
qed

lemma rs_run_call_ok:
  assumes inv: "rs_inv st" and run: "run_call RotatingFileSink_ops c st = (r, st')"
    and bytes: "bytes = call_text (time_zone (snd st)) (rs_formatter (fst st)) c"
  shows "rs_setting st st' \<and> (\<exists>lost. prefix (lost @ rs_durable st') (rs_accepted st @ bytes)) \<and>
    (r = Inr () \<longrightarrow> rs_inv st' \<and> (\<exists>lost. rs_accepted st @ bytes = lost @ rs_accepted st') \<and>
       (rs_bounded st \<longrightarrow> rs_bounded st'))"
proof -
  obtain s w s' w' where st: "st = (s, w)" "st' = (s', w')" by (cases st; cases st')
  have flush: ?thesis if d: "RotatingFileSink_DrainStagingBuffer True st = (r', st')" and
    rr: "r = Inr () \<longleftrightarrow> r' = Inr ()" and e: "bytes = []" for r'
  proof -
    note ok = rs_drain_inv [OF inv [unfolded st] d [unfolded st]]
    have "rs_setting st st'" using ok st rs_frame_setting by blast
    moreover have "prefix ([] @ rs_durable st') (rs_accepted st @ bytes)" using ok e st by simp
    moreover have "rs_accepted st @ bytes = [] @ rs_accepted st'" if "r = Inr ()" using that ok rr e st by simp
    moreover have "rs_bounded st \<longrightarrow> rs_bounded st'" if "r = Inr ()"
      using that ok rr st rs_bounded_keep [of s w s' w'] \<open>rs_setting st st'\<close> by blast
    ultimately show ?thesis using ok rr st by blast
  qed
  show ?thesis
  proof (cases c)
    case (CallWrite m t)
    let ?w = "w\<lparr>steady_now := t\<rparr>"
    have sc: "set_clock t st = (s, ?w)" using st by (simp add: set_clock_def)
    have g: "rs_good (s, ?w) \<and> 0 < rs_max_batch_size (rs_options s)"
      using inv rs_inv_good rs_set_clock(1) [of t st] sc by simp
    have wr: "RotatingFileSink_Write m (s, ?w) = (r, (s', w'))"
      using run CallWrite sc st by (simp add: RotatingFileSink_ops_def)
    have line: "rs_line m (s, ?w) = bytes" using CallWrite bytes st by (simp add: rs_line_def call_text_def)
    note ok = rs_Write_ok [OF conjunct1 [OF g] conjunct2 [OF g] wr refl, unfolded line]
    have same: "rs_setting st st'"
      using conjunct1 [OF ok] rs_frame_setting st by (fastforce simp: rs_setting_def)
    have same_w: "rs_accepted (s, ?w) = rs_accepted st" "rs_current (s, ?w) = rs_current st"
      using rs_set_clock(2,4) [of t st] unfolding sc .
    then have acc: "rs_accepted (s, ?w) = rs_accepted st" "rs_bounded (s, ?w) = rs_bounded st"
      using st by (simp_all add: rs_bounded_def)
    have "rs_bounded st \<longrightarrow> rs_bounded st'" if "r = Inr ()"
      using rs_Write_bounded [OF conjunct1 [OF g] conjunct2 [OF g]] wr that acc st by blast
    moreover have "\<exists>lost. rs_accepted st @ bytes = lost @ rs_accepted st'" if "r = Inr ()"
      using ok that acc st by auto
    moreover have "\<exists>lost. prefix (lost @ rs_durable st') (rs_accepted st @ bytes)"
      using ok acc st by auto
    moreover have "r = Inr () \<Longrightarrow> rs_inv st'" using ok st by simp
    ultimately show ?thesis using same by blast
  next
    case CallFlush
    then show ?thesis
      using run bytes by (intro flush) (simp_all add: RotatingFileSink_ops_def RotatingFileSink_Flush_def call_text_def)
  next
    case (CallFlushIfDue now)
    then have e: "bytes = []" using bytes by (simp add: call_text_def)
    show ?thesis
    proof (cases "RotatingFileSink_NextAutoFlushTime st = time_max \<or> now < RotatingFileSink_NextAutoFlushTime st")
      case True
      then have "r = Inr ()" "st' = st"
        using run CallFlushIfDue by (auto simp: RotatingFileSink_ops_def rs_FlushIfDue_cases)
      moreover have "prefix (rs_durable st) (rs_accepted st)"
        using rs_step_durable rs_step_refl rs_inv_good inv st by blast
      ultimately show ?thesis using inv e by (auto intro: exI [of _ "[]"])
    next
      case False
      then show ?thesis
        using run CallFlushIfDue e
        by (intro flush) (auto simp: RotatingFileSink_ops_def rs_FlushIfDue_cases split: prod.splits sum.splits)
    qed
  qed
qed

lemma rs_run_calls_ok:
  "rs_inv st \<Longrightarrow> run_calls RotatingFileSink_ops cs st = (r, st') \<Longrightarrow>
     bytes = concat (map (call_text (time_zone (snd st)) (rs_formatter (fst st))) cs) \<Longrightarrow>
     rs_setting st st' \<and> (\<exists>lost. prefix (lost @ rs_durable st') (rs_accepted st @ bytes)) \<and>
     (r = Inr () \<longrightarrow> rs_inv st' \<and> (\<exists>lost. rs_accepted st @ bytes = lost @ rs_accepted st') \<and>
        (rs_bounded st \<longrightarrow> rs_bounded st'))"
proof (induction cs arbitrary: st bytes)
  case Nil
  then have "r = Inr ()" "st' = st" "bytes = []" by auto
  moreover have "prefix (rs_durable st) (rs_accepted st)"
    using rs_step_durable rs_step_refl rs_inv_good Nil(1) by (cases st) blast
  ultimately show ?case using Nil(1) by (auto intro: exI [of _ "[]"])
next
  case (Cons c cs)
  let ?t = "call_text (time_zone (snd st)) (rs_formatter (fst st))"
  let ?rest = "concat (map ?t cs)"
  have bytes: "bytes = ?t c @ ?rest" using Cons.prems(3) by simp
  obtain r1 st1 where one: "run_call RotatingFileSink_ops c st = (r1, st1)" by (cases "run_call RotatingFileSink_ops c st")
  note ok = rs_run_call_ok [OF Cons.prems(1) one refl]
  show ?case
  proof (cases r1)
    case (Inl e)
    then have "r = Inl e" "st' = st1" using Cons.prems(2) one by auto
    moreover obtain lost where "prefix (lost @ rs_durable st1) (rs_accepted st @ ?t c)" using ok by blast
    then have "prefix (lost @ rs_durable st1) (rs_accepted st @ bytes)"
      unfolding bytes using prefix_prefix by fastforce
    ultimately show ?thesis using ok by auto
  next
    case (Inr u)
    then have inv1: "rs_inv st1" and same: "rs_setting st st1" and b: "rs_bounded st \<longrightarrow> rs_bounded st1"
      and rest: "run_calls RotatingFileSink_ops cs st1 = (r, st')" using ok Cons.prems(2) one by auto
    from ok Inr obtain lost where lost: "rs_accepted st @ ?t c = lost @ rs_accepted st1" by auto
    have r: "?rest = concat (map (call_text (time_zone (snd st1)) (rs_formatter (fst st1))) cs)"
      using same by (simp add: rs_setting_def)
    note IH = Cons.IH [OF inv1 rest r]
    have eq: "rs_accepted st @ bytes = lost @ rs_accepted st1 @ ?rest" unfolding bytes using lost by simp
    from IH obtain lost2 where "prefix (lost2 @ rs_durable st') (rs_accepted st1 @ ?rest)" by blast
    then have "prefix ((lost @ lost2) @ rs_durable st') (rs_accepted st @ bytes)" unfolding eq by simp
    moreover have "\<exists>l. rs_accepted st @ bytes = l @ rs_accepted st'" if "r = Inr ()"
    proof -
      from IH that obtain l where "rs_accepted st1 @ ?rest = l @ rs_accepted st'" by blast
      then have "rs_accepted st @ bytes = (lost @ l) @ rs_accepted st'" unfolding eq by simp
      then show ?thesis by blast
    qed
    ultimately show ?thesis using IH b same rs_setting_trans by blast
  qed
qed

text \<open>
  C19. A rotating sink opened on a path and given any sequence of writes, flushes and deadline
  checks, with the operating system failing at any call, even in the middle of a rotation: read
  from the oldest archive to the current file, the files always hold one contiguous piece of the
  log, that is of the initial files followed by the formatted lines in order.  Only text in front
  of this piece has been given up, by rotation.  As long as nothing was thrown the piece, with
  the stream's buffer and the staging buffer behind it, reaches to the end of the log.
\<close>

theorem RotatingFileSink_calls_log:
  assumes "RotatingFileSink_new path opts w = (Inr s, w1)"
    and "run_calls RotatingFileSink_ops cs (s, w1) = (r, (s2, w2))"
  shows "let n = rs_max_files opts;
      log = (if rs_truncate_on_open opts then [] else retained path n (disk w)) @
        concat (map (call_text (time_zone w) (PatternFormatter_new (rs_pattern opts))) cs)
    in (\<exists>lost. prefix (lost @ retained path n (disk w2)) log) \<and>
      (if r = Inr () then
         (\<exists>lost. log = lost @ retained path n (disk w2) @ of_pending (rs_output s2) @ rs_staging s2)
       else True)"
proof -
  note new = RotatingFileSink_new_ok [OF assms(1)]
  have inv: "rs_inv (s, w1)" using new by blast
  note run = rs_run_calls_ok [OF inv assms(2) refl]
  have same: "rs_path s2 = path" "rs_max_files (rs_options s2) = rs_max_files opts"
    using run new by (auto simp: rs_setting_def)
  have piece: "rs_accepted (s2, w2) =
      retained path (rs_max_files opts) (disk w2) @ of_pending (rs_output s2) @ rs_staging s2" if "r = Inr ()"
    using run that same
    by (simp add: rs_accepted_def retained_def rs_current_def stream_text_def rs_inv_def rs_good_def rs_ready_def content_bytes)
  show ?thesis
    using run new same piece by (auto simp: Let_def rs_durable_def same_setting_def)
qed

text \<open>
  C20. The size limit.  When the files found at the start are within \<open>max_file_size\<close>, or are removed by
  \<open>truncate_on_open\<close>, and no exception has been thrown: the current file, counting what is still
  buffered, and every archive are within \<open>max_file_size\<close>, except a file that holds a single line
  longer than that.
\<close>

theorem RotatingFileSink_size_limit:
  assumes "RotatingFileSink_new path opts w = (Inr s, w1)"
    and start: "rs_truncate_on_open opts \<or>
      (\<forall>q \<in> insert path (ArchivePath path ` {1..rs_max_files opts}). pred_option
         (within_limit (time_zone w) (PatternFormatter_new (rs_pattern opts)) (NormalizeSize (rs_max_file_size opts))) (disk w q))"
    and "run_calls RotatingFileSink_ops cs (s, w1) = (Inr (), (s2, w2))"
  shows "let ok = within_limit (time_zone w) (PatternFormatter_new (rs_pattern opts)) (NormalizeSize (rs_max_file_size opts))
    in ok (content w2 path @ of_pending (rs_output s2) @ rs_staging s2) \<and>
      (\<forall>i \<in> {1..rs_max_files opts}. pred_option ok (disk w2 (ArchivePath path i)))"
proof -
  note new = RotatingFileSink_new_ok [OF assms(1)]
  have inv: "rs_inv (s, w1)" using new by blast
  note run = rs_run_calls_ok [OF inv assms(3) refl]
  have "rs_bounded (s, w1)"
  proof (cases "rs_truncate_on_open opts")
    case True
    then show ?thesis using new by (auto simp: rs_bounded_def Let_def within_limit_def)
  next
    case False
    let ?ok = "within_limit (time_zone w) (PatternFormatter_new (rs_pattern opts)) (NormalizeSize (rs_max_file_size opts))"
    have found: "pred_option ?ok (disk w path)" "\<forall>i \<in> {1..rs_max_files opts}. pred_option ?ok (disk w (ArchivePath path i))"
      using start False by simp_all
    have "?ok (content w path)"
      using found(1) by (cases "disk w path") (auto simp: content_def within_limit_def)
    then show ?thesis using new False found(2) ArchivePath_not_path by (auto simp: rs_bounded_def Let_def same_setting_def)
  qed
  then have "rs_bounded (s2, w2)" using run by blast
  moreover have "rs_path s2 = path" "rs_options s2 = rs_options s" "rs_formatter s2 = rs_formatter s"
    "time_zone w2 = time_zone w" "of_path (rs_output s2) = path"
    using run new by (auto simp: rs_setting_def same_setting_def rs_inv_def rs_good_def rs_ready_def)
  ultimately show ?thesis
    using new by (auto simp: rs_bounded_def Let_def rs_current_def stream_text_def)
qed

text \<open>
  One write.  A line is never divided between two files.  If it fits, or the current file is
  empty, it goes to the end of the current file and no other file changes.  Otherwise the whole
  old text of the current file becomes archive 1, every archive moves up by one place, the oldest
  one goes (it stays when there is a gap in front of it), and the line starts the new file.
\<close>

theorem RotatingFileSink_Write_effect:
  assumes inv: "rs_inv (s, w)" and run: "RotatingFileSink_Write m (s, w) = (Inr (), (s', w'))"
  shows "let line = Format (time_zone w) (rs_formatter s) m @ [newline];
      current = content w (rs_path s) @ of_pending (rs_output s) @ rs_staging s;
      current' = content w' (rs_path s) @ of_pending (rs_output s') @ rs_staging s'
    in if length current + length line \<le> rs_max_file_size (rs_options s) \<or> current = []
       then current' = current @ line \<and> (\<forall>q. q = rs_path s \<or> disk w' q = disk w q)
       else current' = line \<and>
         archives_after (rs_path s) (rs_max_files (rs_options s)) current (disk w) (disk w')"
proof -
  note good = rs_inv_good [OF inv]
  note ok = rs_Write_ok [OF conjunct1 [OF good] conjunct2 [OF good] run refl]
  have paths: "of_path (rs_output s) = rs_path s" "of_path (rs_output s') = rs_path s"
    and size: "rs_current_size s + length (rs_staging s) = length (rs_current (s, w))"
    using good ok by (auto simp: rs_good_def rs_ready_def rs_inv_def rs_frame_def rs_current_def)
  let ?line = "rs_line m (s, w)"
  have cur: "rs_current (s, w) = content w (rs_path s) @ of_pending (rs_output s) @ rs_staging s"
    "rs_current (s', w') = content w' (rs_path s) @ of_pending (rs_output s') @ rs_staging s'"
    using paths by (simp_all add: rs_current_def stream_text_def)
  have "must_rotate s (length ?line) \<longleftrightarrow>
      \<not> (length (rs_current (s, w)) + length ?line \<le> rs_max_file_size (rs_options s) \<or> rs_current (s, w) = [])"
    using size by (auto simp: must_rotate_def simp flip: length_greater_0_conv)
  with ok show ?thesis
    unfolding Let_def cur [symmetric] by (auto simp: rs_line_def)
qed

text \<open>
  C21. A rotation of a flushed file, at any outcome of its calls.  When it succeeds, the text of the current file
  is in archive 1 and every archive has moved up by one place, so that the oldest is gone (it stays when there is a
  gap in front of it), and the sink has an empty, open file; with \<open>max_files = 0\<close> there are no archives and the text of
  the current file is gone.  When an exception cuts it short, the files have still lost at most the oldest archive,
  or with \<open>max_files = 0\<close> the current file, and everything else stays in order.
\<close>

theorem RotateFiles_loses_oldest_only:
  assumes "rs_ready (s, w)" and "of_pending (rs_output s) = []"
    and "RotatingFileSink_RotateFiles (s, w) = (r, (s', w'))"
  shows "let n = rs_max_files (rs_options s); p = rs_path s;
      oldest = (if n = 0 then content w p else content w (ArchivePath p n))
    in retained p n (disk w) \<in> {retained p n (disk w'), oldest @ retained p n (disk w')} \<and>
      (if r = Inr () then disk w' p = Some [] \<and> of_open (rs_output s') \<and> rs_current_size s' = 0 \<and>
         archives_after p n (content w p) (disk w) (disk w') else True)"
proof -
  have "disk w (rs_path s) = Some (content w (rs_path s))"
    using assms(1) by (auto simp: rs_ready_def stream_good_def content_def)
  then show ?thesis
    using RotateFiles_spec [OF assms refl refl]
    by (auto simp: Let_def content_bytes rs_ready_def stream_good_def archives_after_def)
qed

section \<open>The files a sink touches\<close>

definition rs_files :: "RotatingFileSink \<Rightarrow> string set" where
  "rs_files s = insert (rs_path s) (ArchivePath (rs_path s) ` {1..rs_max_files (rs_options s)})"

definition rs_touches :: "RotatingFileSink \<times> io_world \<Rightarrow> RotatingFileSink \<times> io_world \<Rightarrow> bool" where
  "rs_touches = (\<lambda>(s, w) (s', w'). rs_frame (s, w) (s', w') \<and> (\<forall>q. q \<notin> rs_files s \<longrightarrow> disk w' q = disk w q))"

lemma rs_touches_trans: "rs_touches st1 st2 \<Longrightarrow> rs_touches st2 st3 \<Longrightarrow> rs_touches st1 st3"
  by (cases st1; cases st2; cases st3)
    (auto simp: rs_touches_def rs_files_def rs_frame_def intro: same_setting_trans)

lemma rs_step_touches: "rs_step st st' \<Longrightarrow> rs_touches st st'"
  by (cases st; cases st') (auto simp: rs_step_def rs_touches_def rs_files_def)

lemma rename_all_frame:
  assumes run: "rename_all p n w = (r, w')" and n: "0 < n"
    and q: "q \<noteq> p" "\<forall>i. 1 \<le> i \<longrightarrow> i \<le> n \<longrightarrow> q \<noteq> ArchivePath p i"
  shows "disk w' q = disk w q"
proof -
  obtain r1 w1 where one: "shift_archives p n w = (r1, w1)" by (cases "shift_archives p n w")
  have f: "disk w1 q = disk w q" using shift_archives_frame [OF one] q by auto
  show ?thesis
  proof (cases r1)
    case (Inl e)
    then show ?thesis using run one f by (auto simp: rename_all_def)
  next
    case (Inr u)
    then have "RenameIfExists p (ArchivePath p 1) w1 = (r, w')" using run one by (simp add: rename_all_def)
    from RenameIfExists_spec [OF this] show ?thesis
      using f q n by (auto simp: moved_def split: if_splits option.splits)
  qed
qed

lemma RotateFiles_touches:
  assumes ready: "rs_ready (s, w)" and flushed: "of_pending (rs_output s) = []"
    and run: "RotatingFileSink_RotateFiles (s, w) = (r, (s', w'))"
  shows "rs_touches (s, w) (s', w')"
proof -
  let ?n = "rs_max_files (rs_options s)" and ?p = "rs_path s"
  have frame: "rs_frame (s, w) (s', w')" using RotateFiles_spec [OF ready flushed run refl refl] by blast
  obtain f v where cl: "ofstream_close (rs_output s, w) = (f, v)" by (cases "ofstream_close (rs_output s, w)")
  have "stream_good (rs_output s) w" using ready by (simp add: rs_ready_def)
  then have closed: "\<not> of_open f" "disk v = disk w" using close_idle [OF _ flushed cl] by auto
  let ?s = "s\<lparr>rs_output := f\<rparr>"
  have re: "\<forall>q. q \<noteq> ?p \<longrightarrow> disk w' q = disk v1 q" if "reopen (?s, v1) = (r, (s', w'))" for v1
    using reopen_spec [OF _ that] closed by (auto split: if_splits)
  have "disk w' q = disk w q" if q: "q \<notin> rs_files s" for q
  proof (cases "?n = 0")
    case True
    then have "reopen (?s, v) = (r, (s', w'))" using run cl by (simp add: RotateFiles_eq)
    from re [OF this] q closed show ?thesis by (simp add: rs_files_def)
  next
    case False
    obtain r1 v1 where ren: "rename_all ?p ?n v = (r1, v1)" by (cases "rename_all ?p ?n v")
    have "\<forall>i. 1 \<le> i \<longrightarrow> i \<le> ?n \<longrightarrow> q \<noteq> ArchivePath ?p i" "q \<noteq> ?p" using q by (auto simp: rs_files_def)
    then have v1: "disk v1 q = disk w q" using rename_all_frame [OF ren] False closed by simp
    show ?thesis
    proof (cases r1)
      case (Inl e)
      then show ?thesis using run cl ren False v1 by (auto simp: RotateFiles_eq)
    next
      case (Inr u)
      then have "reopen (?s, v1) = (r, (s', w'))" using run cl ren False by (auto simp: RotateFiles_eq)
      from re [OF this] v1 \<open>q \<noteq> ?p\<close> show ?thesis by simp
    qed
  qed
  with frame show ?thesis by (simp add: rs_touches_def)
qed

lemma rs_Write_touches:
  assumes inv: "rs_inv (s, w)" and run: "RotatingFileSink_Write m (s, w) = (r, (s', w'))"
  shows "rs_touches (s, w) (s', w')"
proof -
  have good: "rs_good (s, w)" "0 < rs_max_batch_size (rs_options s)" using rs_inv_good [OF inv] by auto
  let ?f = "FormatTo (time_zone w) (rs_formatter s) [] m @ [newline]"
  have run: "andthen (RotatingFileSink_make_room (length ?f)) (\<lambda>_. RotatingFileSink_stage ?f) (s, w) = (r, (s', w'))"
    using run by (simp only: RotatingFileSink_Write_def Let_def prod.case)
  obtain r1 s1 w1 where mr: "RotatingFileSink_make_room (length ?f) (s, w) = (r1, (s1, w1))"
    by (cases "RotatingFileSink_make_room (length ?f) (s, w)") auto
  have room: "rs_touches (s, w) (s1, w1)"
  proof (cases "must_rotate s (length ?f)")
    case False
    then show ?thesis using mr by (simp add: RotatingFileSink_make_room_def rs_touches_def)
  next
    case True
    obtain r2 s2 w2 where d: "RotatingFileSink_DrainStagingBuffer True (s, w) = (r2, (s2, w2))"
      by (cases "RotatingFileSink_DrainStagingBuffer True (s, w)") auto
    note d_ok = rs_drain_ok [OF good(1) d]
    have t: "rs_touches (s, w) (s2, w2)" using d_ok rs_step_touches by blast
    show ?thesis
    proof (cases r2)
      case (Inl e)
      then show ?thesis using mr True d t by (auto simp: RotatingFileSink_make_room_def)
    next
      case (Inr u)
      then have "RotatingFileSink_RotateFiles (s2, w2) = (r1, (s1, w1))"
        using mr True d by (simp add: RotatingFileSink_make_room_def)
      from RotateFiles_touches [OF _ _ this] d_ok Inr have "rs_touches (s2, w2) (s1, w1)"
        by (auto simp: rs_good_def)
      with t show ?thesis by (rule rs_touches_trans)
    qed
  qed
  show ?thesis
  proof (cases r1)
    case (Inl e)
    then show ?thesis using run mr room by auto
  next
    case (Inr u)
    then have st: "RotatingFileSink_stage ?f (s1, w1) = (r, (s', w'))" using run mr by simp
    have g1: "rs_good (s1, w1)" "0 < rs_max_batch_size (rs_options s1)"
      using make_room_ok [OF good(1) mr] Inr good(2) by (auto simp: rs_frame_def)
    from rs_stage_ok [OF g1 st] have "rs_touches (s1, w1) (s', w')" by (auto simp: rs_touches_def rs_files_def)
    with room show ?thesis by (rule rs_touches_trans)
  qed
qed

section \<open>A concrete run\<close>

text \<open>Two lines of three bytes each in files of at most five bytes: the second line rotates.\<close>

definition small_options :: RotatingFileSinkOptions where
  "small_options = \<lparr>rs_truncate_on_open = True, rs_max_file_size = 5, rs_max_files = 2,
     rs_max_batch_size = 100, rs_flush_interval = 50, rs_pattern = ''> %v''\<rparr>"

definition small_sink :: RotatingFileSink where
  "small_sink = \<lparr>rs_path = ''app.log'', rs_options = small_options,
     rs_output = \<lparr>of_path = ''app.log'', of_open = True, of_bad = False, of_pending = []\<rparr>,
     rs_staging = [], rs_current_size = 0, rs_batch_started = 0, rs_formatter = PatternFormatter_new ''> %v''\<rparr>"

lemmas world_defs = next_outcome_def fs_remove_def fs_exists_def fs_rename_def ofstream_open_def
  ofstream_close_def ofstream_write_def ofstream_flush_def ofstream_closed_def on_world_def

lemma small_open: "\<exists>v. RotatingFileSink_new ''app.log'' small_options idle_world = (Inr small_sink, v) \<and>
    outcomes v = [] \<and> disk v = [''app.log'' \<mapsto> []] \<and> time_zone v = time_zone idle_world"
  by (simp add: RotatingFileSink_new_def RotatingFileSink_ResetOnStartup_def RotatingFileSink_Open_def
    set_current_size_def RemoveIfExists_def small_options_def small_sink_def NormalizeSize_def idle_world_def
    content_def upt_rec world_defs fun_eq_iff)

lemmas rotating_defs = RotatingFileSink_Write_def RotatingFileSink_make_room_def RotatingFileSink_stage_def
  RotatingFileSink_DrainStagingBuffer_def RotatingFileSink_hand_over_def RotatingFileSink_flush_stream_def
  RotatingFileSink_RotateFiles_def RotatingFileSink_Open_def RenameIfExists_def RemoveIfExists_def
  set_current_size_def must_rotate_def flush_for_interval_def

lemma bare_FormatTo: "FormatTo tz (PatternFormatter_new ''> %v'') [] default_message = ''> ''"
  using bare_line by (simp add: Format_def)

lemma small_write1:
  "RotatingFileSink_Write default_message (small_sink, v\<lparr>steady_now := 5\<rparr>) =
     (Inr (), small_sink\<lparr>rs_batch_started := 5, rs_staging := ''> '' @ [newline]\<rparr>, v\<lparr>steady_now := 5\<rparr>)"
  by (simp add: rotating_defs small_sink_def small_options_def bare_FormatTo ns_of_ms_def)

lemma small_write2:
  assumes "outcomes v = []" and "disk v = [''app.log'' \<mapsto> []]"
  shows "\<exists>v'. RotatingFileSink_Write default_message
      (small_sink\<lparr>rs_batch_started := 5, rs_staging := ''> '' @ [newline]\<rparr>, v) =
     (Inr (), small_sink\<lparr>rs_batch_started := steady_now v, rs_staging := ''> '' @ [newline]\<rparr>, v') \<and>
     outcomes v' = [] \<and> disk v' (ArchivePath ''app.log'' 1) = Some (''> '' @ [newline]) \<and> disk v' ''app.log'' = Some []"
  using assms
  by (simp add: rotating_defs small_sink_def small_options_def bare_FormatTo ns_of_ms_def world_defs
    content_def numeral_2_eq_2 Let_def)

definition two_writes :: "sink_call list" where
  "two_writes = [CallWrite default_message 5, CallWrite default_message 6]"

lemma two_writes_run:
  assumes "outcomes v = []" and "disk v = [''app.log'' \<mapsto> []]"
  shows "\<exists>s2 w2. run_calls RotatingFileSink_ops two_writes (small_sink, v) = (Inr (), (s2, w2))"
proof -
  let ?s = "small_sink\<lparr>rs_batch_started := 5, rs_staging := ''> '' @ [newline]\<rparr>"
  have "outcomes (v\<lparr>steady_now := 6\<rparr>) = []" "disk (v\<lparr>steady_now := 6\<rparr>) = [''app.log'' \<mapsto> []]"
    using assms by simp_all
  from small_write2 [OF this] show ?thesis
    by (auto simp: two_writes_def RotatingFileSink_ops_def set_clock_def small_write1)
qed

theorem RotatingFileSink_calls_log_witness:
  "\<exists>v s2 w2 lost. run_calls RotatingFileSink_ops two_writes (small_sink, v) = (Inr (), (s2, w2)) \<and>
     ''> '' @ [newline] @ ''> '' @ [newline] =
       lost @ retained ''app.log'' 2 (disk w2) @ of_pending (rs_output s2) @ rs_staging s2"
proof -
  obtain v where v: "RotatingFileSink_new ''app.log'' small_options idle_world = (Inr small_sink, v)"
    "outcomes v = []" "disk v = [''app.log'' \<mapsto> []]" using small_open by blast
  obtain s2 w2 where run: "run_calls RotatingFileSink_ops two_writes (small_sink, v) = (Inr (), (s2, w2))"
    using two_writes_run [OF v(2,3)] by blast
  from RotatingFileSink_calls_log [OF v(1) run] run show ?thesis
    by (auto simp: two_writes_def small_options_def call_text_def bare_line Let_def)
qed

theorem RotatingFileSink_size_limit_witness:
  "\<exists>v s2 w2. run_calls RotatingFileSink_ops two_writes (small_sink, v) = (Inr (), (s2, w2)) \<and>
     (\<forall>i \<in> {1..2}. pred_option (within_limit (time_zone idle_world) (PatternFormatter_new ''> %v'') 5)
        (disk w2 (ArchivePath ''app.log'' i)))"
proof -
  obtain v where v: "RotatingFileSink_new ''app.log'' small_options idle_world = (Inr small_sink, v)"
    "outcomes v = []" "disk v = [''app.log'' \<mapsto> []]" using small_open by blast
  obtain s2 w2 where run: "run_calls RotatingFileSink_ops two_writes (small_sink, v) = (Inr (), (s2, w2))"
    using two_writes_run [OF v(2,3)] by blast
  have "rs_truncate_on_open small_options" by (simp add: small_options_def)
  from RotatingFileSink_size_limit [OF v(1) disjI1 [OF this] run] run show ?thesis
    by (auto simp: small_options_def NormalizeSize_def Let_def)
qed

lemma small_inv:
  assumes "outcomes v = []" and "disk v = [''app.log'' \<mapsto> []]"
  shows "rs_inv (small_sink, v)"
  using assms
  by (simp add: rs_inv_def rs_good_def rs_ready_def small_sink_def small_options_def stream_good_def
    stream_text_def content_def)

theorem RotatingFileSink_Write_effect_witness:
  "\<exists>v s' w'. RotatingFileSink_Write default_message (small_sink, v) = (Inr (), (s', w')) \<and>
     content w' ''app.log'' @ of_pending (rs_output s') @ rs_staging s' = ''> '' @ [newline]"
proof -
  obtain v :: io_world where v: "outcomes v = []" "disk v = [''app.log'' \<mapsto> []]" using small_open by blast
  let ?v = "v\<lparr>steady_now := 5\<rparr>"
  have "rs_inv (small_sink, ?v)" using v by (intro small_inv) simp_all
  from RotatingFileSink_Write_effect [OF this small_write1] v
  have "content ?v ''app.log'' @ of_pending (rs_output small_sink) @ ''> '' @ [newline] = ''> '' @ [newline]"
    by (auto simp: Let_def small_sink_def bare_line content_def)
  with small_write1 [of v] show ?thesis by (fastforce simp: small_sink_def)
qed

lemma small_rotation:
  assumes "outcomes v = []" and "disk v = [''app.log'' \<mapsto> []]"
  shows "\<exists>s' w'. RotatingFileSink_RotateFiles (small_sink, v) = (Inr (), (s', w'))"
  using assms
  by (simp add: rotating_defs small_sink_def small_options_def world_defs content_def numeral_2_eq_2 Let_def)

theorem RotateFiles_loses_oldest_only_witness:
  "\<exists>v s' w'. RotatingFileSink_RotateFiles (small_sink, v) = (Inr (), (s', w')) \<and> disk w' ''app.log'' = Some []"
proof -
  obtain v :: io_world where v: "outcomes v = []" "disk v = [''app.log'' \<mapsto> []]" using small_open by blast
  obtain s' w' where run: "RotatingFileSink_RotateFiles (small_sink, v) = (Inr (), (s', w'))"
    using small_rotation [OF v] by blast
  have "rs_ready (small_sink, v)" "of_pending (rs_output small_sink) = []"
    using small_inv [OF v] by (simp_all add: rs_inv_def rs_good_def small_sink_def)
  from RotateFiles_loses_oldest_only [OF this run] run show ?thesis
    by (auto simp: Let_def small_sink_def)
qed

end
