(* ===== verification/Multi_Sink.thy ===== *)
theory Multi_Sink
  imports Sink_Interface
begin

text \<open>
  \<open>MultiSink\<close> of \<open>include/hlog/sinks/multi_sink.h\<close>: a sink that passes every call on to a list of
  child sinks.  The type \<open>'c\<close> of the children and their operations are parameters, as they are
  behind the pointers to the abstract class; all children work in one environment.  A null pointer
  is \<open>None\<close>.
\<close>

definition MultiSink_AddSink :: "'c option \<Rightarrow> ('c list, unit) exec" where
  "MultiSink_AddSink sink =
     (case sink of
        None \<Rightarrow> throw (InvalidArgument ''MultiSink requires non-null child sinks'')
      | Some c \<Rightarrow> updates (\<lambda>sinks. sinks @ [c]))"

definition MultiSink_new :: "'c option list \<Rightarrow> exn + 'c list" where
  "MultiSink_new sinks =
     (case for_each sinks MultiSink_AddSink [] of (Inl e, _) \<Rightarrow> Inl e | (Inr _, children) \<Rightarrow> Inr children)"

definition MultiSink_size :: "'c list \<Rightarrow> nat" where
  "MultiSink_size sinks = length sinks"

definition MultiSink_empty :: "'c list \<Rightarrow> bool" where
  "MultiSink_empty sinks \<longleftrightarrow> sinks = []"

text \<open>The loop over the children; an exception leaves it.\<close>

fun for_children :: "('c \<times> 'w, unit) exec \<Rightarrow> ('c list \<times> 'w, unit) exec" where
  "for_children f ([], w) = (Inr (), [], w)"
| "for_children f (c # cs, w) =
     (case f (c, w) of
        (Inl e, c', w') \<Rightarrow> (Inl e, c' # cs, w')
      | (Inr _, c', w') \<Rightarrow> (case for_children f (cs, w') of (r, cs', w'') \<Rightarrow> (r, c' # cs', w'')))"

definition MultiSink_Write :: "('c \<times> 'w) sink_ops \<Rightarrow> LogMessage \<Rightarrow> ('c list \<times> 'w, unit) exec" where
  "MultiSink_Write ops message = for_children (op_write ops message)"

definition MultiSink_Flush :: "('c \<times> 'w) sink_ops \<Rightarrow> ('c list \<times> 'w, unit) exec" where
  "MultiSink_Flush ops = for_children (op_flush ops)"

definition MultiSink_NextAutoFlushTime :: "('c \<times> 'w) sink_ops \<Rightarrow> 'c list \<times> 'w \<Rightarrow> int" where
  "MultiSink_NextAutoFlushTime ops =
     (\<lambda>(cs, w). foldl (\<lambda>next_flush c. min next_flush (op_next ops (c, w))) time_max cs)"

fun due_children :: "('c \<times> 'w) sink_ops \<Rightarrow> int \<Rightarrow> bool \<Rightarrow> ('c list \<times> 'w, bool) exec" where
  "due_children ops now flushed ([], w) = (Inr flushed, [], w)"
| "due_children ops now flushed (c # cs, w) =
     (case op_due ops now (c, w) of
        (Inl e, c', w') \<Rightarrow> (Inl e, c' # cs, w')
      | (Inr b, c', w') \<Rightarrow>
          (case due_children ops now (b \<or> flushed) (cs, w') of (r, cs', w'') \<Rightarrow> (r, c' # cs', w'')))"

definition MultiSink_FlushIfDue :: "('c \<times> 'w) sink_ops \<Rightarrow> int \<Rightarrow> ('c list \<times> 'w, bool) exec" where
  "MultiSink_FlushIfDue ops now = due_children ops now False"

definition MultiSink_ops :: "('c \<times> 'w) sink_ops \<Rightarrow> ('c list \<times> 'w) sink_ops" where
  "MultiSink_ops ops =
     \<lparr>op_write = MultiSink_Write ops, op_flush = MultiSink_Flush ops,
      op_next = MultiSink_NextAutoFlushTime ops, op_due = MultiSink_FlushIfDue ops\<rparr>"

section \<open>Construction\<close>

lemma add_all:
  "for_each sinks MultiSink_AddSink cs =
     (if None \<in> set sinks
      then (Inl (InvalidArgument ''MultiSink requires non-null child sinks''),
            cs @ map the (takeWhile (\<lambda>s. s \<noteq> None) sinks))
      else (Inr (), cs @ map the sinks))"
proof (induction sinks arbitrary: cs)
  case (Cons s sinks)
  then show ?case by (cases s) (auto simp: MultiSink_AddSink_def)
qed simp

text \<open>
  The constructor keeps every child in the given order and refuses a list with a null pointer.
\<close>

theorem MultiSink_new_keeps_children:
  "MultiSink_new sinks =
     (if None \<in> set sinks then Inl (InvalidArgument ''MultiSink requires non-null child sinks'')
      else Inr (map the sinks))"
  by (simp add: MultiSink_new_def add_all)

section \<open>Deadlines\<close>

lemma foldl_min:
  "foldl (\<lambda>a c. min a (g c)) (t::int) cs = (if cs = [] then t else min t (Min (g ` set cs)))"
  by (induction cs arbitrary: t) (auto simp: min.assoc)

lemma NextAutoFlushTime_less:
  "now < MultiSink_NextAutoFlushTime ops (cs, w) \<longleftrightarrow> now < time_max \<and> (\<forall>c \<in> set cs. now < op_next ops (c, w))"
  by (auto simp: MultiSink_NextAutoFlushTime_def foldl_min)

section \<open>The order of a fan-out\<close>

text \<open>
  \<open>fans_out f k (cs, w) (r, cs', w')\<close>: the first \<open>k\<close> children were called in order, each in the
  environment the one before left, and returned; then the list was at its end, or child \<open>k\<close> threw
  and the children behind it were not called.
\<close>

inductive fans_out :: "('c \<times> 'w, unit) exec \<Rightarrow> nat \<Rightarrow> 'c list \<times> 'w \<Rightarrow> (exn + unit) \<times> 'c list \<times> 'w \<Rightarrow> bool"
  for f where
  fan_end: "fans_out f 0 ([], w) (Inr (), [], w)"
| fan_throw: "f (c, w) = (Inl e, c', w') \<Longrightarrow> fans_out f 0 (c # cs, w) (Inl e, c' # cs, w')"
| fan_next: "f (c, w) = (Inr u, c', w') \<Longrightarrow> fans_out f k (cs, w') (r, cs', w'') \<Longrightarrow>
    fans_out f (Suc k) (c # cs, w) (r, c' # cs', w'')"

inductive_cases fans_out_cases: "fans_out f k (cs, w) res"

lemma for_children_fans_out: "\<exists>k \<le> length cs. fans_out f k (cs, w) (for_children f (cs, w))"
proof (induction cs arbitrary: w)
  case Nil
  show ?case by (auto intro: fan_end)
next
  case (Cons c cs)
  obtain r c' w' where f: "f (c, w) = (r, c', w')" by (cases "f (c, w)") auto
  show ?case
  proof (cases r)
    case (Inl e)
    with f show ?thesis by (auto intro!: fan_throw exI [of _ 0])
  next
    case (Inr u)
    from Cons [of w'] obtain k where k: "k \<le> length cs" "fans_out f k (cs, w') (for_children f (cs, w'))" by blast
    obtain r2 cs' w'' where rest: "for_children f (cs, w') = (r2, cs', w'')" by (cases "for_children f (cs, w')") auto
    have "fans_out f (Suc k) (c # cs, w) (r2, c' # cs', w'')"
      using f k rest Inr by (intro fan_next) auto
    then show ?thesis using f rest Inr k by (auto intro!: exI [of _ "Suc k"])
  qed
qed

lemma fans_out_length: "fans_out f k st (r, cs', w') \<Longrightarrow> length cs' = length (fst st) \<and> (r = Inr () \<longleftrightarrow> k = length (fst st))"
  by (induction k st "(r, cs', w')" arbitrary: r cs' w' rule: fans_out.induct) auto

lemma fans_out_untouched: "fans_out f k st (r, cs', w') \<Longrightarrow> k < i \<Longrightarrow> i < length (fst st) \<Longrightarrow> cs' ! i = fst st ! i"
proof (induction k st "(r, cs', w')" arbitrary: r cs' w' i rule: fans_out.induct)
  case (fan_throw c w e c' w' cs)
  then show ?case by (cases i) auto
next
  case (fan_next c w u c' w' k cs r cs' w'')
  then show ?case by (cases i) auto
qed auto

text \<open>
  A write reaches the children one after the other, up to the first that throws; that
  exception is the result, the children behind the thrower are as before, and without a thrower
  every child has been called.
\<close>

theorem MultiSink_Write_fan_out:
  "case MultiSink_Write ops m (cs, w) of (r, cs', w') \<Rightarrow>
     \<exists>k \<le> length cs. fans_out (op_write ops m) k (cs, w) (r, cs', w') \<and> length cs' = length cs \<and>
       (r = Inr () \<longleftrightarrow> k = length cs) \<and> drop (Suc k) cs' = drop (Suc k) cs"
proof -
  obtain r cs' w' where run: "for_children (op_write ops m) (cs, w) = (r, cs', w')"
    by (cases "for_children (op_write ops m) (cs, w)") auto
  obtain k where k: "k \<le> length cs" "fans_out (op_write ops m) k (cs, w) (r, cs', w')"
    using for_children_fans_out [of cs "op_write ops m" w] run by auto
  have len: "length cs' = length cs" "r = Inr () \<longleftrightarrow> k = length cs" using fans_out_length [OF k(2)] by simp_all
  have "drop (Suc k) cs' = drop (Suc k) cs"
    using fans_out_untouched [OF k(2)] len by (intro nth_equalityI) auto
  with k len run show ?thesis by (auto simp: MultiSink_Write_def)
qed

section \<open>Independent children keep their contracts\<close>

text \<open>
  What can be seen of one sink, and sinks that share an environment without disturbing each other:
  a successful operation on one leaves the other's invariant and what can be seen of it alone.
\<close>

definition same_view ::
  "('c \<times> 'w \<Rightarrow> string) \<Rightarrow> ('c \<times> 'w \<Rightarrow> string) \<Rightarrow> (LogMessage \<Rightarrow> 'c \<times> 'w \<Rightarrow> string) \<Rightarrow>
   ('c \<times> 'w \<Rightarrow> bool) \<Rightarrow> 'c \<times> 'w \<Rightarrow> 'c \<times> 'w \<Rightarrow> bool"
where
  "same_view accepted durable line lossy st st' \<longleftrightarrow>
     accepted st' = accepted st \<and> durable st' = durable st \<and> same_format line lossy st st'"

definition leaves_alone ::
  "('c \<times> 'w \<Rightarrow> bool) \<Rightarrow> ('c \<times> 'w \<Rightarrow> string) \<Rightarrow> ('c \<times> 'w \<Rightarrow> string) \<Rightarrow> (LogMessage \<Rightarrow> 'c \<times> 'w \<Rightarrow> string) \<Rightarrow>
   ('c \<times> 'w \<Rightarrow> bool) \<Rightarrow> ('c \<Rightarrow> 'c \<Rightarrow> bool) \<Rightarrow> 'c \<times> 'w \<Rightarrow> 'c \<times> 'w \<Rightarrow> bool"
where
  "leaves_alone ok accepted durable line lossy apart = (\<lambda>(c, w) (c', w').
     \<forall>d. apart c d \<longrightarrow> apart c' d \<and> (ok (d, w) \<longrightarrow> ok (d, w') \<and> same_view accepted durable line lossy (d, w) (d, w')))"

locale sink_family = sink_contract ops inv accepted durable line lossy
  for ops :: "('c \<times> 'w) sink_ops"
    and inv :: "'c \<times> 'w \<Rightarrow> bool"
    and accepted :: "'c \<times> 'w \<Rightarrow> string"
    and durable :: "'c \<times> 'w \<Rightarrow> string"
    and line :: "LogMessage \<Rightarrow> 'c \<times> 'w \<Rightarrow> string"
    and lossy :: "'c \<times> 'w \<Rightarrow> bool" +
  fixes apart :: "'c \<Rightarrow> 'c \<Rightarrow> bool"
  assumes apart_sym: "apart c d \<Longrightarrow> apart d c"
    and write_alone: "inv (c, w) \<Longrightarrow> op_write ops m (c, w) = (Inr (), (c', w')) \<Longrightarrow>
      leaves_alone inv accepted durable line lossy apart (c, w) (c', w')"
    and flush_alone: "inv (c, w) \<Longrightarrow> op_flush ops (c, w) = (Inr (), (c', w')) \<Longrightarrow>
      leaves_alone inv accepted durable line lossy apart (c, w) (c', w')"
    and due_alone: "inv (c, w) \<Longrightarrow> op_due ops now (c, w) = (Inr b, (c', w')) \<Longrightarrow>
      leaves_alone inv accepted durable line lossy apart (c, w) (c', w')"
begin

abbreviation view_of :: "'c \<times> 'w \<Rightarrow> string \<times> string \<times> (LogMessage \<Rightarrow> string) \<times> bool" where
  "view_of st \<equiv> (accepted st, durable st, \<lambda>m. line m st, lossy st)"

abbreviation text_of :: "'c \<times> 'w \<Rightarrow> string \<times> (LogMessage \<Rightarrow> string) \<times> bool" where
  "text_of st \<equiv> (accepted st, \<lambda>m. line m st, lossy st)"

abbreviation alone :: "'c \<times> 'w \<Rightarrow> 'c \<times> 'w \<Rightarrow> bool" where
  "alone \<equiv> leaves_alone inv accepted durable line lossy apart"

fun children_inv :: "'c list \<times> 'w \<Rightarrow> bool" where
  "children_inv (cs, w) \<longleftrightarrow> sorted_wrt apart cs \<and> (\<forall>c \<in> set cs. inv (c, w))"

lemma aloneD:
  "alone (c, w) (c', w') \<Longrightarrow> apart c d \<Longrightarrow> inv (d, w) \<Longrightarrow> apart c' d \<and> inv (d, w') \<and> view_of (d, w') = view_of (d, w)"
  by (simp add: leaves_alone_def same_view_def same_format_def)

text \<open>A loop over independent children does to each what a call on it alone does.\<close>

lemma for_children_each:
  assumes f: "\<And>c w c' w'. inv (c, w) \<Longrightarrow> f (c, w) = (Inr (), c', w') \<Longrightarrow>
      inv (c', w') \<and> alone (c, w) (c', w') \<and> Q (view_of (c, w)) (view_of (c', w'))"
  shows "children_inv (cs, w) \<Longrightarrow> for_children f (cs, w) = (Inr (), cs', w') \<Longrightarrow>
    children_inv (cs', w') \<and> length cs' = length cs \<and>
    (\<forall>d. (\<forall>c \<in> set cs. apart c d) \<and> inv (d, w) \<longrightarrow>
       (\<forall>c \<in> set cs'. apart c d) \<and> inv (d, w') \<and> view_of (d, w') = view_of (d, w)) \<and>
    (\<forall>i < length cs. Q (view_of (cs ! i, w)) (view_of (cs' ! i, w')))"
proof (induction cs arbitrary: w cs' w')
  case Nil
  then show ?case by auto
next
  case (Cons c cs)
  obtain r c1 w1 where one: "f (c, w) = (r, c1, w1)" by (cases "f (c, w)") auto
  with Cons.prems(2) have r: "r = Inr ()" by (cases r) (auto split: prod.splits)
  obtain cs1 where rest: "for_children f (cs, w1) = (Inr (), cs1, w')" and cs': "cs' = c1 # cs1"
    using Cons.prems(2) one r by (auto split: prod.splits)
  have inv_c: "inv (c, w)" using Cons.prems(1) by simp
  note step = f [OF inv_c one [unfolded r]]
  have tail: "apart c d" "inv (d, w)" if "d \<in> set cs" for d using Cons.prems(1) that by auto
  have tail1: "apart c1 d" "inv (d, w1)" "view_of (d, w1) = view_of (d, w)" if "d \<in> set cs" for d
    using aloneD [of c w c1 w1 d] step tail [OF that] by auto
  have inv1: "children_inv (cs, w1)" using Cons.prems(1) tail1 by simp
  note IH = Cons.IH [OF inv1 rest]
  have inv': "children_inv (cs1, w')" and len: "length cs1 = length cs" using IH by simp_all
  have other: "(\<forall>c \<in> set cs1. apart c d) \<and> inv (d, w') \<and> view_of (d, w') = view_of (d, w1)"
    if "\<forall>c \<in> set cs. apart c d" "inv (d, w1)" for d
    using IH [THEN conjunct2, THEN conjunct2, THEN conjunct1] that by blast
  have head: "(\<forall>c \<in> set cs1. apart c c1) \<and> inv (c1, w') \<and> view_of (c1, w') = view_of (c1, w1)"
    by (intro other) (use tail1 apart_sym step in \<open>blast+\<close>)
  have A: "children_inv (cs', w')" using inv' head apart_sym cs' by simp
  have B: "length cs' = length (c # cs)" using len cs' by simp
  have C: "(\<forall>c \<in> set cs'. apart c d) \<and> inv (d, w') \<and> view_of (d, w') = view_of (d, w)"
    if d: "\<forall>c \<in> set (c # cs). apart c d" "inv (d, w)" for d
  proof -
    have k: "apart c1 d" "inv (d, w1)" "view_of (d, w1) = view_of (d, w)"
      using aloneD [of c w c1 w1 d] step d by auto
    moreover have "(\<forall>c \<in> set cs1. apart c d) \<and> inv (d, w') \<and> view_of (d, w') = view_of (d, w1)"
      using d k(2) by (intro other) simp_all
    ultimately show ?thesis using cs' by simp
  qed
  have D: "Q (view_of ((c # cs) ! i, w)) (view_of (cs' ! i, w'))" if "i < length (c # cs)" for i
  proof (cases i)
    case 0
    have "Q (view_of (c, w)) (view_of (c1, w1))" using step by blast
    then show ?thesis using 0 head cs' by simp
  next
    case (Suc j)
    then have "j < length cs" "cs ! j \<in> set cs" using that by simp_all
    moreover have "Q (view_of (cs ! j, w1)) (view_of (cs1 ! j, w'))"
      using IH [THEN conjunct2, THEN conjunct2, THEN conjunct2] \<open>j < length cs\<close> by blast
    ultimately show ?thesis using tail1(3) [of "cs ! j"] Suc cs' by simp
  qed
  show ?case using C D by (intro conjI A B) (blast, blast)
qed

lemma due_children_keeps:
  "children_inv (cs, w) \<Longrightarrow> due_children ops now flushed (cs, w) = (Inr b, cs', w') \<Longrightarrow>
    children_inv (cs', w') \<and> length cs' = length cs \<and>
    (\<forall>d. (\<forall>c \<in> set cs. apart c d) \<and> inv (d, w) \<longrightarrow>
       (\<forall>c \<in> set cs'. apart c d) \<and> inv (d, w') \<and> view_of (d, w') = view_of (d, w)) \<and>
    (\<forall>i < length cs. text_of (cs' ! i, w') = text_of (cs ! i, w)) \<and>
    (\<not> b \<longrightarrow> \<not> flushed \<and> cs' = cs \<and> w' = w) \<and>
    ((\<exists>c \<in> set cs. op_next ops (c, w) \<le> now \<and> op_next ops (c, w) < time_max) \<longrightarrow> b)"
proof (induction cs arbitrary: w cs' w' flushed)
  case Nil
  then show ?case by auto
next
  case (Cons c cs)
  obtain r c1 w1 where one: "op_due ops now (c, w) = (r, c1, w1)" by (cases "op_due ops now (c, w)") auto
  with Cons.prems(2) obtain b1 where r: "r = Inr b1" by (cases r) (auto split: prod.splits)
  obtain cs1 where rest: "due_children ops now (b1 \<or> flushed) (cs, w1) = (Inr b, cs1, w')" and cs': "cs' = c1 # cs1"
    using Cons.prems(2) one r by (auto split: prod.splits)
  have inv_c: "inv (c, w)" using Cons.prems(1) by simp
  note step = due_law [OF inv_c one [unfolded r]] due_alone [OF inv_c one [unfolded r]]
  have tail: "apart c d" "inv (d, w)" if "d \<in> set cs" for d using Cons.prems(1) that by auto
  have tail1: "apart c1 d" "inv (d, w1)" "view_of (d, w1) = view_of (d, w)" if "d \<in> set cs" for d
    using aloneD [OF step(2), of d] tail [OF that] by auto
  have inv1: "children_inv (cs, w1)" using Cons.prems(1) tail1 by simp
  note IH = Cons.IH [OF inv1 rest]
  have inv': "children_inv (cs1, w')" and len: "length cs1 = length cs" using IH by simp_all
  have other: "(\<forall>c \<in> set cs1. apart c d) \<and> inv (d, w') \<and> view_of (d, w') = view_of (d, w1)"
    if "\<forall>c \<in> set cs. apart c d" "inv (d, w1)" for d
    using IH [THEN conjunct2, THEN conjunct2, THEN conjunct1] that by blast
  have head: "(\<forall>c \<in> set cs1. apart c c1) \<and> inv (c1, w') \<and> view_of (c1, w') = view_of (c1, w1)"
    by (intro other) (use tail1 apart_sym step in \<open>blast+\<close>)
  have A: "children_inv (cs', w')" using inv' head apart_sym cs' by simp
  have B: "length cs' = length (c # cs)" using len cs' by simp
  have C: "(\<forall>c \<in> set cs'. apart c d) \<and> inv (d, w') \<and> view_of (d, w') = view_of (d, w)"
    if d: "\<forall>c \<in> set (c # cs). apart c d" "inv (d, w)" for d
  proof -
    have k: "apart c1 d" "inv (d, w1)" "view_of (d, w1) = view_of (d, w)"
      using aloneD [OF step(2), of d] d by auto
    moreover have "(\<forall>c \<in> set cs1. apart c d) \<and> inv (d, w') \<and> view_of (d, w') = view_of (d, w1)"
      using d k(2) by (intro other) simp_all
    ultimately show ?thesis using cs' by simp
  qed
  have rest_acc: "\<forall>i < length cs. text_of (cs1 ! i, w') = text_of (cs ! i, w1)"
    and rest_idle: "\<not> b \<longrightarrow> \<not> (b1 \<or> flushed) \<and> cs1 = cs \<and> w' = w1"
    and rest_fires: "(\<exists>c \<in> set cs. op_next ops (c, w1) \<le> now \<and> op_next ops (c, w1) < time_max) \<longrightarrow> b"
    using IH by blast+
  have D: "text_of (cs' ! i, w') = text_of ((c # cs) ! i, w)" if "i < length (c # cs)" for i
  proof (cases i)
    case 0
    then show ?thesis using head cs' step by (simp add: same_format_def)
  next
    case (Suc j)
    then show ?thesis using that rest_acc cs' tail1(3) [of "cs ! j"] by simp
  qed
  have E: "\<not> b \<longrightarrow> \<not> flushed \<and> cs' = c # cs \<and> w' = w" using rest_idle step cs' by simp
  have F: "b" if "\<exists>d \<in> set (c # cs). op_next ops (d, w) \<le> now \<and> op_next ops (d, w) < time_max"
  proof (rule ccontr)
    assume "\<not> b"
    with rest_idle have "\<not> b1" by blast
    then have "w1 = w" "b1 = False" using step by auto
    with that rest_fires \<open>\<not> b\<close> have "op_next ops (c, w) \<le> now \<and> op_next ops (c, w) < time_max" by auto
    then show False using fires_law [OF inv_c] one r \<open>b1 = False\<close> by auto
  qed
  show ?case using C D E F by (intro conjI A B) (blast, blast, blast, blast)
qed

lemma due_children_early:
  "children_inv (cs, w) \<Longrightarrow> \<forall>c \<in> set cs. now < op_next ops (c, w) \<Longrightarrow>
     due_children ops now flushed (cs, w) = (Inr flushed, cs, w)"
  by (induction cs) (auto simp: early_law)

end

text \<open>One child of a fan-out, by its position: the fan-out keeps the contract for it.\<close>

locale watched_child = sink_family ops inv accepted durable line lossy apart
  for ops :: "('c \<times> 'w) sink_ops" and inv accepted durable line lossy apart +
  fixes i :: nat

sublocale watched_child \<subseteq> multi: sink_contract "MultiSink_ops ops"
  "\<lambda>st. i < length (fst st) \<and> children_inv st" "\<lambda>(cs, w). accepted (cs ! i, w)"
  "\<lambda>(cs, w). durable (cs ! i, w)" "\<lambda>m (cs, w). line m (cs ! i, w)" "\<lambda>(cs, w). lossy (cs ! i, w)"
proof unfold_locales
  fix st m st'
  assume inv: "i < length (fst st) \<and> children_inv st" and run: "op_write (MultiSink_ops ops) m st = (Inr (), st')"
  obtain cs w cs' w' where st: "st = (cs, w)" "st' = (cs', w')" by (cases st; cases st')
  have "for_children (op_write ops m) (cs, w) = (Inr (), cs', w')"
    using run st by (simp add: MultiSink_ops_def MultiSink_Write_def)
  from for_children_each [where Q = "\<lambda>v v'. \<exists>old kept. fst v = old @ kept \<and> fst v' = kept @ fst (snd (snd v)) m \<and>
      (snd (snd (snd v)) \<or> old = []) \<and> snd (snd v') = snd (snd v)",
      OF _ inv [THEN conjunct2, unfolded st] this] write_law write_alone inv st
  show "(i < length (fst st') \<and> children_inv st') \<and>
      same_format (\<lambda>m (cs, w). line m (cs ! i, w)) (\<lambda>(cs, w). lossy (cs ! i, w)) st st' \<and>
      (\<exists>old kept. (case st of (cs, w) \<Rightarrow> accepted (cs ! i, w)) = old @ kept \<and>
      (case st' of (cs, w) \<Rightarrow> accepted (cs ! i, w)) = kept @ (case st of (cs, w) \<Rightarrow> line m (cs ! i, w)) \<and>
      ((case st of (cs, w) \<Rightarrow> lossy (cs ! i, w)) \<or> old = []))"
    by (auto simp: same_format_def fun_eq_iff)
next
  fix st st'
  assume inv: "i < length (fst st) \<and> children_inv st" and run: "op_flush (MultiSink_ops ops) st = (Inr (), st')"
  obtain cs w cs' w' where st: "st = (cs, w)" "st' = (cs', w')" by (cases st; cases st')
  have "for_children (op_flush ops) (cs, w) = (Inr (), cs', w')"
    using run st by (simp add: MultiSink_ops_def MultiSink_Flush_def)
  from for_children_each [where Q = "\<lambda>v v'. fst v' = fst v \<and> fst (snd v') = fst v' \<and> snd (snd v') = snd (snd v)",
      OF _ inv [THEN conjunct2, unfolded st] this] flush_law flush_alone inv st
  show "(i < length (fst st') \<and> children_inv st') \<and>
      same_format (\<lambda>m (cs, w). line m (cs ! i, w)) (\<lambda>(cs, w). lossy (cs ! i, w)) st st' \<and>
      (case st' of (cs, w) \<Rightarrow> accepted (cs ! i, w)) = (case st of (cs, w) \<Rightarrow> accepted (cs ! i, w)) \<and>
      (case st' of (cs, w) \<Rightarrow> durable (cs ! i, w)) = (case st' of (cs, w) \<Rightarrow> accepted (cs ! i, w))"
    by (auto simp: same_format_def fun_eq_iff)
next
  fix st now b st'
  assume inv: "i < length (fst st) \<and> children_inv st" and run: "op_due (MultiSink_ops ops) now st = (Inr b, st')"
  obtain cs w cs' w' where st: "st = (cs, w)" "st' = (cs', w')" by (cases st; cases st')
  have "due_children ops now False (cs, w) = (Inr b, cs', w')"
    using run st by (simp add: MultiSink_ops_def MultiSink_FlushIfDue_def)
  from due_children_keeps [OF inv [THEN conjunct2, unfolded st] this] inv st
  show "(i < length (fst st') \<and> children_inv st') \<and>
      same_format (\<lambda>m (cs, w). line m (cs ! i, w)) (\<lambda>(cs, w). lossy (cs ! i, w)) st st' \<and>
      (case st' of (cs, w) \<Rightarrow> accepted (cs ! i, w)) = (case st of (cs, w) \<Rightarrow> accepted (cs ! i, w)) \<and> (\<not> b \<longrightarrow> st' = st)"
    by (auto simp: same_format_def fun_eq_iff)
next
  fix st now
  assume inv: "i < length (fst st) \<and> children_inv st" and early: "now < op_next (MultiSink_ops ops) st"
  obtain cs w where st: "st = (cs, w)" by (cases st)
  show "op_due (MultiSink_ops ops) now st = (Inr False, st)"
    using due_children_early [of cs w now False] inv early st
    by (simp add: MultiSink_ops_def MultiSink_FlushIfDue_def NextAutoFlushTime_less)
next
  fix st now st'
  assume inv: "i < length (fst st) \<and> children_inv st" and next_le: "op_next (MultiSink_ops ops) st \<le> now"
    and less: "op_next (MultiSink_ops ops) st < time_max"
  obtain cs w where st: "st = (cs, w)" by (cases st)
  let ?next = "op_next (MultiSink_ops ops) st"
  have "\<exists>c \<in> set cs. op_next ops (c, w) \<le> ?next"
    using NextAutoFlushTime_less [of ?next ops cs w] less st by (auto simp: MultiSink_ops_def not_less)
  then have "\<exists>c \<in> set cs. op_next ops (c, w) \<le> now \<and> op_next ops (c, w) < time_max"
    using next_le less by (meson order_trans le_less_trans)
  then show "op_due (MultiSink_ops ops) now st \<noteq> (Inr False, st')"
    using due_children_keeps [of cs w now False False "fst st'" "snd st'"] inv st
    by (auto simp: MultiSink_ops_def MultiSink_FlushIfDue_def)
qed

end
