(* ===== verification/Sink_Config.thy ===== *)
theory Sink_Config
  imports Console_Sink Rotating_File_Sink Multi_Sink
begin

text \<open>
  The sink part of \<open>include/hlog/logger_config.h\<close> and \<open>src/config/logger_config.cpp\<close>: configuration
  values and the sinks built from them.  \<open>AnySink\<close> is the object behind a pointer to \<open>Sink\<close> that
  \<open>CreateSink\<close> returns for one configuration; \<open>any_ops\<close> is the dynamic dispatch on it.
\<close>

datatype AnySink = ConsoleOf ConsoleSink | FileOf FileSink | RotatingOf RotatingFileSink

definition lift_sink :: "('s \<Rightarrow> AnySink) \<Rightarrow> ('s \<times> io_world, 'a) exec \<Rightarrow> 's \<Rightarrow> io_world \<Rightarrow> (exn + 'a) \<times> AnySink \<times> io_world" where
  "lift_sink con f s w = (case f (s, w) of (r, s', w') \<Rightarrow> (r, con s', w'))"

definition any_ops :: "(AnySink \<times> io_world) sink_ops" where
  "any_ops =
     \<lparr>op_write = (\<lambda>m (c, w). case c of
          ConsoleOf s \<Rightarrow> lift_sink ConsoleOf (op_write ConsoleSink_ops m) s w
        | FileOf s \<Rightarrow> lift_sink FileOf (op_write FileSink_ops m) s w
        | RotatingOf s \<Rightarrow> lift_sink RotatingOf (op_write RotatingFileSink_ops m) s w),
      op_flush = (\<lambda>(c, w). case c of
          ConsoleOf s \<Rightarrow> lift_sink ConsoleOf (op_flush ConsoleSink_ops) s w
        | FileOf s \<Rightarrow> lift_sink FileOf (op_flush FileSink_ops) s w
        | RotatingOf s \<Rightarrow> lift_sink RotatingOf (op_flush RotatingFileSink_ops) s w),
      op_next = (\<lambda>(c, w). case c of
          ConsoleOf s \<Rightarrow> op_next ConsoleSink_ops (s, w)
        | FileOf s \<Rightarrow> op_next FileSink_ops (s, w)
        | RotatingOf s \<Rightarrow> op_next RotatingFileSink_ops (s, w)),
      op_due = (\<lambda>now (c, w). case c of
          ConsoleOf s \<Rightarrow> lift_sink ConsoleOf (op_due ConsoleSink_ops now) s w
        | FileOf s \<Rightarrow> lift_sink FileOf (op_due FileSink_ops now) s w
        | RotatingOf s \<Rightarrow> lift_sink RotatingOf (op_due RotatingFileSink_ops now) s w)\<rparr>"

datatype SinkConfig =
    ConsoleSinkConfig ConsoleSinkOptions
  | FileSinkConfig string FileSinkOptions
  | RotatingFileSinkConfig string RotatingFileSinkOptions

definition CreateSink :: "SinkConfig \<Rightarrow> (io_world, AnySink) exec" where
  "CreateSink config =
     (case config of
        ConsoleSinkConfig options \<Rightarrow> ret (ConsoleOf (ConsoleSink_new options))
      | FileSinkConfig path options \<Rightarrow> andthen (FileSink_new path options) (\<lambda>s. ret (FileOf s))
      | RotatingFileSinkConfig path options \<Rightarrow>
          andthen (RotatingFileSink_new path options) (\<lambda>s. ret (RotatingOf s)))"

datatype TopSink = OneSink AnySink | MultiSinkOf "AnySink list"

text \<open>
  The loop that creates the children.  When one of them throws, the sinks already built are
  destroyed; nothing has been written through them yet.
\<close>

fun create_each :: "SinkConfig list \<Rightarrow> (io_world, AnySink list) exec" where
  "create_each [] = ret []"
| "create_each (config # configs) =
     andthen (CreateSink config) (\<lambda>s. andthen (create_each configs) (\<lambda>sinks. ret (s # sinks)))"

definition CreateSinks :: "SinkConfig list \<Rightarrow> (io_world, TopSink) exec" where
  "CreateSinks configs =
     (if configs = [] then throw (InvalidArgument ''CreateSink requires at least one sink config'')
      else if length configs = 1 then andthen (CreateSink (hd configs)) (\<lambda>s. ret (OneSink s))
      else andthen (create_each configs) (\<lambda>sinks.
        case MultiSink_new (map Some sinks) of Inl e \<Rightarrow> throw e | Inr children \<Rightarrow> ret (MultiSinkOf children)))"

section \<open>The contract of every sink the library builds\<close>

fun any_inv :: "AnySink \<times> io_world \<Rightarrow> bool" where
  "any_inv (ConsoleOf s, w) = console_inv (s, w)"
| "any_inv (FileOf s, w) = file_inv (s, w)"
| "any_inv (RotatingOf s, w) = rs_inv (s, w)"

fun any_accepted :: "AnySink \<times> io_world \<Rightarrow> string" where
  "any_accepted (ConsoleOf s, w) = console_text (s, w)"
| "any_accepted (FileOf s, w) = file_text (s, w)"
| "any_accepted (RotatingOf s, w) = rs_accepted (s, w)"

fun any_durable :: "AnySink \<times> io_world \<Rightarrow> string" where
  "any_durable (ConsoleOf s, w) = console_durable (s, w)"
| "any_durable (FileOf s, w) = file_durable (s, w)"
| "any_durable (RotatingOf s, w) = rs_durable (s, w)"

fun any_line :: "LogMessage \<Rightarrow> AnySink \<times> io_world \<Rightarrow> string" where
  "any_line m (ConsoleOf s, w) = console_line m (s, w)"
| "any_line m (FileOf s, w) = file_line m (s, w)"
| "any_line m (RotatingOf s, w) = rs_line m (s, w)"

text \<open>Only a rotating sink discards anything.\<close>

fun any_lossy :: "AnySink \<times> io_world \<Rightarrow> bool" where
  "any_lossy (RotatingOf s, w) = True"
| "any_lossy (_, w) = False"

text \<open>The files and console streams a sink works on; sinks are apart when they share none.\<close>

fun files_of :: "AnySink \<Rightarrow> string set" where
  "files_of (ConsoleOf s) = {}"
| "files_of (FileOf s) = {of_path (fs_output s)}"
| "files_of (RotatingOf s) = rs_files s"

fun streams_of :: "AnySink \<Rightarrow> stream_id set" where
  "streams_of (ConsoleOf s) = {con_output s}"
| "streams_of _ = {}"

definition apart :: "AnySink \<Rightarrow> AnySink \<Rightarrow> bool" where
  "apart c d \<longleftrightarrow> files_of c \<inter> files_of d = {} \<and> streams_of c \<inter> streams_of d = {}"

definition touches :: "string set \<Rightarrow> stream_id set \<Rightarrow> io_world \<Rightarrow> io_world \<Rightarrow> bool" where
  "touches fs ss w w' \<longleftrightarrow> (\<forall>q. q \<notin> fs \<longrightarrow> disk w' q = disk w q) \<and> (\<forall>i. i \<notin> ss \<longrightarrow> streams w' i = streams w i) \<and>
     time_zone w' = time_zone w \<and> (all_ok w \<longrightarrow> all_ok w')"

lemma touched_alone:
  assumes t: "touches (files_of c) (streams_of c) w w'"
    and same: "files_of c' = files_of c" "streams_of c' = streams_of c"
  shows "leaves_alone any_inv any_accepted any_durable any_line any_lossy apart (c, w) (c', w')"
proof -
  have "any_inv (d, w') \<and> same_view any_accepted any_durable any_line any_lossy (d, w) (d, w')"
    if ap: "apart c d" and ok: "any_inv (d, w)" for d
  proof (cases d)
    case (ConsoleOf s)
    then show ?thesis
      using t ap ok
      by (auto simp: touches_def apart_def same_view_def same_format_def console_inv_def console_text_def console_durable_def
        console_line_def)
  next
    case (FileOf s)
    then have "disk w' (of_path (fs_output s)) = disk w (of_path (fs_output s))"
      using t ap by (auto simp: touches_def apart_def)
    then show ?thesis
      using FileOf t ok
      by (auto simp: touches_def same_view_def same_format_def file_inv_def file_text_def file_durable_def file_line_def
        stream_good_def stream_text_def content_def)
  next
    case (RotatingOf s)
    then have same: "\<And>q. q \<in> rs_files s \<Longrightarrow> disk w' q = disk w q"
      using t ap by (auto simp: touches_def apart_def)
    have older: "older (rs_path s) (rs_max_files (rs_options s)) (disk w') = older (rs_path s) (rs_max_files (rs_options s)) (disk w)"
      using same by (intro older_other) (auto simp: rs_files_def)
    have cur: "disk w' (rs_path s) = disk w (rs_path s)" "of_path (rs_output s) = rs_path s"
      using same ok RotatingOf by (auto simp: rs_files_def rs_inv_def rs_good_def rs_ready_def)
    then show ?thesis
      using RotatingOf t ok older
      by (auto simp: touches_def same_view_def same_format_def rs_inv_def rs_good_def rs_ready_def rs_accepted_def rs_current_def
        rs_durable_def rs_line_def retained_def stream_good_def stream_text_def content_def)
  qed
  then show ?thesis using same by (auto simp: leaves_alone_def apart_def)
qed

text \<open>Every operation of a sink touches only the sink's own files and stream.\<close>

definition own_touch :: "AnySink \<times> io_world \<Rightarrow> AnySink \<times> io_world \<Rightarrow> bool" where
  "own_touch = (\<lambda>(c, w) (c', w'). touches (files_of c) (streams_of c) w w' \<and>
     files_of c' = files_of c \<and> streams_of c' = streams_of c)"

lemma own_touch_refl [simp]: "own_touch st st"
  by (cases st) (simp add: own_touch_def touches_def)

lemma touches_trans: "touches fs ss w1 w2 \<Longrightarrow> touches fs ss w2 w3 \<Longrightarrow> touches fs ss w1 w3"
  by (simp add: touches_def)

lemma stream_write_touches: "touches {} {i} w (stream_write i bs w)"
proof -
  obtain r v where r: "next_outcome w = (r, v)" by (cases "next_outcome w")
  show ?thesis
    using next_outcome_frame [OF r] r by (cases r) (auto simp: stream_write_def touches_def Let_def)
qed

lemma stream_flush_touches: "touches {} {i} w (stream_flush i w)"
proof -
  obtain r v where r: "next_outcome w = (r, v)" by (cases "next_outcome w")
  show ?thesis
    using next_outcome_frame [OF r] r by (cases r) (auto simp: stream_flush_def touches_def Let_def)
qed

lemma console_touch:
  "op_write ConsoleSink_ops m (s, w) = (r, (s', w')) \<Longrightarrow> own_touch (ConsoleOf s, w) (ConsoleOf s', w')"
  "op_flush ConsoleSink_ops (s, w) = (r, (s', w')) \<Longrightarrow> own_touch (ConsoleOf s, w) (ConsoleOf s', w')"
  "op_due ConsoleSink_ops now (s, w) = (b, (s', w')) \<Longrightarrow> own_touch (ConsoleOf s, w) (ConsoleOf s', w')"
  using stream_write_touches stream_flush_touches touches_trans
  by (auto simp: ConsoleSink_ops_def ConsoleSink_Write_def ConsoleSink_Flush_def default_FlushIfDue_def
    own_touch_def Let_def touches_def split: if_splits)

lemma file_step_touch: "file_step x (s, w) (s', w') \<Longrightarrow> own_touch (FileOf s, w) (FileOf s', w')"
  by (auto simp: file_step_def own_touch_def touches_def only_grows_def)

lemma file_touch:
  assumes inv: "file_inv (s, w)"
  shows "op_write FileSink_ops m (s, w) = (r, (s', w')) \<Longrightarrow> own_touch (FileOf s, w) (FileOf s', w')"
    and "op_flush FileSink_ops (s, w) = (r, (s', w')) \<Longrightarrow> own_touch (FileOf s, w) (FileOf s', w')"
    and "op_due FileSink_ops now (s, w) = (b, (s', w')) \<Longrightarrow> own_touch (FileOf s, w) (FileOf s', w')"
proof -
  have good: "file_good (s, w)" "0 < fs_max_batch_size (fs_options s)" using file_inv_good [OF inv] by simp_all
  have drain: "own_touch (FileOf s, w) (FileOf s', w')"
    if "FileSink_DrainStagingBuffer True (s, w) = (x, (s', w'))" for x
    using drain_ok [OF good(1) that] file_step_touch by blast
  show "op_write FileSink_ops m (s, w) = (r, (s', w')) \<Longrightarrow> own_touch (FileOf s, w) (FileOf s', w')"
    using Write_ok [of "(s, w)" m r "(s', w')"] good file_step_touch by (auto simp: FileSink_ops_def)
  show "op_flush FileSink_ops (s, w) = (r, (s', w')) \<Longrightarrow> own_touch (FileOf s, w) (FileOf s', w')"
    using drain by (simp add: FileSink_ops_def FileSink_Flush_def)
  show "op_due FileSink_ops now (s, w) = (b, (s', w')) \<Longrightarrow> own_touch (FileOf s, w) (FileOf s', w')"
    using drain by (auto simp: FileSink_ops_def FlushIfDue_cases split: if_splits prod.splits sum.splits)
qed

lemma rs_touch: "rs_touches (s, w) (s', w') \<Longrightarrow> own_touch (RotatingOf s, w) (RotatingOf s', w')"
  by (auto simp: rs_touches_def own_touch_def touches_def rs_files_def rs_frame_def same_setting_def)

lemma rotating_touch:
  assumes inv: "rs_inv (s, w)"
  shows "op_write RotatingFileSink_ops m (s, w) = (r, (s', w')) \<Longrightarrow> own_touch (RotatingOf s, w) (RotatingOf s', w')"
    and "op_flush RotatingFileSink_ops (s, w) = (r, (s', w')) \<Longrightarrow> own_touch (RotatingOf s, w) (RotatingOf s', w')"
    and "op_due RotatingFileSink_ops now (s, w) = (b, (s', w')) \<Longrightarrow> own_touch (RotatingOf s, w) (RotatingOf s', w')"
proof -
  have drain: "own_touch (RotatingOf s, w) (RotatingOf s', w')"
    if "RotatingFileSink_DrainStagingBuffer True (s, w) = (x, (s', w'))" for x
    using rs_drain_ok [OF _ that] rs_inv_good [OF inv] rs_step_touches rs_touch by blast
  show "op_write RotatingFileSink_ops m (s, w) = (r, (s', w')) \<Longrightarrow> own_touch (RotatingOf s, w) (RotatingOf s', w')"
    using rs_Write_touches [OF inv] rs_touch by (simp add: RotatingFileSink_ops_def)
  show "op_flush RotatingFileSink_ops (s, w) = (r, (s', w')) \<Longrightarrow> own_touch (RotatingOf s, w) (RotatingOf s', w')"
    using drain by (simp add: RotatingFileSink_ops_def RotatingFileSink_Flush_def)
  show "op_due RotatingFileSink_ops now (s, w) = (b, (s', w')) \<Longrightarrow> own_touch (RotatingOf s, w) (RotatingOf s', w')"
    using drain by (auto simp: RotatingFileSink_ops_def rs_FlushIfDue_cases split: if_splits prod.splits sum.splits)
qed

lemma any_touch:
  "any_inv (c, w) \<Longrightarrow> op_write any_ops m (c, w) = (r, (c', w')) \<Longrightarrow> own_touch (c, w) (c', w')"
  "any_inv (c, w) \<Longrightarrow> op_flush any_ops (c, w) = (r, (c', w')) \<Longrightarrow> own_touch (c, w) (c', w')"
  "any_inv (c, w) \<Longrightarrow> op_due any_ops now (c, w) = (b, (c', w')) \<Longrightarrow> own_touch (c, w) (c', w')"
  using console_touch file_touch rotating_touch
  by (cases c; auto simp: any_ops_def lift_sink_def split: prod.splits)+

lemma own_touch_alone:
  "own_touch (c, w) (c', w') \<Longrightarrow> leaves_alone any_inv any_accepted any_durable any_line any_lossy apart (c, w) (c', w')"
  by (rule touched_alone) (simp_all add: own_touch_def)

lemma any_format [simp]:
  "same_format any_line any_lossy (ConsoleOf c, w) (ConsoleOf c', w') = same_format console_line (\<lambda>_. False) (c, w) (c', w')"
  "same_format any_line any_lossy (FileOf s, w) (FileOf s', w') = same_format file_line (\<lambda>_. False) (s, w) (s', w')"
  "same_format any_line any_lossy (RotatingOf r, w) (RotatingOf r', w') = same_format rs_line (\<lambda>_. True) (r, w) (r', w')"
  by (simp_all add: same_format_def)

interpretation fan_out: watched_child any_ops any_inv any_accepted any_durable any_line any_lossy apart i for i
proof unfold_locales
  fix st m st' assume "any_inv st" "op_write any_ops m st = (Inr (), st')"
  then show "any_inv st' \<and> same_format any_line any_lossy st st' \<and>
      (\<exists>old kept. any_accepted st = old @ kept \<and> any_accepted st' = kept @ any_line m st \<and> (any_lossy st \<or> old = []))"
    using console.write_law filesink.write_law rotating.write_law
    by (cases st rule: any_inv.cases) (auto simp: any_ops_def lift_sink_def split: prod.splits)
next
  fix st st' assume "any_inv st" "op_flush any_ops st = (Inr (), st')"
  then show "any_inv st' \<and> same_format any_line any_lossy st st' \<and>
      any_accepted st' = any_accepted st \<and> any_durable st' = any_accepted st'"
    using console.flush_law filesink.flush_law rotating.flush_law
    by (cases st rule: any_inv.cases) (auto simp: any_ops_def lift_sink_def split: prod.splits)
next
  fix st now b st' assume "any_inv st" "op_due any_ops now st = (Inr b, st')"
  then show "any_inv st' \<and> same_format any_line any_lossy st st' \<and> any_accepted st' = any_accepted st \<and> (\<not> b \<longrightarrow> st' = st)"
    using console.due_law filesink.due_law rotating.due_law
    by (cases st rule: any_inv.cases) (auto simp: any_ops_def lift_sink_def split: prod.splits)
next
  fix st now assume "any_inv st" "now < op_next any_ops st"
  then show "op_due any_ops now st = (Inr False, st)"
    using console.early_law filesink.early_law rotating.early_law
    by (cases st rule: any_inv.cases) (auto simp: any_ops_def lift_sink_def)
next
  fix st now st' assume "any_inv st" "op_next any_ops st \<le> now" "op_next any_ops st < time_max"
  then show "op_due any_ops now st \<noteq> (Inr False, st')"
    using console.fires_law filesink.fires_law rotating.fires_law
    by (cases st rule: any_inv.cases) (auto simp: any_ops_def lift_sink_def split: prod.splits)
next
  show "apart c d \<Longrightarrow> apart d c" for c d by (auto simp: apart_def)
qed (rule own_touch_alone, erule (1) any_touch)+

section \<open>Building the configured sinks\<close>

definition streams_good :: "io_world \<Rightarrow> bool" where
  "streams_good w \<longleftrightarrow> (\<forall>i. \<not> os_bad (streams w i))"

text \<open>
  With a console sink, the streams must be in good state and no call may fail: \<open>ConsoleSink\<close> notices neither.
  The sinks on files notice every failure themselves.
\<close>

definition console_ready :: "SinkConfig list \<Rightarrow> io_world \<Rightarrow> bool" where
  "console_ready configs w \<longleftrightarrow> (\<forall>opts. ConsoleSinkConfig opts \<notin> set configs) \<or> (all_ok w \<and> streams_good w)"

lemma CreateSink_ok:
  assumes "CreateSink config w = (Inr c, w')"
  shows "touches (files_of c) (streams_of c) w w' \<and> streams w' = streams w \<and>
    (console_ready [config] w \<longrightarrow> any_inv (c, w'))"
proof (cases config)
  case (ConsoleSinkConfig opts)
  then show ?thesis
    using assms by (auto simp: CreateSink_def touches_def console_inv_def streams_good_def console_ready_def)
next
  case (FileSinkConfig path opts)
  obtain r w1 where new: "FileSink_new path opts w = (r, w1)" by (cases "FileSink_new path opts w")
  with assms FileSinkConfig obtain s where s: "r = Inr s" "c = FileOf s" "w' = w1"
    by (cases r) (auto simp: CreateSink_def)
  have new: "FileSink_new path opts w = (Inr s, w1)" using new s by simp
  obtain f v where op: "ofstream_open path (fs_truncate opts) (ofstream_closed, w) = (f, v)"
    by (cases "ofstream_open path (fs_truncate opts) (ofstream_closed, w)")
  have "\<not> of_open ofstream_closed" by (simp add: ofstream_closed_def)
  note sp = ofstream_open_spec [OF this op]
  have "w1 = v" "fs_output s = f" "of_open f" using new op by (auto simp: FileSink_new_def Let_def split: if_splits)
  then show ?thesis using FileSink_new_ok [OF new] sp s by (auto simp: touches_def)
next
  case (RotatingFileSinkConfig path opts)
  obtain r w1 where new: "RotatingFileSink_new path opts w = (r, w1)" by (cases "RotatingFileSink_new path opts w")
  with assms RotatingFileSinkConfig obtain s where s: "r = Inr s" "c = RotatingOf s" "w' = w1"
    by (cases r) (auto simp: CreateSink_def)
  have new: "RotatingFileSink_new path opts w = (Inr s, w1)" using new s by simp
  have "rs_files s = insert path (ArchivePath path ` {1..rs_max_files opts})"
    using RotatingFileSink_new_ok [OF new] by (simp add: rs_files_def)
  then show ?thesis using RotatingFileSink_new_ok [OF new] s by (auto simp: touches_def same_setting_def)
qed

lemma create_each_ok:
  "create_each configs w = (Inr cs, w') \<Longrightarrow> sorted_wrt apart cs \<Longrightarrow>
    length cs = length configs \<and>
    (\<forall>d. (\<forall>c \<in> set cs. apart c d) \<and> any_inv (d, w) \<longrightarrow> any_inv (d, w')) \<and>
    (console_ready configs w \<longrightarrow> fan_out.children_inv (cs, w'))"
proof (induction configs arbitrary: w cs)
  case Nil
  then show ?case by auto
next
  case (Cons config configs)
  obtain r w1 where one: "CreateSink config w = (r, w1)" by (cases "CreateSink config w")
  with Cons.prems(1) obtain c where r: "r = Inr c" by (cases r) auto
  obtain r2 w2 where two: "create_each configs w1 = (r2, w2)" by (cases "create_each configs w1")
  with Cons.prems(1) one r obtain ds where ds: "r2 = Inr ds" "cs = c # ds" "w2 = w'"
    by (cases r2) auto
  note c_ok = CreateSink_ok [OF one [unfolded r]]
  have rest: "create_each configs w1 = (Inr ds, w')" using two ds by simp
  have ap: "sorted_wrt apart ds" "\<forall>d \<in> set ds. apart c d" using Cons.prems(2) ds by simp_all
  note IH = Cons.IH [OF rest ap(1)]
  have keep1: "any_inv (d, w1)" if "apart c d" "any_inv (d, w)" for d
    using touched_alone [OF conjunct1 [OF c_ok] refl refl] that by (simp add: leaves_alone_def)
  have sym: "apart a b \<Longrightarrow> apart b a" for a b by (auto simp: apart_def)
  have "any_inv (c, w')" if "console_ready (config # configs) w"
  proof -
    have "console_ready [config] w" using that by (auto simp: console_ready_def)
    then show ?thesis using IH c_ok ap(2) sym by blast
  qed
  moreover have "console_ready configs w1" if "console_ready (config # configs) w"
    using that c_ok by (auto simp: touches_def streams_good_def console_ready_def)
  ultimately show ?case
    using IH keep1 ap ds by auto
qed

lemma CreateSinks_multi:
  assumes "CreateSinks configs w = (Inr (MultiSinkOf cs), w')"
  shows "create_each configs w = (Inr cs, w')"
proof -
  have "configs \<noteq> []" "length configs \<noteq> 1"
    using assms by (auto simp: CreateSinks_def split: if_splits prod.splits sum.splits)
  then show ?thesis
    using assms by (auto simp: CreateSinks_def MultiSink_new_def add_all split: if_splits prod.splits sum.splits)
qed

section \<open>Any calls on a configured fan-out\<close>

lemma any_clock: "any_inv (c, w) \<Longrightarrow> any_inv (c, w\<lparr>steady_now := t\<rparr>) \<and> any_accepted (c, w\<lparr>steady_now := t\<rparr>) = any_accepted (c, w) \<and>
    same_format any_line any_lossy (c, w) (c, w\<lparr>steady_now := t\<rparr>)"
proof (cases c)
  case (FileOf s)
  then show "any_inv (c, w) \<Longrightarrow> ?thesis" using set_clock_same [of t "(s, w)"]
    by (simp add: set_clock_def same_format_def file_line_def)
next
  case (RotatingOf s)
  then show "any_inv (c, w) \<Longrightarrow> ?thesis" using rs_set_clock [of t "(s, w)"]
    by (simp add: set_clock_def same_format_def rs_line_def)
qed (simp add: console_inv_def console_text_def console_line_def same_format_def all_ok_def)

interpretation fan_run: sink_run "MultiSink_ops any_ops" "\<lambda>st. i < length (fst st) \<and> fan_out.children_inv st"
  "\<lambda>(cs, w). any_accepted (cs ! i, w)" "\<lambda>(cs, w). any_durable (cs ! i, w)" "\<lambda>m (cs, w). any_line m (cs ! i, w)"
  "\<lambda>(cs, w). any_lossy (cs ! i, w)" for i
proof unfold_locales
  fix st :: "AnySink list \<times> io_world" and t
  assume inv: "i < length (fst st) \<and> fan_out.children_inv st"
  obtain cs w where st: "st = (cs, w)" by (cases st)
  have "any_inv (cs ! i, w)" using inv st by simp
  note C = any_clock [OF this, of t]
  show "(i < length (fst (set_clock t st)) \<and> fan_out.children_inv (set_clock t st)) \<and>
      (case set_clock t st of (cs, w) \<Rightarrow> any_accepted (cs ! i, w)) = (case st of (cs, w) \<Rightarrow> any_accepted (cs ! i, w)) \<and>
      same_format (\<lambda>m (cs, w). any_line m (cs ! i, w)) (\<lambda>(cs, w). any_lossy (cs ! i, w)) st (set_clock t st)"
    using inv st C any_clock by (auto simp: set_clock_def same_format_def)
qed

text \<open>
  C18. A configured fan-out delivers.  Several sinks built from a configuration that share no file
  and no console stream; if there is a console sink among them, the console streams are in good state and the
  operating system never fails, as a console sink does not report either.  Then there is one child for
  each configuration; and after any writes, flushes and deadline checks through the multi sink that all returned, the
  text every child had after its construction followed by its own lines of all messages is what it has now
  accepted, except that a rotating sink may have discarded the older part.  The line of the last message is
  always there, and when the last call was a flush, all of it is durable in every child.
\<close>

theorem configured_fan_out_delivers:
  assumes built: "CreateSinks configs w = (Inr (MultiSinkOf cs), w1)" and ap: "sorted_wrt apart cs"
    and env: "console_ready configs w"
    and run: "run_calls (MultiSink_ops any_ops) calls (cs, w1) = (Inr (), (cs2, w2))"
  shows "length cs = length configs \<and>
    (\<forall>i < length configs.
       (let line = (\<lambda>m. any_line m (cs ! i, w1)); accepted = any_accepted (cs2 ! i, w2) in
        (\<exists>old. any_accepted (cs ! i, w1) @ concat (map line (writes calls)) = old @ accepted \<and>
           (any_lossy (cs ! i, w1) \<or> old = [])) \<and>
        (writes calls \<noteq> [] \<longrightarrow> suffix (line (last (writes calls))) accepted) \<and>
        (calls \<noteq> [] \<and> last calls = CallFlush \<longrightarrow> any_durable (cs2 ! i, w2) = accepted)))"
proof -
  note each = create_each_ok [OF CreateSinks_multi [OF built] ap]
  then have inv: "i < length (fst (cs, w1)) \<and> fan_out.children_inv (cs, w1)" if "i < length configs" for i
    using env that by simp
  from each show ?thesis using fan_run.run_delivers [OF inv run] unfolding Let_def fan_run.lines_def prod.case by blast
qed

definition pair_config :: "SinkConfig list" where
  "pair_config = [ConsoleSinkConfig \<lparr>con_stream = Stderr, con_auto_flush = True, con_pattern = ''> %v''\<rparr>,
                  FileSinkConfig ''app.log'' bare_options]"

definition pair_sinks :: "AnySink list" where
  "pair_sinks = [ConsoleOf \<lparr>con_output = StdErr, con_flushes = True, con_formatter = PatternFormatter_new ''> %v''\<rparr>,
                 FileOf (example_sink bare_options)]"

lemma pair_built: "CreateSinks pair_config idle_world = (Inr (MultiSinkOf pair_sinks), example_disk)"
  using example_open [of bare_options]
  by (simp add: CreateSinks_def pair_config_def pair_sinks_def CreateSink_def MultiSink_new_def MultiSink_AddSink_def
    ConsoleSink_new_def ConsoleSink_on_def ResolveConsoleStream_def)

definition pair_calls :: "sink_call list" where
  "pair_calls = [CallWrite default_message 5, CallFlushIfDue 6, CallWrite default_message 7, CallFlush]"

lemma pair_run: "\<exists>cs2 w2. run_calls (MultiSink_ops any_ops) pair_calls (pair_sinks, example_disk) = (Inr (), (cs2, w2))"
  by (simp add: pair_calls_def MultiSink_ops_def MultiSink_Write_def MultiSink_Flush_def MultiSink_FlushIfDue_def pair_sinks_def
    any_ops_def lift_sink_def ConsoleSink_ops_def default_FlushIfDue_def set_clock_def
    ConsoleSink_Write_def ConsoleSink_Flush_def stream_write_def stream_flush_def FileSink_ops_def FileSink_Write_def FlushIfDue_cases
    FileSink_NextAutoFlushTime_def auto_flush_time_def time_max_def
    FileSink_Flush_def FileSink_stage_def FileSink_DrainStagingBuffer_def FileSink_hand_over_def
    FileSink_flush_stream_def ofstream_write_def ofstream_flush_def next_outcome_def example_sink_def
    example_disk_def idle_world_def idle_stream_def bare_options_def default_FileSinkOptions_def FormatTo_append
    bare_line flush_for_interval_def NormalizeBatchSize_def ns_of_ms_def Let_def)

theorem configured_fan_out_delivers_witness:
  "\<exists>cs2 w2. run_calls (MultiSink_ops any_ops) pair_calls (pair_sinks, example_disk) = (Inr (), (cs2, w2)) \<and>
     any_durable (cs2 ! 0, w2) = ''> '' @ [newline] @ ''> '' @ [newline] \<and>
     any_durable (cs2 ! 1, w2) = ''> '' @ [newline] @ ''> '' @ [newline]"
proof -
  obtain cs2 w2 where run: "run_calls (MultiSink_ops any_ops) pair_calls (pair_sinks, example_disk) = (Inr (), (cs2, w2))"
    using pair_run by blast
  have "sorted_wrt apart pair_sinks" "console_ready pair_config idle_world"
    by (simp_all add: pair_sinks_def apart_def all_ok_def streams_good_def idle_world_def idle_stream_def console_ready_def)
  note all = configured_fan_out_delivers [OF pair_built this run]
  have "any_line default_message (pair_sinks ! 0, example_disk) = ''> '' @ [newline]"
    "any_line default_message (pair_sinks ! 1, example_disk) = ''> '' @ [newline]"
    "any_accepted (pair_sinks ! 0, example_disk) = []" "any_accepted (pair_sinks ! 1, example_disk) = []"
    by (simp_all add: pair_sinks_def console_line_def file_line_def example_sink_def bare_options_def
      default_FileSinkOptions_def bare_line console_text_def file_text_def stream_text_def content_def example_disk_def
      idle_world_def idle_stream_def)
  then have "any_durable (cs2 ! i, w2) = ''> '' @ [newline] @ ''> '' @ [newline]" if "i = 0 \<or> i = 1" for i
    using all that by (auto simp: pair_config_def pair_calls_def pair_sinks_def Let_def)
  with run show ?thesis by blast
qed

end
