(* ===== verification/Logger_Config.thy ===== *)
theory Logger_Config
  imports Sink_Config Logger_Schedules
begin

text \<open>
  \<open>CreateLogger\<close> of \<open>src/config/logger_config.cpp\<close>, and the whole path of a message: from the call of
  \<open>Log\<close> through the queue, the worker and the sink into the file.
\<close>

record LoggerConfig =
  lc_name :: string
  lc_options :: AsyncLoggerOptions
  lc_sinks :: "SinkConfig list"

definition default_LoggerConfig :: LoggerConfig where
  "default_LoggerConfig = \<lparr>lc_name = ''hlog'', lc_options = default_AsyncLoggerOptions, lc_sinks = []\<rparr>"

text \<open>Dynamic dispatch on the sink the logger owns.\<close>

definition lift_top :: "('s \<Rightarrow> TopSink) \<Rightarrow> ('s \<times> io_world, 'a) exec \<Rightarrow> 's \<Rightarrow> io_world \<Rightarrow> (exn + 'a) \<times> TopSink \<times> io_world" where
  "lift_top con f s w = (case f (s, w) of (r, s', w') \<Rightarrow> (r, con s', w'))"

definition top_ops :: "(TopSink \<times> io_world) sink_ops" where
  "top_ops =
     \<lparr>op_write = (\<lambda>m (c, w). case c of
          OneSink s \<Rightarrow> lift_top OneSink (op_write any_ops m) s w
        | MultiSinkOf s \<Rightarrow> lift_top MultiSinkOf (op_write (MultiSink_ops any_ops) m) s w),
      op_flush = (\<lambda>(c, w). case c of
          OneSink s \<Rightarrow> lift_top OneSink (op_flush any_ops) s w
        | MultiSinkOf s \<Rightarrow> lift_top MultiSinkOf (op_flush (MultiSink_ops any_ops)) s w),
      op_next = (\<lambda>(c, w). case c of
          OneSink s \<Rightarrow> op_next any_ops (s, w)
        | MultiSinkOf s \<Rightarrow> op_next (MultiSink_ops any_ops) (s, w)),
      op_due = (\<lambda>now (c, w). case c of
          OneSink s \<Rightarrow> lift_top OneSink (op_due any_ops now) s w
        | MultiSinkOf s \<Rightarrow> lift_top MultiSinkOf (op_due (MultiSink_ops any_ops) now) s w)\<rparr>"

definition CreateLogger :: "LoggerConfig \<Rightarrow> (io_world, TopSink AsyncLogger) exec" where
  "CreateLogger config = andthen (CreateSinks (lc_sinks config)) (\<lambda>sink w.
     (AsyncLogger_new (lc_name config) (Some (sink, w)) (lc_options config), w))"

section \<open>A logger with one file\<close>

lemma run_call_file:
  "run_call top_ops c (OneSink (FileOf s), w) =
     (case run_call FileSink_ops c (s, w) of (r, s', w') \<Rightarrow> (r, OneSink (FileOf s'), w'))"
  by (cases c) (auto simp: top_ops_def any_ops_def lift_top_def lift_sink_def set_clock_def split: prod.splits sum.splits)

lemma run_calls_stop: "run_calls ops cs s0 = (Inl e, st) \<Longrightarrow> run_calls ops (cs @ ds) s0 = (Inl e, st)"
  by (induction cs arbitrary: s0) (auto split: prod.splits sum.splits)

lemma run_calls_file:
  "run_calls top_ops cs (OneSink (FileOf s), w) =
     (case run_calls FileSink_ops cs (s, w) of (r, s', w') \<Rightarrow> (r, OneSink (FileOf s'), w'))"
  by (induction cs arbitrary: s w) (auto simp: run_call_file split: prod.splits sum.splits)

text \<open>The lines of messages, as the formatter of the configuration writes them.\<close>

definition message_lines :: "(int \<Rightarrow> tm) \<Rightarrow> string \<Rightarrow> LogMessage list \<Rightarrow> string" where
  "message_lines tz pattern ms = concat (map (\<lambda>m. Format tz (PatternFormatter_new pattern) m @ [newline]) ms)"

lemma call_texts: "concat (map (call_text tz (PatternFormatter_new pattern)) cs) = message_lines tz pattern (writes cs)"
  by (induction cs rule: writes.induct) (simp_all add: message_lines_def call_text_def)

lemma created_file_logger:
  assumes "CreateLogger config w = (Inr lg, w1)" and "lc_sinks config = [FileSinkConfig path opts]"
  obtains s where "FileSink_new path opts w = (Inr s, w1)" "lg_sink lg = (OneSink (FileOf s), w1)"
    "unat (opt_queue_size (lc_options config)) \<le> 2 ^ 63 \<Longrightarrow> fresh_logger lg"
proof -
  obtain s where s: "FileSink_new path opts w = (Inr s, w1)"
    and lg: "AsyncLogger_new (lc_name config) (Some (OneSink (FileOf s), w1)) (lc_options config) = Inr lg"
    using assms by (auto simp: CreateLogger_def CreateSinks_def CreateSink_def split: prod.splits sum.splits)
  show thesis
  proof (rule that [OF s])
    show "lg_sink lg = (OneSink (FileOf s), w1)" using lg by (auto simp: AsyncLogger_new_def)
    show "unat (opt_queue_size (lc_options config)) \<le> 2 ^ 63 \<Longrightarrow> fresh_logger lg" using lg unfolding fresh_logger_def by blast
  qed
qed

lemma finished_calls:
  assumes "history_inv ops sink0 l WorkerDone" and "failure_inv l WorkerDone" and "\<not> HasWorkerFailure l"
  shows "\<exists>before. run_calls ops (before @ [CallFlush]) sink0 = (Inr (), lg_sink l) \<and> hist_calls l = before @ [CallFlush] \<and>
    writes (hist_calls l) = logs (take (lg_taken l) (lg_slots l))"
proof -
  have none: "worker_error l WorkerDone = None" and last: "\<exists>before. hist_calls l = before @ [CallFlush]"
    using assms(2,3) by (auto simp: failure_inv_def HasWorkerFailure_def)
  note C = history_clean [OF assms(1) none]
  from last obtain before where "hist_calls l = before @ [CallFlush]" by blast
  then show ?thesis using C by (auto simp: begun_def)
qed

lemma flushed_at_end:
  assumes inv: "file_inv (s, w)" and run: "run_calls FileSink_ops (cs @ [CallFlush]) (s, w) = (Inr (), s2, w2)"
  shows "file_durable (s2, w2) = file_text (s2, w2)"
proof -
  obtain r1 s1 v1 where run1: "run_calls FileSink_ops cs (s, w) = (r1, s1, v1)" by (cases "run_calls FileSink_ops cs (s, w)")
  have r1: "r1 = Inr ()"
    using run_calls_stop [of FileSink_ops cs "(s, w)" _ "(s1, v1)" "[CallFlush]"] run run1 by (cases r1) auto
  have "op_flush FileSink_ops (s1, v1) = (Inr (), (s2, w2))"
    using run_calls_snoc [of FileSink_ops cs "(s, w)" "(s1, v1)" CallFlush] run run1 r1 by simp
  moreover have "file_inv (s1, v1)" using run_calls_ok [OF inv run1] r1 by simp
  ultimately show ?thesis using filesink.flush_law by simp
qed

text \<open>
  C1. From the call to the file.  A logger built by \<open>CreateLogger\<close> with one file sink, shared by any
  number of threads, in any interleaving and with the operating system failing at any call: the file
  always holds a prefix of its initial content followed by the lines of the messages in the order
  their slots in the queue were claimed, as far as the worker has taken them.  When the worker has ended without a
  failure, the file holds all of this for every item the worker has taken, and so for every message that was
  claimed if nothing is left in the queue; \<open>stop_may_lose_message\<close> shows that something may be left.
\<close>

theorem logger_writes_file:
  assumes made: "CreateLogger config w = (Inr lg, w1)" and one: "lc_sinks config = [FileSinkConfig path opts]"
    and "unat (opt_queue_size (lc_options config)) \<le> 2 ^ 63" and "n < 2 ^ 63"
    and path: "rtranclp (logger_step top_ops hash) (logger_start lg n) st" and "length (hist_tickets (sys_logger st)) < 2 ^ 64"
  shows "let initial = (if fs_truncate opts then [] else content w path);
             messages = logs (take (lg_taken (sys_logger st)) (lg_slots (sys_logger st)));
             file_now = content (snd (lg_sink (sys_logger st))) path
    in prefix file_now (initial @ message_lines (time_zone w) (fs_pattern opts) messages) \<and>
      (sys_worker st = WorkerDone \<and> \<not> HasWorkerFailure (sys_logger st) \<longrightarrow>
         file_now = initial @ message_lines (time_zone w) (fs_pattern opts) messages \<and>
         (queue_of (sys_logger st) = [] \<longrightarrow>
            file_now = initial @ message_lines (time_zone w) (fs_pattern opts) (logs (lg_slots (sys_logger st)))))"
proof -
  obtain s where s: "FileSink_new path opts w = (Inr s, w1)" "lg_sink lg = (OneSink (FileOf s), w1)" "fresh_logger lg"
    using created_file_logger [OF made one] assms(3) by metis
  have reach: "logger_reach top_ops hash lg n st" using s assms by (simp add: logger_reach_def)
  let ?l = "sys_logger st" and ?initial = "if fs_truncate opts then [] else content w path"
  note new = FileSink_new_ok [OF s(1)]
  have H: "history_inv top_ops (lg_sink lg) ?l (sys_worker st)" using history.reach_parts(1) [OF reach TrueI] by blast
  obtain r s2 w2 where run: "run_calls FileSink_ops (hist_calls ?l) (s, w1) = (r, s2, w2)"
    by (cases "run_calls FileSink_ops (hist_calls ?l) (s, w1)")
  then have sink: "lg_sink ?l = (OneSink (FileOf s2), w2)"
    using H s(2) run_calls_file [of "hist_calls ?l" s w1] by (simp add: history_inv_def)
  have inv: "file_inv (s, w1)" using new by blast
  note out = run_calls_ok [OF inv run]
  have p2: "of_path (fs_output s2) = path" using out new by (simp add: file_frame_def)
  let ?msgs = "logs (take (lg_taken ?l) (lg_slots ?l))" and ?lines = "message_lines (time_zone w) (fs_pattern opts)"
  have all_text: "file_text (s, w1) @ concat (map (call_text (time_zone w1) (fs_formatter s)) (hist_calls ?l)) =
      ?initial @ ?lines (writes (hist_calls ?l))" using new call_texts [of "time_zone w" "fs_pattern opts"] by simp
  have A: "prefix (content w2 path) (?initial @ ?lines (writes (hist_calls ?l)))"
    using out p2 all_text by (simp add: file_durable_def)
  have B: "prefix (?initial @ ?lines (writes (hist_calls ?l))) (?initial @ ?lines ?msgs)"
  proof -
    have "queue_inv ?l (sys_worker st)" using queue.reach_parts(1) [OF reach TrueI] .
    then have "?msgs = writes (hist_calls ?l) @
        (case in_hand (sys_worker st) of None \<Rightarrow> [] | Some item \<Rightarrow> if is_log item then [item_message item] else [])"
      using taken_logs H by (simp add: history_inv_def)
    then show ?thesis by (simp add: message_lines_def)
  qed
  have "content w2 path = ?initial @ ?lines ?msgs" if d: "sys_worker st = WorkerDone" "\<not> HasWorkerFailure ?l"
  proof -
    have F: "failure_inv ?l WorkerDone" using failure.reach_parts(1) [OF reach assms(6)] d(1) by simp
    obtain before where E: "run_calls top_ops (before @ [CallFlush]) (lg_sink lg) = (Inr (), lg_sink ?l)"
      "hist_calls ?l = before @ [CallFlush]" "writes (hist_calls ?l) = ?msgs"
      using finished_calls [OF H [unfolded d(1)] F d(2)] by blast
    then have "run_calls FileSink_ops (before @ [CallFlush]) (s, w1) = (Inr (), s2, w2)"
      using s(2) sink run run_calls_file [of "hist_calls ?l" s w1] by simp
    then have "file_durable (s2, w2) = file_text (s2, w2)" "r = Inr ()" using flushed_at_end [OF inv] run E(2) by auto
    then show ?thesis using out p2 all_text E(3) by (simp add: file_durable_def)
  qed
  moreover have "logs (lg_slots ?l) = ?msgs" if "queue_of ?l = []" using that by (simp add: queue_of_def)
  ultimately show ?thesis unfolding Let_def sink snd_conv using prefix_order.trans [OF A B] by metis
qed

definition file_config :: LoggerConfig where
  "file_config = default_LoggerConfig\<lparr>lc_options := default_AsyncLoggerOptions\<lparr>opt_queue_size := 2\<rparr>,
     lc_sinks := [FileSinkConfig ''app.log''
       \<lparr>fs_truncate = False, fs_max_batch_size = 4, fs_flush_interval = 50, fs_pattern = ''> %v''\<rparr>]\<rparr>"

definition file_logger :: "TopSink AsyncLogger" where
  "file_logger = (case fst (CreateLogger file_config idle_world) of Inr lg \<Rightarrow> lg | Inl e \<Rightarrow> undefined)"

definition file_schedule :: "logger_action list" where
  "file_schedule = Call 0 (LogCall Info no_source []) # replicate 12 (Run 0) @ replicate 8 RunWorker @
     CallStop 1 # replicate 4 (Run 1) @ replicate 4 RunWorker"

definition file_run :: "TopSink logger_sys" where
  "file_run = logger_run top_ops (\<lambda>_. 0) file_schedule (logger_start file_logger 2)"

definition file_view :: "TopSink logger_sys \<Rightarrow> worker_pc \<times> bool \<times> nat \<times> nat \<times> nat \<times> nat list \<times> string" where
  "file_view st = (sys_worker st, lg_worker_failed (sys_logger st), lg_taken (sys_logger st),
     length (logs (lg_slots (sys_logger st))), length (lg_slots (sys_logger st)), hist_tickets (sys_logger st),
     content (snd (lg_sink (sys_logger st))) ''app.log'')"

lemma file_run_view: "file_view file_run = (WorkerDone, False, 1, 1, 1, [], ''> '' @ [newline])"
  by code_simp

lemma file_run_eval:
  "sys_worker file_run = WorkerDone" "lg_worker_failed (sys_logger file_run) = False" "lg_taken (sys_logger file_run) = 1"
  "length (logs (lg_slots (sys_logger file_run))) = 1"
  "hist_tickets (sys_logger file_run) = []" "queue_of (sys_logger file_run) = []"
  "content (snd (lg_sink (sys_logger file_run))) ''app.log'' = ''> '' @ [newline]"
  using file_run_view by (auto simp: file_view_def queue_of_def)

theorem logger_writes_file_witness:
  "content (snd (lg_sink (sys_logger file_run))) ''app.log'' =
     message_lines (time_zone idle_world) ''> %v'' (logs (lg_slots (sys_logger file_run))) \<and>
   length (logs (lg_slots (sys_logger file_run))) = 1 \<and>
   content (snd (lg_sink (sys_logger file_run))) ''app.log'' = ''> '' @ [newline]"
proof -
  obtain lg w1 where made: "CreateLogger file_config idle_world = (Inr lg, w1)"
    by (simp add: CreateLogger_def file_config_def default_LoggerConfig_def CreateSinks_def CreateSink_def FileSink_new_def
      ofstream_open_def ofstream_closed_def next_outcome_def idle_world_def AsyncLogger_new_def Let_def)
  have "file_logger = lg" using made by (simp add: file_logger_def)
  then have path: "rtranclp (logger_step top_ops (\<lambda>_. 0)) (logger_start lg 2) file_run"
    unfolding file_run_def using logger_run_reach by simp
  have one: "lc_sinks file_config = [FileSinkConfig ''app.log''
      \<lparr>fs_truncate = False, fs_max_batch_size = 4, fs_flush_interval = 50, fs_pattern = ''> %v''\<rparr>]"
    "unat (opt_queue_size (lc_options file_config)) \<le> 2 ^ 63" by (simp_all add: file_config_def)
  have "length (hist_tickets (sys_logger file_run)) < 2 ^ 64" by (simp add: file_run_eval)
  from logger_writes_file [OF made one _ path this] file_run_eval show ?thesis
    by (auto simp: Let_def HasWorkerFailure_def content_def idle_world_def)
qed

end
