(* ===== verification/Service_Config.thy ===== *)
theory Service_Config
  imports Logger_Config
begin

text \<open>
  Configuration of \<open>examples/service_example.cpp\<close> from the environment, with the paths of
  \<open>examples/runtime_paths.h\<close>.  \<open>std::getenv\<close> is a parameter \<open>env\<close>; \<open>std::from_chars\<close> and
  the concatenation of \<open>std::filesystem::path\<close> are standard library functions and are defined here.
\<close>

section \<open>The environment\<close>

definition GetEnvOrDefault :: "(string \<Rightarrow> string option) \<Rightarrow> string \<Rightarrow> string \<Rightarrow> string" where
  "GetEnvOrDefault env name fallback = (case env name of None \<Rightarrow> fallback | Some value \<Rightarrow> value)"

text \<open>
  \<open>std::from_chars\<close> in base 10: an optional minus sign, for signed types only, then the longest
  sequence of digits.  It fails, and leaves the value alone, when there is no digit or the number
  does not fit the type; otherwise it returns the value and what it has not read.
\<close>

fun is_signed :: "IntType \<Rightarrow> bool" where
  "is_signed I16 = True" | "is_signed I32 = True" | "is_signed I64 = True"
| "is_signed U16 = False" | "is_signed U32 = False" | "is_signed U64 = False"

definition is_digit :: "char \<Rightarrow> bool" where
  "is_digit c \<longleftrightarrow> 48 \<le> (of_char c :: nat) \<and> (of_char c :: nat) \<le> 57"

definition from_chars :: "IntType \<Rightarrow> string \<Rightarrow> (int \<times> string) option" where
  "from_chars ty text =
     (let negative = (is_signed ty \<and> text \<noteq> [] \<and> hd text = CHR ''-'');
          unsigned_text = (if negative then tl text else text);
          digits = takeWhile is_digit unsigned_text;
          magnitude = int (undecimal digits 0);
          value = (if negative then - magnitude else magnitude)
      in if digits = [] \<or> \<not> int_in_range ty value then None
         else Some (value, dropWhile is_digit unsigned_text))"

definition ParseInteger :: "IntType \<Rightarrow> string \<Rightarrow> int \<Rightarrow> int" where
  "ParseInteger ty text fallback =
     (case from_chars ty text of
        Some (value, end_text) \<Rightarrow> if end_text = [] then value else fallback
      | None \<Rightarrow> fallback)"

lemma is_digit_decimal: "c \<in> set (decimal n) \<Longrightarrow> is_digit c"
  using decimal_code_range by (simp add: is_digit_def)

lemma decimal_all_digits: "takeWhile is_digit (decimal n) = decimal n" "dropWhile is_digit (decimal n) = []"
  using is_digit_decimal by (simp_all add: dropWhile_eq_Nil_conv)

lemma digit_not_minus: "c \<in> set (decimal n) \<Longrightarrow> c \<noteq> CHR ''-''"
  using decimal_code_range [of c n] by auto

lemma hd_decimal: "hd (decimal n) \<noteq> CHR ''-''"
  using digit_not_minus [of "hd (decimal n)" n] by simp

lemma from_chars_text: "int_in_range ty i \<Longrightarrow> from_chars ty (int_text i) = Some (i, [])"
proof (cases "i < 0")
  case True
  moreover assume r: "int_in_range ty i"
  ultimately have "is_signed ty" by (cases ty) auto
  then show ?thesis using True r by (simp add: from_chars_def int_text_def Let_def decimal_all_digits undecimal_decimal)
next
  case False
  assume "int_in_range ty i"
  with False show ?thesis using hd_decimal
    by (simp add: from_chars_def int_text_def Let_def decimal_all_digits undecimal_decimal)
qed

lemma ParseInteger_range: "int_in_range ty fallback \<Longrightarrow> int_in_range ty (ParseInteger ty text fallback)"
  by (auto simp: ParseInteger_def from_chars_def Let_def split: option.splits if_splits)

text \<open>
  Reading an integer.  \<open>ParseInteger\<close> reads every value of its type from its decimal text,
  whatever the fallback; and what it makes of any text is a value of its type when the fallback is one.
\<close>

theorem ParseInteger_text:
  assumes "int_in_range ty fallback" and "int_in_range ty i"
  shows "ParseInteger ty (int_text i) fallback = i \<and> int_in_range ty (ParseInteger ty text fallback)"
  using from_chars_text [OF assms(2)] ParseInteger_range [OF assms(1)] by (simp add: ParseInteger_def)

theorem ParseInteger_text_witness:
  "ParseInteger I32 ''-17'' 4 = -17 \<and> ParseInteger U16 ''65536'' 8080 = 8080 \<and> ParseInteger I32 ''12x'' 4 = 4 \<and>
   ParseInteger U16 ''-1'' 8080 = 8080"
proof -
  have "int_text (-17) = ''-17''" by code_simp
  then have "ParseInteger I32 ''-17'' 4 = -17" using ParseInteger_text [of I32 4 "-17"] by simp
  moreover have "ParseInteger U16 ''65536'' 8080 = 8080" "ParseInteger I32 ''12x'' 4 = 4" "ParseInteger U16 ''-1'' 8080 = 8080"
    by (simp_all add: ParseInteger_def from_chars_def is_digit_def)
  ultimately show ?thesis by simp
qed


section \<open>Paths of the run\<close>

text \<open>\<open>operator/\<close> of \<open>std::filesystem::path\<close> on POSIX.\<close>

definition path_append :: "string \<Rightarrow> string \<Rightarrow> string" where
  "path_append p q =
     (if q \<noteq> [] \<and> hd q = CHR ''/'' then q
      else if p = [] \<or> last p = CHR ''/'' then p @ q
      else p @ ''/'' @ q)"

definition ArtifactRoot :: "(string \<Rightarrow> string option) \<Rightarrow> string" where
  "ArtifactRoot env =
     (case env ''HLOG_ARTIFACT_DIR'' of
        Some configured \<Rightarrow> if configured \<noteq> [] then configured else ''out''
      | None \<Rightarrow> ''out'')"

text \<open>\<open>create_directories\<close> throws when the operating system refuses.\<close>

definition RuntimeDir :: "(string \<Rightarrow> string option) \<Rightarrow> (io_world, string) exec" where
  "RuntimeDir env = (\<lambda>w.
     let directory = path_append (ArtifactRoot env) ''runtime'' in
     case next_outcome w of
       (IoOk _, w') \<Rightarrow> (Inr directory, w')
     | (IoFail _, w') \<Rightarrow> (Inl (OtherStdException ''filesystem error''), w'))"

definition RuntimeLogPath :: "(string \<Rightarrow> string option) \<Rightarrow> string \<Rightarrow> (io_world, string) exec" where
  "RuntimeLogPath env file_name = andthen (RuntimeDir env) (\<lambda>directory. ret (path_append directory file_name))"

section \<open>The configuration of the service\<close>

record ServiceConfig =
  svc_port :: int
  svc_worker_count :: int
  svc_max_requests :: int
  svc_logger :: LoggerConfig

definition default_ServiceConfig :: ServiceConfig where
  "default_ServiceConfig =
     \<lparr>svc_port = 8080, svc_worker_count = 4, svc_max_requests = 0, svc_logger = default_LoggerConfig\<rparr>"

definition env_int :: "(string \<Rightarrow> string option) \<Rightarrow> IntType \<Rightarrow> string \<Rightarrow> string \<Rightarrow> int \<Rightarrow> int" where
  "env_int env ty name default_text fallback = ParseInteger ty (GetEnvOrDefault env name default_text) fallback"

definition console_config :: "string \<Rightarrow> SinkConfig" where
  "console_config pattern =
     ConsoleSinkConfig (default_ConsoleSinkOptions\<lparr>con_stream := Stderr, con_auto_flush := False, con_pattern := pattern\<rparr>)"

definition rotating_config :: "(string \<Rightarrow> string option) \<Rightarrow> string \<Rightarrow> string \<Rightarrow> SinkConfig" where
  "rotating_config env pattern log_path =
     RotatingFileSinkConfig log_path (default_RotatingFileSinkOptions
       \<lparr>rs_pattern := pattern,
        rs_max_file_size := nat (max 1024 (env_int env I32 ''HLOG_ROTATE_BYTES'' ''10485760'' 10485760)),
        rs_max_files := nat (max 1 (env_int env I32 ''HLOG_ROTATE_FILES'' ''5'' 5)),
        rs_max_batch_size := nat (max 1 (env_int env I32 ''HLOG_BATCH_BYTES'' ''65536'' 65536)),
        rs_flush_interval := max 0 (env_int env I32 ''HLOG_FLUSH_MS'' ''250'' 250)\<rparr>)"

definition logger_config :: "(string \<Rightarrow> string option) \<Rightarrow> string \<Rightarrow> LoggerConfig" where
  "logger_config env log_path =
     (let pattern = GetEnvOrDefault env ''HLOG_PATTERN'' kDefaultLogPattern in
      \<lparr>lc_name = ''hlog-http-service'',
       lc_options = default_AsyncLoggerOptions
         \<lparr>opt_queue_size := word_of_int (max 256 (env_int env I32 ''HLOG_QUEUE_SIZE'' ''8192'' 8192)),
          opt_level := ParseLogLevel (GetEnvOrDefault env ''HLOG_LEVEL'' ''info'') Info,
          opt_flush_level := ParseLogLevel (GetEnvOrDefault env ''HLOG_FLUSH_LEVEL'' ''error'') Error\<rparr>,
       lc_sinks = console_config pattern # (if log_path \<noteq> [] then [rotating_config env pattern log_path] else [])\<rparr>)"

text \<open>The default path is an argument of \<open>GetEnvOrDefault\<close>, so it is computed, and its directory created, in any case.\<close>

definition LoadConfig :: "(string \<Rightarrow> string option) \<Rightarrow> (io_world, ServiceConfig) exec" where
  "LoadConfig env = andthen (RuntimeLogPath env ''service.log'') (\<lambda>default_path. ret
     \<lparr>svc_port = env_int env U16 ''HLOG_PORT'' ''8080'' 8080,
      svc_worker_count = max 1 (env_int env I32 ''HLOG_WORKERS'' ''4'' 4),
      svc_max_requests = max 0 (env_int env I32 ''HLOG_MAX_REQUESTS'' ''0'' 0),
      svc_logger = logger_config env (GetEnvOrDefault env ''HLOG_LOG_PATH'' default_path)\<rparr>)"

section \<open>What a loaded configuration satisfies\<close>

fun sink_config_ok :: "SinkConfig \<Rightarrow> bool" where
  "sink_config_ok (ConsoleSinkConfig options) \<longleftrightarrow> con_stream options = Stderr \<and> \<not> con_auto_flush options"
| "sink_config_ok (FileSinkConfig path options) \<longleftrightarrow> False"
| "sink_config_ok (RotatingFileSinkConfig path options) \<longleftrightarrow> path \<noteq> [] \<and> \<not> rs_truncate_on_open options \<and>
     1024 \<le> rs_max_file_size options \<and> rs_max_file_size options < 2 ^ 31 \<and>
     1 \<le> rs_max_files options \<and> rs_max_files options < 2 ^ 31 \<and>
     1 \<le> rs_max_batch_size options \<and> rs_max_batch_size options < 2 ^ 31 \<and>
     0 \<le> rs_flush_interval options \<and> rs_flush_interval options < 2 ^ 31"

definition service_config_ok :: "ServiceConfig \<Rightarrow> bool" where
  "service_config_ok c \<longleftrightarrow> 0 \<le> svc_port c \<and> svc_port c < 2 ^ 16 \<and>
     1 \<le> svc_worker_count c \<and> svc_worker_count c < 2 ^ 31 \<and>
     0 \<le> svc_max_requests c \<and> svc_max_requests c < 2 ^ 31 \<and>
     256 \<le> unat (opt_queue_size (lc_options (svc_logger c))) \<and>
     unat (opt_queue_size (lc_options (svc_logger c))) < 2 ^ 31 \<and>
     length (lc_sinks (svc_logger c)) \<in> {1, 2} \<and> list_all sink_config_ok (lc_sinks (svc_logger c))"

lemma env_int_I32: "int_in_range I32 fallback \<Longrightarrow> - (2 ^ 31) \<le> env_int env I32 name d fallback \<and> env_int env I32 name d fallback < 2 ^ 31"
  using ParseInteger_range [of I32 fallback] by (simp add: env_int_def)

lemma env_int_U16: "int_in_range U16 fallback \<Longrightarrow> 0 \<le> env_int env U16 name d fallback \<and> env_int env U16 name d fallback < 2 ^ 16"
  using ParseInteger_range [of U16 fallback] by (simp add: env_int_def)

lemma rotating_config_ok: "log_path \<noteq> [] \<Longrightarrow> sink_config_ok (rotating_config env pattern log_path)"
  using env_int_I32 [of 10485760 env "''HLOG_ROTATE_BYTES''" "''10485760''"] env_int_I32 [of 5 env "''HLOG_ROTATE_FILES''" "''5''"]
    env_int_I32 [of 65536 env "''HLOG_BATCH_BYTES''" "''65536''"] env_int_I32 [of 250 env "''HLOG_FLUSH_MS''" "''250''"]
  by (simp add: rotating_config_def default_RotatingFileSinkOptions_def) linarith

lemma logger_config_queue:
  "unat (opt_queue_size (lc_options (logger_config env path))) = nat (max 256 (env_int env I32 ''HLOG_QUEUE_SIZE'' ''8192'' 8192))"
  using env_int_I32 [of 8192 env "''HLOG_QUEUE_SIZE''" "''8192''"]
  by (simp add: logger_config_def Let_def unsigned_of_int take_bit_int_eq_self)

lemma logger_config_sinks:
  "length (lc_sinks (logger_config env path)) \<in> {1, 2} \<and> list_all sink_config_ok (lc_sinks (logger_config env path))"
  using rotating_config_ok
  by (simp add: logger_config_def Let_def console_config_def default_ConsoleSinkOptions_def)

lemma LoadConfig_result:
  "case LoadConfig env w of
     (Inl e, w') \<Rightarrow> (\<exists>k. fst (next_outcome w) = IoFail k) \<and> e = OtherStdException ''filesystem error''
   | (Inr config, w') \<Rightarrow> service_config_ok config"
proof -
  have "service_config_ok \<lparr>svc_port = env_int env U16 ''HLOG_PORT'' ''8080'' 8080,
      svc_worker_count = max 1 (env_int env I32 ''HLOG_WORKERS'' ''4'' 4),
      svc_max_requests = max 0 (env_int env I32 ''HLOG_MAX_REQUESTS'' ''0'' 0),
      svc_logger = logger_config env path\<rparr>" for path
    unfolding service_config_ok_def
    using env_int_U16 [of 8080 env "''HLOG_PORT''" "''8080''"] env_int_I32 [of 4 env "''HLOG_WORKERS''" "''4''"]
      env_int_I32 [of 0 env "''HLOG_MAX_REQUESTS''" "''0''"] env_int_I32 [of 8192 env "''HLOG_QUEUE_SIZE''" "''8192''"]
      logger_config_sinks [of env path]
    by (auto simp: logger_config_queue)
  then show ?thesis
    by (auto simp: LoadConfig_def RuntimeLogPath_def RuntimeDir_def Let_def split: prod.splits sum.splits io_outcome.splits)
qed

lemma LoadConfig_ok: "LoadConfig env w = (Inr config, w') \<Longrightarrow> service_config_ok config"
  using LoadConfig_result [of w env] by simp

text \<open>
  C29. Well-formed configurations.  Whatever the environment holds, \<open>LoadConfig\<close> returns a port of 16
  bits, at least one worker, a request limit that is not negative, a queue of at least 256 slots and
  one or two sinks with usable limits, all within \<open>int\<close>; it throws only when the directory of the
  default log path cannot be created.
\<close>

theorem LoadConfig_type:
  "case LoadConfig env w of
     (Inl e, w') \<Rightarrow> (\<exists>k. fst (next_outcome w) = IoFail k) \<and> e = OtherStdException ''filesystem error''
   | (Inr config, w') \<Rightarrow> service_config_ok config"
  by (rule LoadConfig_result)

lemma LoadConfig_needs_runtime_dir:
  "fst (next_outcome w) = IoFail k \<Longrightarrow> fst (LoadConfig env w) = Inl (OtherStdException ''filesystem error'')"
  by (auto simp: LoadConfig_def RuntimeLogPath_def RuntimeDir_def Let_def split: prod.splits)

end
