(* ===== verification/File_Descriptor.thy ===== *)
theory File_Descriptor
  imports Prelude "HOL-Library.Multiset"
begin

text \<open>
  \<open>FileDescriptor\<close> of \<open>examples/service_example.cpp\<close>: the owner of a descriptor.  An object is the
  value of its field \<open>fd_\<close>; the calls of \<open>::close\<close> are kept in a list, in order.
\<close>

section \<open>The members\<close>

definition FileDescriptor_default :: int where
  "FileDescriptor_default = -1"

definition FileDescriptor_new :: "int \<Rightarrow> int" where
  "FileDescriptor_new fd = fd"

definition fd_Reset :: "int \<Rightarrow> int \<Rightarrow> int list \<Rightarrow> int \<times> int list" where
  "fd_Reset fd held closed_fds = (fd, if 0 \<le> held then closed_fds @ [held] else closed_fds)"

definition fd_destroy :: "int \<Rightarrow> int list \<Rightarrow> int list" where
  "fd_destroy held closed_fds = snd (fd_Reset (-1) held closed_fds)"

text \<open>A move returns the new value of this object and the value left in the other one.\<close>

definition fd_move :: "int \<Rightarrow> int \<times> int" where
  "fd_move other = (other, -1)"

definition fd_move_assign :: "int \<Rightarrow> int \<Rightarrow> int list \<Rightarrow> (int \<times> int) \<times> int list" where
  "fd_move_assign this other closed_fds =
     (case fd_Reset (-1) this closed_fds of (_, closed_fds') \<Rightarrow> ((other, -1), closed_fds'))"

definition fd_Release :: "int \<Rightarrow> int \<times> int" where
  "fd_Release held = (held, -1)"

section \<open>Programs that use descriptors\<close>

text \<open>
  The objects of a program by number; a destroyed object is \<open>None\<close>, and using one is \<open>None\<close> as a
  result.  Move assignment takes both objects by reference, so they may be the same one.
\<close>

datatype fd_op =
    Construct int
  | ConstructDefault
  | MoveConstruct nat
  | MoveAssign nat nat
  | ReleaseObject nat
  | ResetObject nat int
  | Destroy nat

record fd_world =
  fd_objects :: "int option list"
  fd_closed :: "int list"
  fd_released :: "int list"
  fd_given :: "int list"

definition fd_object :: "fd_world \<Rightarrow> nat \<Rightarrow> int option" where
  "fd_object w a = (if a < length (fd_objects w) then fd_objects w ! a else None)"

definition valid_fds :: "int list \<Rightarrow> int list" where
  "valid_fds fds = filter (\<lambda>fd. 0 \<le> fd) fds"

fun fd_do :: "fd_op \<Rightarrow> fd_world \<Rightarrow> fd_world option" where
  "fd_do (Construct fd) w = Some (w\<lparr>fd_objects := fd_objects w @ [Some (FileDescriptor_new fd)], fd_given := fd_given w @ [fd]\<rparr>)"
| "fd_do ConstructDefault w = Some (w\<lparr>fd_objects := fd_objects w @ [Some FileDescriptor_default]\<rparr>)"
| "fd_do (MoveConstruct b) w =
     (case fd_object w b of
        None \<Rightarrow> None
      | Some other \<Rightarrow> (case fd_move other of (this, left) \<Rightarrow>
          Some (w\<lparr>fd_objects := (fd_objects w)[b := Some left] @ [Some this]\<rparr>)))"
| "fd_do (MoveAssign a b) w =
     (case (fd_object w a, fd_object w b) of
        (Some this, Some other) \<Rightarrow>
          if a = b then Some w
          else (case fd_move_assign this other (fd_closed w) of ((this', left), closed_fds) \<Rightarrow>
            Some (w\<lparr>fd_objects := (fd_objects w)[a := Some this', b := Some left], fd_closed := closed_fds\<rparr>))
      | _ \<Rightarrow> None)"
| "fd_do (ReleaseObject a) w =
     (case fd_object w a of
        None \<Rightarrow> None
      | Some held \<Rightarrow> (case fd_Release held of (released, left) \<Rightarrow>
          Some (w\<lparr>fd_objects := (fd_objects w)[a := Some left], fd_released := fd_released w @ [released]\<rparr>)))"
| "fd_do (ResetObject a fd) w =
     (case fd_object w a of
        None \<Rightarrow> None
      | Some held \<Rightarrow> (case fd_Reset fd held (fd_closed w) of (held', closed_fds) \<Rightarrow>
          Some (w\<lparr>fd_objects := (fd_objects w)[a := Some held'], fd_closed := closed_fds, fd_given := fd_given w @ [fd]\<rparr>)))"
| "fd_do (Destroy a) w =
     (case fd_object w a of
        None \<Rightarrow> None
      | Some held \<Rightarrow> Some (w\<lparr>fd_objects := (fd_objects w)[a := None], fd_closed := fd_destroy held (fd_closed w)\<rparr>))"

fun fd_run :: "fd_op list \<Rightarrow> fd_world \<Rightarrow> fd_world option" where
  "fd_run [] w = Some w"
| "fd_run (op # ops) w = (case fd_do op w of None \<Rightarrow> None | Some w' \<Rightarrow> fd_run ops w')"

definition fd_start :: fd_world where
  "fd_start = \<lparr>fd_objects = [], fd_closed = [], fd_released = [], fd_given = []\<rparr>"

section \<open>Every descriptor has one owner\<close>

definition held_fds :: "int option list \<Rightarrow> int multiset" where
  "held_fds objects = (\<Sum>ob \<leftarrow> objects. case ob of Some fd \<Rightarrow> if 0 \<le> fd then {#fd#} else {#} | None \<Rightarrow> {#})"

lemma held_append [simp]: "held_fds (xs @ ys) = held_fds xs + held_fds ys"
  by (simp add: held_fds_def)

definition one_fd :: "int option \<Rightarrow> int multiset" where
  "one_fd ob = held_fds [ob]"

lemma held_Cons [simp]: "held_fds (ob # obs) = one_fd ob + held_fds obs"
  by (simp add: held_fds_def one_fd_def)

lemma held_Nil [simp]: "held_fds [] = {#}"
  by (simp add: held_fds_def)

lemma one_fd_simps [simp]: "one_fd None = {#}" "0 \<le> fd \<Longrightarrow> one_fd (Some fd) = {#fd#}" "fd < 0 \<Longrightarrow> one_fd (Some fd) = {#}"
  by (simp_all add: one_fd_def held_fds_def)

lemma held_update: "a < length obs \<Longrightarrow> held_fds (obs[a := ob]) + one_fd (obs ! a) = held_fds obs + one_fd ob"
  by (induction obs arbitrary: a) (auto simp: nth_Cons' add_ac split: nat.splits)

definition fd_balance :: "fd_world \<Rightarrow> bool" where
  "fd_balance w \<longleftrightarrow> mset (valid_fds (fd_given w)) = held_fds (fd_objects w) + mset (fd_closed w) + mset (valid_fds (fd_released w))"

lemma fd_object_Some: "fd_object w a = Some v \<longleftrightarrow> a < length (fd_objects w) \<and> fd_objects w ! a = Some v"
  by (auto simp: fd_object_def split: if_splits)

lemma held_replaced:
  "fd_object w a = Some v \<Longrightarrow> held_fds ((fd_objects w)[a := ob]) + one_fd (Some v) = held_fds (fd_objects w) + one_fd ob"
  using held_update [of a "fd_objects w" ob] by (simp add: fd_object_Some)

lemma valid_append [simp]: "mset (valid_fds (xs @ [fd])) = mset (valid_fds xs) + one_fd (Some fd)"
  by (cases "0 \<le> fd") (simp_all add: valid_fds_def)

lemma closed_after_reset: "mset (snd (fd_Reset fd held cs)) = mset cs + one_fd (Some held)" "fst (fd_Reset fd held cs) = fd"
  by (auto simp: fd_Reset_def)

lemmas fd_member_defs = FileDescriptor_new_def FileDescriptor_default_def fd_move_def fd_move_assign_def fd_Release_def fd_destroy_def

lemma held_two:
  assumes "fd_object w a = Some v" and "fd_object w b = Some u" and "a \<noteq> b"
  shows "held_fds ((fd_objects w)[a := x, b := y]) + one_fd (Some v) + one_fd (Some u) = held_fds (fd_objects w) + one_fd x + one_fd y"
proof -
  have "fd_object (w\<lparr>fd_objects := (fd_objects w)[a := x]\<rparr>) b = Some u" using assms by (simp add: fd_object_Some)
  from held_replaced [OF this, of y] held_replaced [OF assms(1), of x] show ?thesis by simp (metis add.assoc add.commute)
qed

lemma balance_swap: "(H :: int multiset) + A = H0 + B \<Longrightarrow> G = H0 + C + R \<Longrightarrow> G + B = H + (C + A) + R"
  by (metis add.assoc add.commute)

lemma fd_do_balance:
  assumes "fd_do op w = Some w'" and bal: "fd_balance w"
  shows "fd_balance w'"
proof (cases op)
  case (MoveConstruct b)
  then obtain v where "fd_object w b = Some v" using assms(1) by (auto split: option.splits)
  then show ?thesis using assms MoveConstruct held_replaced [of w b v "Some (-1)"]
    by (auto simp: fd_balance_def fd_member_defs add_ac)
next
  case (MoveAssign a b)
  then obtain v u where vu: "fd_object w a = Some v" "fd_object w b = Some u" using assms(1) by (auto split: option.splits)
  show ?thesis
  proof (cases "a = b")
    case True
    then show ?thesis using assms MoveAssign vu by (auto split: option.splits)
  next
    case False
    from held_two [OF vu False, of "Some u" "Some (-1)"]
    have "held_fds ((fd_objects w)[a := Some u, b := Some (-1)]) + one_fd (Some v) = held_fds (fd_objects w)" by simp
    then show ?thesis using assms MoveAssign vu False closed_after_reset [of "-1" v "fd_closed w"]
      by (auto simp: fd_balance_def fd_member_defs split: prod.splits)
  qed
next
  case (ReleaseObject a)
  then obtain v where "fd_object w a = Some v" using assms(1) by (auto split: option.splits)
  then show ?thesis using assms ReleaseObject held_replaced [of w a v "Some (-1)"]
    by (auto simp: fd_balance_def fd_member_defs)
next
  case (ResetObject a fd)
  then obtain v where v: "fd_object w a = Some v" using assms(1) by (auto split: option.splits)
  from balance_swap [OF held_replaced [OF v, of "Some fd"] bal [unfolded fd_balance_def]]
  show ?thesis using assms(1) ResetObject v closed_after_reset [of fd v "fd_closed w"]
    by (auto simp: fd_balance_def split: prod.splits)
next
  case (Destroy a)
  then obtain v where "fd_object w a = Some v" using assms(1) by (auto split: option.splits)
  then show ?thesis using assms Destroy held_replaced [of w a v None] closed_after_reset [of "-1" v "fd_closed w"]
    by (auto simp: fd_balance_def fd_member_defs)
qed (use assms in \<open>auto simp: fd_balance_def fd_member_defs\<close>)

lemma fd_run_balance: "fd_run ops w = Some w' \<Longrightarrow> fd_balance w \<Longrightarrow> fd_balance w'"
  by (induction ops w rule: fd_run.induct) (auto intro: fd_do_balance split: option.splits)

text \<open>
  C30. One owner, one close.  A program that is given descriptors, each once, and handles them with
  \<open>FileDescriptor\<close> objects in any way, closes no descriptor twice and none that it still holds or has
  released; and every descriptor it was given is held by exactly one object, or closed, or released.
\<close>

theorem fd_one_owner:
  assumes "fd_run ops fd_start = Some w" and "distinct (valid_fds (fd_given w))"
  shows "mset (valid_fds (fd_given w)) = held_fds (fd_objects w) + mset (fd_closed w) + mset (valid_fds (fd_released w)) \<and>
    distinct (fd_closed w) \<and> set (fd_closed w) \<inter> set_mset (held_fds (fd_objects w)) = {} \<and>
    set (fd_closed w) \<inter> set (valid_fds (fd_released w)) = {}"
proof -
  have eq: "mset (valid_fds (fd_given w)) = held_fds (fd_objects w) + mset (fd_closed w) + mset (valid_fds (fd_released w))"
    using fd_run_balance [OF assms(1)] by (simp add: fd_balance_def fd_start_def valid_fds_def)
  obtain hs where hs: "mset hs = held_fds (fd_objects w)" using ex_mset by blast
  then have "mset (valid_fds (fd_given w)) = mset (hs @ fd_closed w @ valid_fds (fd_released w))" using eq by simp
  then have "distinct (hs @ fd_closed w @ valid_fds (fd_released w))" using assms(2) mset_eq_imp_distinct_iff by blast
  then show ?thesis using eq hs [symmetric] by auto
qed

text \<open>What \<open>main\<close> and \<open>HandleConnection\<close> do: a server socket, a connection, and its move into a container.\<close>

definition fd_example :: "fd_op list" where
  "fd_example = [Construct 3, Construct 7, MoveConstruct 1, ConstructDefault, MoveAssign 3 2, MoveAssign 0 0, ResetObject 3 9,
     Destroy 3, Destroy 2, Destroy 1, ReleaseObject 0, Destroy 0]"

theorem fd_one_owner_witness:
  "\<exists>w. fd_run fd_example fd_start = Some w \<and> fd_closed w = [7, 9] \<and> fd_released w = [3] \<and> held_fds (fd_objects w) = {#}"
proof -
  let ?w = "\<lparr>fd_objects = [None, None, None, None], fd_closed = [7, 9], fd_released = [3], fd_given = [3, 7, 9]\<rparr>"
  have run: "fd_run fd_example fd_start = Some ?w" by code_simp
  have "mset (valid_fds [3, 7, 9]) = held_fds [None, None, None, None] + mset [7, 9] + mset (valid_fds [3])"
    using fd_one_owner [OF run] by (simp add: valid_fds_def)
  then show ?thesis using run by simp
qed

end
