(* ===== verification/Service_Loop.thy ===== *)
theory Service_Loop
  imports Service_Http Service_Config File_Descriptor
begin

text \<open>
  The threads of \<open>examples/service_example.cpp\<close>: \<open>main\<close> accepts connections and puts them into a
  \<open>ConnectionQueue\<close>, the workers take them out and run \<open>HandleConnection\<close>.  Each thread is a program
  counter; a step is one access to shared state, one call of the operating system or one critical
  section of the queue's mutex, which no other thread can observe half done.  A thread in the wait set
  of the condition variable is at \<open>PopBlocked\<close>; the notifications are steps of their own.

  Calls of the logger are recorded in order; what the logger does with them is the subject of the
  other theories.
\<close>

section \<open>The shared state\<close>

record AcceptedConnection =
  conn_fd :: int
  conn_remote :: string

datatype log_use = LogLine LogLevel "LogArg list" | LogFlush | LogStop

text \<open>
  \<open>sv_closed\<close> holds the descriptors of connections closed so far, \<open>sv_accepted\<close> is the local
  \<open>accepted_requests\<close> of \<open>main\<close>.  The fields from \<open>seen_accepted\<close> on are history: the connections
  returned by \<open>::accept\<close>, those pushed and popped, the requests counted, and for each answered request
  the reply chosen and the bytes its peer got.
\<close>

record service =
  sv_queue :: "AcceptedConnection list"
  sv_stopped :: bool
  sv_running :: bool
  sv_total :: u64
  sv_accepted :: int
  sv_closed :: "int list"
  sv_log :: "log_use list"
  seen_accepted :: "AcceptedConnection list"
  seen_pushed :: "AcceptedConnection list"
  seen_popped :: "AcceptedConnection list"
  seen_requests :: nat
  seen_replies :: "(Reply \<times> string) list"

definition log_line :: "LogLevel \<Rightarrow> LogArg list \<Rightarrow> service \<Rightarrow> service" where
  "log_line level args s = s\<lparr>sv_log := sv_log s @ [LogLine level args]\<rparr>"

section \<open>The queue of connections\<close>

definition ConnectionQueue_Push :: "AcceptedConnection \<Rightarrow> service \<Rightarrow> service" where
  "ConnectionQueue_Push connection s =
     s\<lparr>sv_queue := sv_queue s @ [connection], seen_pushed := seen_pushed s @ [connection]\<rparr>"

definition ConnectionQueue_Stop :: "service \<Rightarrow> service" where
  "ConnectionQueue_Stop s = s\<lparr>sv_stopped := True\<rparr>"

datatype pop_result = PopWaits | PopFalse | PopTrue AcceptedConnection

text \<open>The predicate of the wait, then the two returns of \<open>Pop\<close>, under the mutex.\<close>

definition ConnectionQueue_Pop :: "service \<Rightarrow> pop_result \<times> service" where
  "ConnectionQueue_Pop s =
     (if \<not> (sv_stopped s \<or> sv_queue s \<noteq> []) then (PopWaits, s)
      else (case sv_queue s of
          [] \<Rightarrow> (PopFalse, s)
        | connection # rest \<Rightarrow>
            (PopTrue connection, s\<lparr>sv_queue := rest, seen_popped := seen_popped s @ [connection]\<rparr>)))"

section \<open>A worker\<close>

datatype handler_pc =
    PopCheck
  | PopBlocked
  | Receive AcceptedConnection
  | WarnReceive AcceptedConnection string
  | CountRequest AcceptedConnection string string
  | ChooseReply AcceptedConnection string string
  | SendReply AcceptedConnection string string Reply
  | LogRequest AcceptedConnection string string Reply
  | CloseClient AcceptedConnection
  | LogStopped
  | HandlerDone
  | HandlerUndefined

text \<open>\<open>recv\<close> is \<open>Inl\<close> the text of the error, or \<open>Inr\<close> what was received, at most the 4096 bytes of the buffer.\<close>

definition recv_ok :: "string + string \<Rightarrow> bool" where
  "recv_ok r = (case r of Inl error_text \<Rightarrow> NUL \<notin> set error_text | Inr received \<Rightarrow> received \<noteq> [] \<and> length received \<le> 4096)"

fun handler_step :: "int \<Rightarrow> string + string \<Rightarrow> (nat \<Rightarrow> string \<Rightarrow> int) \<Rightarrow> handler_pc \<Rightarrow> service \<Rightarrow> handler_pc \<times> service" where
  "handler_step worker recv send PopCheck s =
     (case ConnectionQueue_Pop s of
        (PopWaits, s') \<Rightarrow> (PopBlocked, s')
      | (PopFalse, s') \<Rightarrow> (LogStopped, s')
      | (PopTrue connection, s') \<Rightarrow> (Receive connection, s'))"
| "handler_step worker recv send (Receive connection) s =
     (case recv of
        Inl error_text \<Rightarrow> (WarnReceive connection error_text, s)
      | Inr received \<Rightarrow> (case ParseRequest received of (method, path) \<Rightarrow> (CountRequest connection method path, s)))"
| "handler_step worker recv send (WarnReceive connection error_text) s =
     (CloseClient connection, log_line Warn (recv_error_line (conn_remote connection) error_text) s)"
| "handler_step worker recv send (CountRequest connection method path) s =
     (ChooseReply connection method path, s\<lparr>sv_total := sv_total s + 1, seen_requests := seen_requests s + 1\<rparr>)"
| "handler_step worker recv send (ChooseReply connection method path) s =
     (SendReply connection method path (choose_reply method path (sv_total s)), s)"
| "handler_step worker recv send (SendReply connection method path r) s =
     (case SendAll send 0 [] (reply_response r) of
        None \<Rightarrow> (HandlerUndefined, s)
      | Some (sent, _) \<Rightarrow> (LogRequest connection method path r, s\<lparr>seen_replies := seen_replies s @ [(r, sent)]\<rparr>))"
| "handler_step worker recv send (LogRequest connection method path r) s =
     (CloseClient connection, log_line Info (request_line (conn_remote connection) method path r) s)"
| "handler_step worker recv send (CloseClient connection) s =
     (PopCheck, s\<lparr>sv_closed := fd_destroy (FileDescriptor_new (conn_fd connection)) (sv_closed s)\<rparr>)"
| "handler_step worker recv send LogStopped s =
     (HandlerDone, log_line Info [literal_arg ''worker_stopped worker='', ArgInt I32 worker] s)"
| "handler_step worker recv send pc s = (pc, s)"

section \<open>The main thread\<close>

text \<open>The first line the service logs once it serves.\<close>

definition started_line :: "ServiceConfig \<Rightarrow> LogArg list" where
  "started_line config =
     [literal_arg ''service_started port='', ArgInt U16 (svc_port config), literal_arg '' workers='', ArgInt I32 (svc_worker_count config),
      literal_arg '' max_requests='', ArgInt I32 (svc_max_requests config)]"

datatype main_pc =
    MainLogStarted
  | MainSpawn
  | MainCheck
  | MainAccept
  | MainPush AcceptedConnection
  | MainNotify
  | MainCount
  | MainUndefined
  | MainStop
  | MainNotifyAll
  | MainJoin nat
  | MainLogStopped
  | MainFlush
  | MainStopLogger
  | MainReturned

text \<open>The text of the peer's address; \<open>inet_ntop\<close> may fail.\<close>

definition PeerAddress :: "string option \<Rightarrow> string" where
  "PeerAddress ntop = (case ntop of None \<Rightarrow> ''unknown'' | Some buffer \<Rightarrow> buffer)"

datatype accept_result = Accepted int "string option" | AcceptInterrupted | AcceptFailed int string

record service_sys =
  sys_service :: service
  sys_main :: main_pc
  sys_handlers :: "handler_pc list"

definition main_to :: "main_pc \<Rightarrow> service \<Rightarrow> service_sys \<Rightarrow> service_sys" where
  "main_to pc s st = st\<lparr>sys_service := s, sys_main := pc\<rparr>"

fun main_step :: "ServiceConfig \<Rightarrow> accept_result \<Rightarrow> nat \<Rightarrow> service_sys \<Rightarrow> main_pc \<Rightarrow> service \<Rightarrow> service_sys" where
  "main_step config accept chosen st MainLogStarted s = main_to MainSpawn (log_line Info (started_line config) s) st"
| "main_step config accept chosen st MainSpawn s =
     (if int (length (sys_handlers st)) < svc_worker_count config
      then st\<lparr>sys_handlers := sys_handlers st @ [PopCheck]\<rparr> else main_to MainCheck s st)"
| "main_step config accept chosen st MainCheck s =
     (if sv_running s \<and> (svc_max_requests config = 0 \<or> sv_accepted s < svc_max_requests config)
      then main_to MainAccept s st else main_to MainStop s st)"
| "main_step config accept chosen st MainAccept s =
     (case accept of
        Accepted client_fd ntop \<Rightarrow>
          (let connection = \<lparr>conn_fd = client_fd, conn_remote = PeerAddress ntop\<rparr> in
           main_to (MainPush connection) (s\<lparr>seen_accepted := seen_accepted s @ [connection]\<rparr>) st)
      | AcceptInterrupted \<Rightarrow> main_to MainCheck s st
      | AcceptFailed errno detail \<Rightarrow> main_to MainCheck
          (log_line Warn [literal_arg ''accept_failed errno='', ArgInt I32 errno, literal_arg '' detail='', ArgCString (Some (detail @ [NUL]))] s) st)"
| "main_step config accept chosen st (MainPush connection) s = main_to MainNotify (ConnectionQueue_Push connection s) st"
| "main_step config accept chosen st MainNotify s =
     main_to MainCount s (if chosen < length (sys_handlers st) \<and> sys_handlers st ! chosen = PopBlocked
       then st\<lparr>sys_handlers := (sys_handlers st)[chosen := PopCheck]\<rparr> else st)"
| "main_step config accept chosen st MainCount s =
     (if sv_accepted s = 2 ^ 31 - 1 then main_to MainUndefined s st
      else main_to MainCheck (s\<lparr>sv_accepted := sv_accepted s + 1\<rparr>) st)"
| "main_step config accept chosen st MainStop s = main_to MainNotifyAll (ConnectionQueue_Stop s) st"
| "main_step config accept chosen st MainNotifyAll s =
     main_to (MainJoin 0) s (st\<lparr>sys_handlers := map (\<lambda>pc. if pc = PopBlocked then PopCheck else pc) (sys_handlers st)\<rparr>)"
| "main_step config accept chosen st (MainJoin k) s =
     (if k < length (sys_handlers st)
      then (if sys_handlers st ! k = HandlerDone then main_to (MainJoin (Suc k)) s st else st)
      else main_to MainLogStopped s st)"
| "main_step config accept chosen st MainLogStopped s =
     main_to MainFlush (log_line Info [literal_arg ''service_stopped accepted_requests='', ArgInt I32 (sv_accepted s),
       literal_arg '' processed_requests='', ArgInt U64 (uint (sv_total s))] s) st"
| "main_step config accept chosen st MainFlush s = main_to MainStopLogger (s\<lparr>sv_log := sv_log s @ [LogFlush]\<rparr>) st"
| "main_step config accept chosen st MainStopLogger s = main_to MainReturned (s\<lparr>sv_log := sv_log s @ [LogStop]\<rparr>) st"
| "main_step config accept chosen st pc s = st"

section \<open>The system\<close>

fun handler_conn :: "handler_pc \<Rightarrow> AcceptedConnection list" where
  "handler_conn (Receive c) = [c]"
| "handler_conn (WarnReceive c e) = [c]"
| "handler_conn (CountRequest c m p) = [c]"
| "handler_conn (ChooseReply c m p) = [c]"
| "handler_conn (SendReply c m p r) = [c]"
| "handler_conn (LogRequest c m p r) = [c]"
| "handler_conn (CloseClient c) = [c]"
| "handler_conn _ = []"

fun main_conn :: "main_pc \<Rightarrow> AcceptedConnection list" where
  "main_conn (MainPush c) = [c]"
| "main_conn _ = []"

text \<open>The descriptors of the connections that are open: in the hand of \<open>main\<close>, in the queue, with a worker.\<close>

definition open_fds :: "service_sys \<Rightarrow> int list" where
  "open_fds st = map conn_fd (main_conn (sys_main st) @ sv_queue (sys_service st) @ concat (map handler_conn (sys_handlers st)))"

text \<open>\<open>::accept\<close> returns a descriptor that is not open; \<open>notify_one\<close> wakes a waiting thread if there is one.\<close>

definition accept_ok :: "accept_result \<Rightarrow> service_sys \<Rightarrow> bool" where
  "accept_ok a st = (case a of Accepted fd ntop \<Rightarrow> 0 \<le> fd \<and> fd \<notin> set (open_fds st) | _ \<Rightarrow> True)"

definition notify_ok :: "nat \<Rightarrow> service_sys \<Rightarrow> bool" where
  "notify_ok chosen st \<longleftrightarrow> (sys_main st = MainNotify \<and> PopBlocked \<in> set (sys_handlers st) \<longrightarrow>
     chosen < length (sys_handlers st) \<and> sys_handlers st ! chosen = PopBlocked)"

definition HandleSignal :: "service \<Rightarrow> service" where
  "HandleSignal s = s\<lparr>sv_running := False\<rparr>"

inductive service_step :: "ServiceConfig \<Rightarrow> service_sys \<Rightarrow> service_sys \<Rightarrow> bool" for config where
  handler_moves: "i < length (sys_handlers st) \<Longrightarrow> recv_ok recv \<Longrightarrow> send_takes_given send \<Longrightarrow>
    handler_step (int i) recv send (sys_handlers st ! i) (sys_service st) = (pc', s') \<Longrightarrow>
    service_step config st (st\<lparr>sys_service := s', sys_handlers := (sys_handlers st)[i := pc']\<rparr>)"
| handler_wakes: "i < length (sys_handlers st) \<Longrightarrow> sys_handlers st ! i = PopBlocked \<Longrightarrow>
    service_step config st (st\<lparr>sys_handlers := (sys_handlers st)[i := PopCheck]\<rparr>)"
| main_moves: "accept_ok accept st \<Longrightarrow> notify_ok chosen st \<Longrightarrow>
    service_step config st (main_step config accept chosen st (sys_main st) (sys_service st))"
| signalled: "service_step config st (st\<lparr>sys_service := HandleSignal (sys_service st)\<rparr>)"

definition service_start :: service_sys where
  "service_start = \<lparr>sys_service = \<lparr>sv_queue = [], sv_stopped = False, sv_running = True, sv_total = 0, sv_accepted = 0,
       sv_closed = [], sv_log = [], seen_accepted = [], seen_pushed = [], seen_popped = [], seen_requests = 0, seen_replies = []\<rparr>,
     sys_main = MainLogStarted, sys_handlers = []\<rparr>"

definition service_reach :: "ServiceConfig \<Rightarrow> service_sys \<Rightarrow> bool" where
  "service_reach config st \<longleftrightarrow> rtranclp (service_step config) service_start st"

lemma service_induct [consumes 1, case_names start step]:
  assumes "service_reach config st" and "P service_start"
    and "\<And>st st'. service_reach config st \<Longrightarrow> P st \<Longrightarrow> service_step config st st' \<Longrightarrow> P st'"
  shows "P st"
  using assms(1) unfolding service_reach_def
proof (induction rule: rtranclp_induct)
  case base
  show ?case using assms(2) .
next
  case (step st st')
  then show ?case using assms(3) by (simp add: service_reach_def)
qed

lemmas service_defs = ConnectionQueue_Push_def ConnectionQueue_Stop_def log_line_def main_to_def HandleSignal_def

lemma handler_step_Pop:
  "handler_step worker recv send PopCheck s =
     (case sv_queue s of
        [] \<Rightarrow> (if sv_stopped s then LogStopped else PopBlocked, s)
      | c # rest \<Rightarrow> (Receive c, s\<lparr>sv_queue := rest, seen_popped := seen_popped s @ [c]\<rparr>))"
  by (auto simp: ConnectionQueue_Pop_def split: list.splits)

declare handler_step.simps(1) [simp del]
declare handler_step_Pop [simp]

lemma send_defined:
  assumes "send_takes_given send"
  obtains sent n where "SendAll send 0 [] data = Some (sent, n)" "prefix sent data"
proof -
  obtain sent rest k' where "SendAll send 0 [] data = Some (sent, k')" "data = sent @ rest"
    using SendAll_run [OF assms, of 0 "[]" data] unfolding append_Nil by blast
  then show thesis using that by simp
qed

section \<open>Connections\<close>

definition conns_inv :: "service_sys \<Rightarrow> bool" where
  "conns_inv st \<longleftrightarrow>
     mset (map conn_fd (seen_accepted (sys_service st))) = mset (open_fds st) + mset (sv_closed (sys_service st)) \<and>
     distinct (open_fds st) \<and> (\<forall>fd \<in> set (open_fds st). 0 \<le> fd) \<and>
     seen_popped (sys_service st) @ sv_queue (sys_service st) = seen_pushed (sys_service st) \<and>
     seen_accepted (sys_service st) = seen_pushed (sys_service st) @ main_conn (sys_main st) \<and>
     HandlerUndefined \<notin> set (sys_handlers st)"

lemma mset_concat_update:
  "i < length hs \<Longrightarrow> mset (concat (map f (hs[i := h]))) + mset (f (hs ! i)) = mset (concat (map f hs)) + mset (f h)"
  by (induction hs arbitrary: i) (auto simp: nth_Cons' add_ac split: nat.splits)

lemma distinct_sub: "mset xs \<subseteq># mset ys \<Longrightarrow> distinct ys \<Longrightarrow> distinct xs"
proof -
  assume "mset xs \<subseteq># mset ys" "distinct ys"
  then obtain zs where "mset ys = mset (xs @ zs)" by (metis ex_mset mset_append mset_subset_eq_exists_conv)
  then show "distinct xs" using \<open>distinct ys\<close> mset_eq_imp_distinct_iff distinct_append by metis
qed

definition fds :: "AcceptedConnection list \<Rightarrow> int multiset" where
  "fds cs = mset (map conn_fd cs)"

lemma fds_simps [simp]: "fds [] = {#}" "fds (c # cs) = add_mset (conn_fd c) (fds cs)" "fds (cs @ ds) = fds cs + fds ds"
  by (simp_all add: fds_def)

lemma handler_step_conns:
  assumes "handler_step worker recv send pc s = (pc', s')" and "send_takes_given send" and "\<forall>c \<in> set (handler_conn pc). 0 \<le> conn_fd c"
  shows "(fds (sv_queue s') + fds (handler_conn pc')) + mset (sv_closed s') = (fds (sv_queue s) + fds (handler_conn pc)) + mset (sv_closed s)"
    and "fds (sv_queue s') + fds (handler_conn pc') \<subseteq># fds (sv_queue s) + fds (handler_conn pc)"
    and "seen_popped s' @ sv_queue s' = seen_popped s @ sv_queue s" and "seen_accepted s' = seen_accepted s" and "seen_pushed s' = seen_pushed s"
    and "pc \<noteq> HandlerUndefined \<Longrightarrow> pc' \<noteq> HandlerUndefined" and "sv_accepted s' = sv_accepted s" and "sv_stopped s' = sv_stopped s"
proof -
  have "(fds (sv_queue s') + fds (handler_conn pc')) + mset (sv_closed s') = (fds (sv_queue s) + fds (handler_conn pc)) + mset (sv_closed s) \<and>
    fds (sv_queue s') + fds (handler_conn pc') \<subseteq># fds (sv_queue s) + fds (handler_conn pc) \<and>
    seen_popped s' @ sv_queue s' = seen_popped s @ sv_queue s \<and> seen_accepted s' = seen_accepted s \<and> seen_pushed s' = seen_pushed s \<and>
    (pc \<noteq> HandlerUndefined \<longrightarrow> pc' \<noteq> HandlerUndefined) \<and> sv_accepted s' = sv_accepted s \<and> sv_stopped s' = sv_stopped s"
  proof (cases pc)
    case (SendReply c m p r)
    obtain sent n where "SendAll send 0 [] (reply_response r) = Some (sent, n)" using send_defined [OF assms(2)] by blast
    then show ?thesis using assms SendReply by auto
  qed (use assms in \<open>auto simp: service_defs fd_destroy_def fd_Reset_def FileDescriptor_new_def split: sum.splits prod.splits list.splits if_splits\<close>)
  then show "(fds (sv_queue s') + fds (handler_conn pc')) + mset (sv_closed s') = (fds (sv_queue s) + fds (handler_conn pc)) + mset (sv_closed s)"
    "fds (sv_queue s') + fds (handler_conn pc') \<subseteq># fds (sv_queue s) + fds (handler_conn pc)"
    "seen_popped s' @ sv_queue s' = seen_popped s @ sv_queue s" "seen_accepted s' = seen_accepted s" "seen_pushed s' = seen_pushed s"
    "pc \<noteq> HandlerUndefined \<Longrightarrow> pc' \<noteq> HandlerUndefined" "sv_accepted s' = sv_accepted s" "sv_stopped s' = sv_stopped s" by blast+
qed

lemma open_fds_mset: "mset (open_fds st) =
    fds (main_conn (sys_main st)) + fds (sv_queue (sys_service st)) + fds (concat (map handler_conn (sys_handlers st)))"
  by (simp add: open_fds_def fds_def)

lemma fds_update: "i < length hs \<Longrightarrow>
    fds (concat (map handler_conn (hs[i := pc]))) + fds (handler_conn (hs ! i)) = fds (concat (map handler_conn hs)) + fds (handler_conn pc)"
  using mset_concat_update [of i hs "map conn_fd \<circ> handler_conn" pc] by (simp add: fds_def map_concat)

lemma nonneg_sub: "mset xs \<subseteq># mset ys \<Longrightarrow> \<forall>fd \<in> set ys. 0 \<le> fd \<Longrightarrow> \<forall>fd \<in> set xs. 0 \<le> fd"
  by (metis mset_subset_eqD set_mset_mset)

lemma swap_part: "(q' :: int multiset) + c' = q + c \<Longrightarrow> m + q' + r + c' = m + q + r + c"
proof -
  assume eq: "q' + c' = q + c"
  have "m + q' + r + c' = (m + r) + (q' + c')" by (simp only: ac_simps)
  also have "\<dots> = m + q + r + c" unfolding eq by (simp only: ac_simps)
  finally show ?thesis .
qed

lemma conns_handler:
  assumes inv: "conns_inv st" and i: "i < length (sys_handlers st)" and send: "send_takes_given send"
    and step: "handler_step (int i) recv send (sys_handlers st ! i) (sys_service st) = (pc', s')"
  shows "conns_inv (st\<lparr>sys_service := s', sys_handlers := (sys_handlers st)[i := pc']\<rparr>)"
proof -
  let ?s = "sys_service st" and ?pc = "sys_handlers st ! i" and ?st = "st\<lparr>sys_service := s', sys_handlers := (sys_handlers st)[i := pc']\<rparr>"
  have "\<forall>c \<in> set (handler_conn ?pc). conn_fd c \<in> set (open_fds st)" using nth_mem [OF i] by (force simp: open_fds_def)
  then have "\<forall>c \<in> set (handler_conn ?pc). 0 \<le> conn_fd c" using inv unfolding conns_inv_def by blast
  note H = handler_step_conns [OF step send this]
  note U = fds_update [OF i, of pc']
  let ?R = "fds (concat (map handler_conn (sys_handlers st))) - fds (handler_conn ?pc)"
  have sub: "fds (handler_conn ?pc) \<subseteq># fds (concat (map handler_conn (sys_handlers st)))"
    using fds_update [OF i, of PopCheck] by (metis add_0_right fds_simps(1) handler_conn.simps(8) mset_subset_eq_add_right)
  have old: "mset (open_fds st) = fds (main_conn (sys_main st)) + (fds (sv_queue ?s) + fds (handler_conn ?pc)) + ?R"
    using sub by (simp add: open_fds_mset subset_mset.add_diff_inverse add_ac)
  have "fds (concat (map handler_conn ((sys_handlers st)[i := pc']))) = fds (handler_conn pc') + ?R"
    using U sub by (metis add.commute add_implies_diff subset_mset.diff_add_assoc)
  then have new: "mset (open_fds ?st) = fds (main_conn (sys_main st)) + (fds (sv_queue s') + fds (handler_conn pc')) + ?R"
    by (simp add: open_fds_mset add_ac)
  have less: "mset (open_fds ?st) \<subseteq># mset (open_fds st)" unfolding old new using H(2) by (simp add: subset_mset.add_mono)
  have bal: "mset (open_fds ?st) + mset (sv_closed s') = mset (open_fds st) + mset (sv_closed ?s)"
    unfolding old new by (rule swap_part [OF H(1)])
  have "distinct (open_fds ?st)" "\<forall>fd \<in> set (open_fds ?st). 0 \<le> fd"
    using distinct_sub [OF less] nonneg_sub [OF less] inv by (simp_all add: conns_inv_def)
  moreover have "HandlerUndefined \<notin> set ((sys_handlers st)[i := pc'])"
    using inv H(6) nth_mem [OF i] set_update_subset_insert [of "sys_handlers st" i pc'] unfolding conns_inv_def by (metis insertE subsetD)
  ultimately show ?thesis using inv H(3-5) bal unfolding conns_inv_def by auto
qed

lemma conns_same:
  assumes "conns_inv st" and "main_conn (sys_main st') = main_conn (sys_main st)"
    and "concat (map handler_conn (sys_handlers st')) = concat (map handler_conn (sys_handlers st))"
    and "HandlerUndefined \<in> set (sys_handlers st') \<Longrightarrow> HandlerUndefined \<in> set (sys_handlers st)"
    and "sv_queue (sys_service st') = sv_queue (sys_service st)" and "sv_closed (sys_service st') = sv_closed (sys_service st)"
    and "seen_accepted (sys_service st') = seen_accepted (sys_service st)" and "seen_pushed (sys_service st') = seen_pushed (sys_service st)"
    and "seen_popped (sys_service st') = seen_popped (sys_service st)"
  shows "conns_inv st'"
  using assms unfolding conns_inv_def open_fds_def by metis

lemma woken_conns:
  "i < length hs \<Longrightarrow> hs ! i = PopBlocked \<Longrightarrow> concat (map handler_conn (hs[i := PopCheck])) = concat (map handler_conn hs)"
  by (metis (no_types, lifting) handler_conn.simps(8,9) list_update_id map_update)

lemma woken_undefined: "HandlerUndefined \<in> set (hs[i := PopCheck]) \<Longrightarrow> HandlerUndefined \<in> set hs"
  using set_update_subset_insert [of hs i PopCheck] by auto

lemma conns_accept:
  assumes "conns_inv st" and "sys_main st = MainAccept" and "0 \<le> conn_fd c" and "conn_fd c \<notin> set (open_fds st)"
  shows "conns_inv (main_to (MainPush c) ((sys_service st)\<lparr>seen_accepted := seen_accepted (sys_service st) @ [c]\<rparr>) st)"
proof -
  have "open_fds (main_to (MainPush c) ((sys_service st)\<lparr>seen_accepted := seen_accepted (sys_service st) @ [c]\<rparr>) st) =
      conn_fd c # open_fds st" using assms(2) by (simp add: open_fds_def main_to_def)
  then show ?thesis using assms by (auto simp: conns_inv_def main_to_def)
qed

lemma conns_push:
  assumes "conns_inv st" and "sys_main st = MainPush c"
  shows "conns_inv (main_to MainNotify (ConnectionQueue_Push c (sys_service st)) st)"
proof -
  have "mset (open_fds (main_to MainNotify (ConnectionQueue_Push c (sys_service st)) st)) = mset (open_fds st)"
    using assms(2) by (simp add: open_fds_def service_defs)
  then have "distinct (open_fds (main_to MainNotify (ConnectionQueue_Push c (sys_service st)) st)) = distinct (open_fds st)"
    "set (open_fds (main_to MainNotify (ConnectionQueue_Push c (sys_service st)) st)) = set (open_fds st)"
    "mset (open_fds (main_to MainNotify (ConnectionQueue_Push c (sys_service st)) st)) = mset (open_fds st)"
    using mset_eq_imp_distinct_iff mset_eq_setD by blast+
  then show ?thesis using assms unfolding conns_inv_def by (auto simp: service_defs)
qed

lemma conns_main:
  assumes inv: "conns_inv st" and ok: "accept_ok accept st"
  shows "conns_inv (main_step config accept chosen st (sys_main st) (sys_service st))"
proof (cases "sys_main st")
  case MainAccept
  then show ?thesis using conns_accept [OF inv MainAccept] ok
    by (cases accept) (auto simp: accept_ok_def Let_def service_defs intro: conns_same [OF inv])
next
  case (MainPush c)
  then show ?thesis using conns_push [OF inv MainPush] by simp
next
  case MainNotify
  then show ?thesis using woken_conns woken_undefined by (auto simp: service_defs intro!: conns_same [OF inv])
next
  case MainNotifyAll
  have "handler_conn \<circ> (\<lambda>pc. if pc = PopBlocked then PopCheck else pc) = handler_conn" by (auto simp: fun_eq_iff)
  then show ?thesis using MainNotifyAll by (auto simp: service_defs intro!: conns_same [OF inv])
qed (auto simp: service_defs intro: conns_same [OF inv])

lemma conns_reach: "service_reach config st \<Longrightarrow> conns_inv st"
proof (induction rule: service_induct)
  case start
  show ?case by (simp add: conns_inv_def service_start_def open_fds_def)
next
  case (step st st')
  from step(2) show ?case
  proof cases
    case (handler_moves i recv send pc' s')
    then show ?thesis using conns_handler [OF step(3)] by simp
  next
    case (handler_wakes i)
    then show ?thesis using woken_conns woken_undefined by (auto intro!: conns_same [OF step(3)])
  next
    case (main_moves accept chosen)
    then show ?thesis using conns_main [OF step(3)] by simp
  next
    case signalled
    then show ?thesis by (auto simp: HandleSignal_def intro: conns_same [OF step(3)])
  qed
qed

text \<open>
  C24. Connections.  In every reachable state every connection \<open>::accept\<close> has returned is in the hand of
  \<open>main\<close>, in the queue, with one worker or closed, and counted once: no two threads have the same
  descriptor, none is closed twice and none is lost.  The workers take the connections in the order in
  which they were accepted, and no thread has left the bounds of its buffer.
\<close>

theorem service_keeps_connections:
  assumes "service_reach config st"
  shows "mset (map conn_fd (seen_accepted (sys_service st))) = mset (open_fds st) + mset (sv_closed (sys_service st)) \<and>
    distinct (open_fds st) \<and> HandlerUndefined \<notin> set (sys_handlers st) \<and>
    seen_accepted (sys_service st) =
      seen_popped (sys_service st) @ sv_queue (sys_service st) @ main_conn (sys_main st)"
  using conns_reach [OF assms] unfolding conns_inv_def by (metis append_assoc)

section \<open>Wakeups\<close>

text \<open>
  While a worker sleeps, every connection in the queue has a worker that has been woken for it, or the
  notification is the next step of \<open>main\<close>; and none sleeps once the queue has been stopped and all
  have been notified.
\<close>

definition awake :: "service_sys \<Rightarrow> nat" where
  "awake st = length (filter ((=) PopCheck) (sys_handlers st))"

fun after_stop :: "main_pc \<Rightarrow> bool" where
  "after_stop MainNotifyAll = True"
| "after_stop (MainJoin k) = True"
| "after_stop MainLogStopped = True"
| "after_stop MainFlush = True"
| "after_stop MainStopLogger = True"
| "after_stop MainReturned = True"
| "after_stop _ = False"

definition wake_inv :: "service_sys \<Rightarrow> bool" where
  "wake_inv st \<longleftrightarrow>
     (PopBlocked \<in> set (sys_handlers st) \<longrightarrow>
        length (sv_queue (sys_service st)) \<le> awake st + (if sys_main st = MainNotify then 1 else 0) \<and>
        (after_stop (sys_main st) \<longrightarrow> sys_main st = MainNotifyAll)) \<and>
     sv_stopped (sys_service st) = after_stop (sys_main st) \<and>
     (\<forall>pc \<in> set (sys_handlers st). pc \<in> {LogStopped, HandlerDone} \<longrightarrow> sv_stopped (sys_service st) \<and> sv_queue (sys_service st) = []) \<and>
     (sys_main st \<in> {MainLogStarted, MainSpawn} \<longrightarrow> sv_queue (sys_service st) = [])"

lemma awake_update:
  "i < length (sys_handlers st) \<Longrightarrow>
    length (filter ((=) PopCheck) ((sys_handlers st)[i := pc])) + (if sys_handlers st ! i = PopCheck then 1 else 0) =
    awake st + (if pc = PopCheck then 1 else 0)"
  unfolding awake_def using filter_update_count [of i "sys_handlers st" "(=) PopCheck" pc] by (simp add: eq_commute [of PopCheck])

lemma handler_step_stopped: "handler_step worker recv send pc s = (pc', s') \<Longrightarrow> sv_stopped s' = sv_stopped s"
  by (cases pc) (auto simp: service_defs split: sum.splits prod.splits list.splits if_splits option.splits)

lemma handler_step_queue: "handler_step worker recv send pc s = (pc', s') \<Longrightarrow>
    if pc = PopCheck then (case sv_queue s of [] \<Rightarrow> s' = s \<and> pc' = (if sv_stopped s then LogStopped else PopBlocked)
      | c # rest \<Rightarrow> sv_queue s' = rest \<and> pc' = Receive c)
    else sv_queue s' = sv_queue s \<and> (pc' = PopBlocked \<longrightarrow> pc = PopBlocked) \<and> (pc' \<in> {LogStopped, HandlerDone} \<longrightarrow> pc \<in> {LogStopped, HandlerDone})"
  by (cases pc) (auto simp: service_defs split: sum.splits prod.splits list.splits if_splits option.splits)

lemma wake_keep:
  assumes inv: "wake_inv st" and main: "sys_main st' = sys_main st" and queue: "sv_queue (sys_service st') = sv_queue (sys_service st)"
    and stopped: "sv_stopped (sys_service st') = sv_stopped (sys_service st)" and awake: "awake st \<le> awake st'"
    and blocked: "PopBlocked \<in> set (sys_handlers st') \<Longrightarrow> PopBlocked \<in> set (sys_handlers st)"
    and ended: "\<And>pc. pc \<in> {LogStopped, HandlerDone} \<Longrightarrow> pc \<in> set (sys_handlers st') \<Longrightarrow>
      set (sys_handlers st) \<inter> {LogStopped, HandlerDone} \<noteq> {}"
  shows "wake_inv st'"
proof -
  have "length (sv_queue (sys_service st)) \<le> awake st' + (if sys_main st = MainNotify then 1 else 0) \<and>
      (after_stop (sys_main st) \<longrightarrow> sys_main st = MainNotifyAll)" if "PopBlocked \<in> set (sys_handlers st')"
    using inv blocked [OF that] awake unfolding wake_inv_def by auto
  moreover have "sv_stopped (sys_service st) \<and> sv_queue (sys_service st) = []"
    if "pc \<in> set (sys_handlers st')" "pc \<in> {LogStopped, HandlerDone}" for pc
    using inv ended [OF that(2,1)] unfolding wake_inv_def by blast
  ultimately show ?thesis using inv unfolding wake_inv_def main queue stopped by blast
qed

lemma wake_handler:
  assumes inv: "wake_inv st" and i: "i < length (sys_handlers st)"
    and step: "handler_step (int i) recv send (sys_handlers st ! i) (sys_service st) = (pc', s')"
  shows "wake_inv (st\<lparr>sys_service := s', sys_handlers := (sys_handlers st)[i := pc']\<rparr>)"
proof -
  let ?st = "st\<lparr>sys_service := s', sys_handlers := (sys_handlers st)[i := pc']\<rparr>" and ?pc = "sys_handlers st ! i"
  note Q = handler_step_queue [OF step] and S = handler_step_stopped [OF step]
  have aw: "awake ?st + (if ?pc = PopCheck then 1 else 0) = awake st + (if pc' = PopCheck then 1 else 0)"
    using awake_update [OF i, of pc'] by (simp add: awake_def)
  have mem: "set ((sys_handlers st)[i := pc']) \<subseteq> insert pc' (set (sys_handlers st))" by (rule set_update_subset_insert)
  have PB: "PopBlocked \<in> set ((sys_handlers st)[i := pc']) \<Longrightarrow> pc' \<noteq> PopBlocked \<Longrightarrow> PopBlocked \<in> set (sys_handlers st)"
    using mem by auto
  have pc: "?pc \<in> set (sys_handlers st)" using i by simp
  show ?thesis
  proof (cases "?pc = PopCheck")
    case True
    show ?thesis
    proof (cases "sv_queue (sys_service st)")
      case Nil
      then have new: "s' = sys_service st" "pc' = (if sv_stopped (sys_service st) then LogStopped else PopBlocked)"
        using Q True by auto
      show ?thesis using inv Nil new mem by (auto simp: wake_inv_def split: if_splits)
    next
      case (Cons c rest)
      then have new: "sv_queue s' = rest" "pc' = Receive c" using Q True by auto
      have "Suc (awake ?st) = awake st" using aw True new by simp
      then show ?thesis using inv Cons new S mem PB by (auto simp: wake_inv_def)
    qed
  next
    case False
    then have q: "sv_queue s' = sv_queue (sys_service st)" and blocked: "pc' = PopBlocked \<longrightarrow> ?pc = PopBlocked"
      and ended: "pc' \<in> {LogStopped, HandlerDone} \<longrightarrow> ?pc \<in> {LogStopped, HandlerDone}" using Q by auto
    have "awake st \<le> awake ?st" using aw False by simp
    moreover have "PopBlocked \<in> set ((sys_handlers st)[i := pc']) \<Longrightarrow> PopBlocked \<in> set (sys_handlers st)" using PB blocked pc by metis
    moreover have "x \<in> {LogStopped, HandlerDone} \<Longrightarrow> x \<in> set ((sys_handlers st)[i := pc']) \<Longrightarrow>
        set (sys_handlers st) \<inter> {LogStopped, HandlerDone} \<noteq> {}" for x using mem pc ended by blast
    ultimately show ?thesis using q S by (intro wake_keep [OF inv]) auto
  qed
qed

lemma wake_main:
  assumes inv: "wake_inv st" and ok: "notify_ok chosen st"
  shows "wake_inv (main_step config accept chosen st (sys_main st) (sys_service st))"
proof (cases "sys_main st")
  case MainNotify
  show ?thesis
  proof (cases "PopBlocked \<in> set (sys_handlers st)")
    case True
    then have c: "chosen < length (sys_handlers st)" "sys_handlers st ! chosen = PopBlocked" using ok MainNotify by (auto simp: notify_ok_def)
    have "length (filter ((=) PopCheck) ((sys_handlers st)[chosen := PopCheck])) = Suc (awake st)"
      using awake_update [OF c(1), of PopCheck] c(2) by simp
    then show ?thesis using inv True MainNotify c set_update_subset_insert [of "sys_handlers st" chosen PopCheck]
      by (auto simp: wake_inv_def service_defs awake_def)
  next
    case False
    then have "\<not> (chosen < length (sys_handlers st) \<and> sys_handlers st ! chosen = PopBlocked)" using nth_mem by metis
    then have "main_step config accept chosen st (sys_main st) (sys_service st) = main_to MainCount (sys_service st) st"
      using MainNotify by (simp only: main_step.simps if_False)
    then show ?thesis using inv False MainNotify by (auto simp: wake_inv_def service_defs)
  qed
next
  case MainNotifyAll
  then show ?thesis using inv by (auto simp: wake_inv_def service_defs)
qed (use inv in \<open>auto simp: wake_inv_def service_defs awake_def Let_def split: accept_result.splits\<close>)

lemma wake_reach: "service_reach config st \<Longrightarrow> wake_inv st"
proof (induction rule: service_induct)
  case start
  show ?case by (simp add: wake_inv_def service_start_def)
next
  case (step st st')
  from step(2) show ?case
  proof cases
    case (handler_moves i recv send pc' s')
    then show ?thesis using wake_handler [OF step(3)] by simp
  next
    case (handler_wakes i)
    have "awake st \<le> awake (st\<lparr>sys_handlers := (sys_handlers st)[i := PopCheck]\<rparr>)"
      using awake_update [OF handler_wakes(2), of PopCheck] handler_wakes(3) by (simp add: awake_def)
    then show ?thesis unfolding handler_wakes(1) using set_update_subset_insert [of "sys_handlers st" i PopCheck]
      by (intro wake_keep [OF step(3)]) auto
  next
    case (main_moves accept chosen)
    then show ?thesis using wake_main [OF step(3)] by simp
  next
    case signalled
    then show ?thesis using step(3) by (auto simp: HandleSignal_def wake_inv_def awake_def)
  qed
qed

section \<open>Counting and ending\<close>

definition has_pushed :: "main_pc \<Rightarrow> bool" where
  "has_pushed pc \<longleftrightarrow> pc \<in> {MainNotify, MainCount, MainUndefined}"

fun accepting :: "main_pc \<Rightarrow> bool" where
  "accepting MainAccept = True"
| "accepting (MainPush c) = True"
| "accepting MainNotify = True"
| "accepting MainCount = True"
| "accepting MainUndefined = True"
| "accepting _ = False"

definition limit_inv :: "ServiceConfig \<Rightarrow> service_sys \<Rightarrow> bool" where
  "limit_inv config st \<longleftrightarrow>
     int (length (seen_pushed (sys_service st))) = sv_accepted (sys_service st) + (if has_pushed (sys_main st) then 1 else 0) \<and>
     sv_accepted (sys_service st) < 2 ^ 31 \<and>
     (0 < svc_max_requests config \<longrightarrow> sv_accepted (sys_service st) \<le> svc_max_requests config \<and>
        (accepting (sys_main st) \<longrightarrow> sv_accepted (sys_service st) < svc_max_requests config)) \<and>
     (sys_main st = MainUndefined \<longrightarrow> sv_accepted (sys_service st) = 2 ^ 31 - 1) \<and>
     (sys_main st \<notin> {MainLogStarted, MainSpawn} \<longrightarrow> svc_worker_count config \<le> int (length (sys_handlers st)))"

lemma handler_step_pushed: "handler_step worker recv send pc s = (pc', s') \<Longrightarrow> seen_pushed s' = seen_pushed s \<and> sv_accepted s' = sv_accepted s"
  by (cases pc) (auto simp: service_defs split: sum.splits prod.splits list.splits if_splits option.splits)

lemma limit_main: "limit_inv config st \<Longrightarrow> limit_inv config (main_step config accept chosen st (sys_main st) (sys_service st))"
  by (cases "sys_main st") (auto simp: limit_inv_def service_defs has_pushed_def Let_def split: accept_result.splits)

lemma limit_reach: "service_reach config st \<Longrightarrow> limit_inv config st"
proof (induction rule: service_induct)
  case start
  show ?case by (simp add: limit_inv_def service_start_def has_pushed_def)
next
  case (step st st')
  from step(2) show ?case
  proof cases
    case (handler_moves i recv send pc' s')
    then show ?thesis using step(3) handler_step_pushed [OF handler_moves(5)] by (simp add: limit_inv_def)
  next
    case (main_moves accept chosen)
    then show ?thesis using limit_main [OF step(3)] by simp
  qed (use step(3) in \<open>simp_all add: limit_inv_def HandleSignal_def\<close>)
qed

fun uncounted_conn :: "handler_pc \<Rightarrow> bool" where
  "uncounted_conn (Receive c) = True"
| "uncounted_conn (WarnReceive c e) = True"
| "uncounted_conn (CountRequest c m p) = True"
| "uncounted_conn _ = False"

fun finished :: "main_pc \<Rightarrow> bool" where
  "finished MainLogStopped = True"
| "finished MainFlush = True"
| "finished MainStopLogger = True"
| "finished MainReturned = True"
| "finished _ = False"

definition stopped_line :: "service \<Rightarrow> log_use" where
  "stopped_line s = LogLine Info [literal_arg ''service_stopped accepted_requests='', ArgInt I32 (sv_accepted s),
     literal_arg '' processed_requests='', ArgInt U64 (uint (sv_total s))]"

definition last_uses :: "main_pc \<Rightarrow> service \<Rightarrow> log_use list" where
  "last_uses pc s =
     (if pc = MainFlush then [stopped_line s]
      else if pc = MainStopLogger then [stopped_line s, LogFlush]
      else if pc = MainReturned then [stopped_line s, LogFlush, LogStop] else [])"

definition end_inv :: "service_sys \<Rightarrow> bool" where
  "end_inv st \<longleftrightarrow>
     sv_total (sys_service st) = of_nat (seen_requests (sys_service st)) \<and>
     seen_requests (sys_service st) + length (filter uncounted_conn (sys_handlers st)) \<le> length (seen_popped (sys_service st)) \<and>
     (\<forall>k. sys_main st = MainJoin k \<longrightarrow> (\<forall>i < k. i < length (sys_handlers st) \<longrightarrow> sys_handlers st ! i = HandlerDone)) \<and>
     (finished (sys_main st) \<longrightarrow> (\<forall>i < length (sys_handlers st). sys_handlers st ! i = HandlerDone)) \<and>
     (\<exists>earlier. sv_log (sys_service st) = earlier @ last_uses (sys_main st) (sys_service st))"

lemma handler_step_counts:
  assumes "handler_step worker recv send pc s = (pc', s')"
  shows "sv_total s = of_nat (seen_requests s) \<Longrightarrow> sv_total s' = of_nat (seen_requests s')"
    and "seen_requests s' + (if uncounted_conn pc' then 1 else 0) + length (seen_popped s) \<le>
      seen_requests s + (if uncounted_conn pc then 1 else 0) + length (seen_popped s')"
    and "pc = HandlerDone \<Longrightarrow> pc' = HandlerDone \<and> s' = s"
  using assms by (cases pc; auto simp: service_defs split: sum.splits prod.splits list.splits if_splits option.splits)+

lemma end_handler:
  assumes inv: "end_inv st" and i: "i < length (sys_handlers st)"
    and step: "handler_step (int i) recv send (sys_handlers st ! i) (sys_service st) = (pc', s')"
  shows "end_inv (st\<lparr>sys_service := s', sys_handlers := (sys_handlers st)[i := pc']\<rparr>)"
proof (cases "sys_handlers st ! i = HandlerDone")
  case True
  then show ?thesis using inv step handler_step_counts(3) [OF step] list_update_id [of "sys_handlers st" i] by simp
next
  case False
  note C = handler_step_counts [OF step]
  have unfinished: "\<not> finished (sys_main st)" using inv i False by (auto simp: end_inv_def)
  then have "last_uses (sys_main st) s' = []" by (cases "sys_main st") (simp_all add: last_uses_def)
  moreover have "(sys_handlers st)[i := pc'] ! j = HandlerDone" if "sys_main st = MainJoin k" "j < k" "j < length (sys_handlers st)" for j k
  proof -
    have "sys_handlers st ! j = HandlerDone" using inv that by (simp add: end_inv_def)
    then show ?thesis using False by (cases "i = j") simp_all
  qed
  ultimately show ?thesis
    using inv C(1,2) unfinished filter_update_count [OF i, of uncounted_conn pc'] by (auto simp: end_inv_def)
qed

lemma end_main:
  assumes inv: "end_inv st"
  shows "end_inv (main_step config accept chosen st (sys_main st) (sys_service st))"
proof (cases "sys_main st")
  case MainNotify
  have "length (filter uncounted_conn ((sys_handlers st)[chosen := PopCheck])) = length (filter uncounted_conn (sys_handlers st))"
    if "chosen < length (sys_handlers st)" "sys_handlers st ! chosen = PopBlocked"
    using filter_update_count [OF that(1), of uncounted_conn PopCheck] that(2) by simp
  then show ?thesis using inv MainNotify by (auto simp: end_inv_def service_defs last_uses_def)
next
  case MainNotifyAll
  have "filter uncounted_conn (map (\<lambda>pc. if pc = PopBlocked then PopCheck else pc) hs) = filter uncounted_conn hs" for hs
    by (induction hs) auto
  then show ?thesis using inv MainNotifyAll by (auto simp: end_inv_def service_defs last_uses_def)
next
  case (MainJoin k)
  then show ?thesis using inv by (auto simp: end_inv_def service_defs last_uses_def less_Suc_eq)
qed (use inv in \<open>auto simp: end_inv_def service_defs last_uses_def stopped_line_def Let_def split: accept_result.splits\<close>)

lemma end_reach: "service_reach config st \<Longrightarrow> end_inv st"
proof (induction rule: service_induct)
  case start
  show ?case by (simp add: end_inv_def service_start_def last_uses_def)
next
  case (step st st')
  from step(2) show ?case
  proof cases
    case (handler_moves i recv send pc' s')
    then show ?thesis using end_handler [OF step(3)] by simp
  next
    case (handler_wakes i)
    then show ?thesis using step(3) filter_update_count [OF handler_wakes(2), of uncounted_conn PopCheck]
      by (auto simp: end_inv_def nth_list_update)
  next
    case (main_moves accept chosen)
    then show ?thesis using end_main [OF step(3)] by simp
  next
    case signalled
    then show ?thesis using step(3) by (auto simp: end_inv_def HandleSignal_def last_uses_def stopped_line_def)
  qed
qed

section \<open>What the service guarantees\<close>

text \<open>
  C26. No lost wakeup.  When a worker sleeps on the queue and connections are waiting in it, either
  enough workers have been woken to take them all, or \<open>main\<close> is just about to notify one more; and once
  \<open>main\<close> waits for the workers to end, none of them sleeps.
\<close>

theorem queue_wakes_workers:
  assumes "service_reach config st" and "PopBlocked \<in> set (sys_handlers st)"
  shows "length (sv_queue (sys_service st)) \<le>
      length (filter ((=) PopCheck) (sys_handlers st)) + (if sys_main st = MainNotify then 1 else 0) \<and>
    sys_main st \<noteq> MainJoin k"
  using wake_reach [OF assms(1)] assms(2) by (auto simp: wake_inv_def awake_def)

text \<open>
  C31. The limit.  \<open>accepted_requests\<close> counts the connections pushed, and with a positive
  \<open>max_requests\<close> never more than that many are accepted; without a limit the count stays within \<open>int\<close>
  until the one case in which its increment would overflow.
\<close>

theorem service_request_limit:
  assumes "service_reach config st"
  shows "int (length (seen_pushed (sys_service st))) = sv_accepted (sys_service st) + (if has_pushed (sys_main st) then 1 else 0) \<and>
    (0 < svc_max_requests config \<longrightarrow> int (length (seen_accepted (sys_service st))) \<le> svc_max_requests config) \<and>
    (sys_main st = MainUndefined \<longrightarrow> sv_accepted (sys_service st) = 2 ^ 31 - 1)"
proof -
  have "length (seen_accepted (sys_service st)) = length (seen_pushed (sys_service st)) + length (main_conn (sys_main st))"
    using conns_reach [OF assms] by (simp add: conns_inv_def)
  then show ?thesis using limit_reach [OF assms]
    by (cases "sys_main st") (auto simp: limit_inv_def has_pushed_def)
qed

text \<open>
  C25. An orderly end.  When \<open>main\<close> returns, every worker has ended, every connection accepted has been
  taken from the queue and its descriptor closed exactly once, the requests counted are at most the
  connections accepted, and the last three calls of the logger are the line with both counts, a flush
  and a stop.
\<close>

theorem service_orderly_end:
  assumes "service_reach config st" and "sys_main st = MainReturned" and "1 \<le> svc_worker_count config"
  shows "set (sys_handlers st) = {HandlerDone} \<and> sv_queue (sys_service st) = [] \<and>
    mset (sv_closed (sys_service st)) = mset (map conn_fd (seen_accepted (sys_service st))) \<and>
    seen_popped (sys_service st) = seen_accepted (sys_service st) \<and>
    sv_accepted (sys_service st) = int (length (seen_accepted (sys_service st))) \<and>
    (\<exists>processed earlier. processed \<le> length (seen_accepted (sys_service st)) \<and> sv_total (sys_service st) = of_nat processed \<and>
       sv_log (sys_service st) = earlier @ [stopped_line (sys_service st), LogFlush, LogStop])"
proof -
  let ?s = "sys_service st"
  have len: "1 \<le> length (sys_handlers st)" using limit_reach [OF assms(1)] assms(2,3) by (simp add: limit_inv_def)
  have E: "end_inv st" using end_reach [OF assms(1)] .
  then have "\<forall>i < length (sys_handlers st). sys_handlers st ! i = HandlerDone" using assms(2) by (simp add: end_inv_def)
  then have "\<forall>pc \<in> set (sys_handlers st). pc = HandlerDone" by (metis in_set_conv_nth)
  then have all_done: "set (sys_handlers st) = {HandlerDone}" using len by (cases "sys_handlers st") auto
  then have queue: "sv_queue ?s = []" using wake_reach [OF assms(1)] by (simp add: wake_inv_def)
  have "concat (map handler_conn (sys_handlers st)) = []" using all_done by auto
  then have none: "open_fds st = []" using queue assms(2) by (simp add: open_fds_def)
  have C: "conns_inv st" using conns_reach [OF assms(1)] .
  then have popped: "seen_popped ?s = seen_accepted ?s" "seen_pushed ?s = seen_accepted ?s"
    using queue assms(2) by (auto simp: conns_inv_def)
  have "sv_accepted ?s = int (length (seen_accepted ?s))"
    using limit_reach [OF assms(1)] assms(2) popped by (simp add: limit_inv_def has_pushed_def)
  moreover have "seen_requests ?s \<le> length (seen_accepted ?s)" "sv_total ?s = of_nat (seen_requests ?s)"
    "\<exists>earlier. sv_log ?s = earlier @ [stopped_line ?s, LogFlush, LogStop]"
    using E popped assms(2) by (auto simp: end_inv_def last_uses_def)
  ultimately show ?thesis using all_done queue C none popped by (auto simp: conns_inv_def)
qed

section \<open>A run\<close>

datatype service_action = RunHandler nat "string + string" | RunMain accept_result nat | Signal

definition willing_send :: "nat \<Rightarrow> string \<Rightarrow> int" where
  "willing_send k data = int (length data)"

definition run_action :: "ServiceConfig \<Rightarrow> service_action \<Rightarrow> service_sys \<Rightarrow> service_sys" where
  "run_action config a st =
     (case a of
        RunHandler i recv \<Rightarrow>
          if i < length (sys_handlers st) \<and> recv_ok recv
          then (case handler_step (int i) recv willing_send (sys_handlers st ! i) (sys_service st) of
            (pc', s') \<Rightarrow> st\<lparr>sys_service := s', sys_handlers := (sys_handlers st)[i := pc']\<rparr>)
          else st
      | RunMain accept chosen \<Rightarrow>
          if accept_ok accept st \<and> notify_ok chosen st
          then main_step config accept chosen st (sys_main st) (sys_service st) else st
      | Signal \<Rightarrow> st\<lparr>sys_service := HandleSignal (sys_service st)\<rparr>)"

definition service_run :: "ServiceConfig \<Rightarrow> service_action list \<Rightarrow> service_sys" where
  "service_run config as = fold (run_action config) as service_start"

lemma run_action_step: "service_step config st (run_action config a st) \<or> run_action config a st = st"
proof (cases a)
  case (RunHandler i recv)
  have "send_takes_given willing_send" by (simp add: send_takes_given_def willing_send_def)
  then show ?thesis unfolding RunHandler run_action_def
    by (auto intro: service_step.handler_moves split: prod.splits)
next
  case (RunMain accept chosen)
  then show ?thesis unfolding run_action_def by (auto intro: service_step.main_moves)
next
  case Signal
  then show ?thesis unfolding run_action_def by (auto intro: service_step.signalled)
qed

lemma fold_reach: "service_reach config st \<Longrightarrow> service_reach config (fold (run_action config) as st)"
proof (induction as arbitrary: st)
  case (Cons a as)
  have "service_reach config (run_action config a st)"
    using Cons.prems run_action_step [of config st a] unfolding service_reach_def
    by (metis rtranclp.rtrancl_into_rtrancl)
  then show ?case using Cons.IH by simp
qed simp

lemma service_run_reach: "service_reach config (service_run config as)"
  unfolding service_run_def by (rule fold_reach) (simp add: service_reach_def)

definition small_config :: ServiceConfig where
  "small_config = default_ServiceConfig\<lparr>svc_worker_count := 2, svc_max_requests := 1\<rparr>"

definition run_main :: "nat \<Rightarrow> service_action list" where
  "run_main n = replicate n (RunMain AcceptInterrupted 0)"

definition half_schedule :: "service_action list" where
  "half_schedule = run_main 4 @ [RunHandler 0 (Inl []), RunHandler 1 (Inl [])] @ run_main 3 @
     [RunMain (Accepted 5 (Some ''127.0.0.1'')) 0] @ run_main 1"

definition full_schedule :: "service_action list" where
  "full_schedule = half_schedule @ run_main 5 @
     replicate 8 (RunHandler 0 (Inr (''GET / HTTP/1.1'' @ crlf))) @ replicate 2 (RunHandler 0 (Inl [])) @
     replicate 2 (RunHandler 1 (Inl [])) @ run_main 6"

definition half_run :: service_sys where
  "half_run = service_run small_config half_schedule"

definition full_run :: service_sys where
  "full_run = service_run small_config full_schedule"

definition service_view :: "service_sys \<Rightarrow> (main_pc \<times> handler_pc list) \<times> (AcceptedConnection list \<times> AcceptedConnection list \<times> int list) \<times> (int \<times> u64 \<times> nat)" where
  "service_view st = ((sys_main st, sys_handlers st),
     (sv_queue (sys_service st), seen_accepted (sys_service st), sv_closed (sys_service st)),
     (sv_accepted (sys_service st), sv_total (sys_service st), length (sv_log (sys_service st))))"

lemma half_view: "service_view half_run =
    ((MainNotify, [PopBlocked, PopBlocked]),
     ([\<lparr>conn_fd = 5, conn_remote = ''127.0.0.1''\<rparr>], [\<lparr>conn_fd = 5, conn_remote = ''127.0.0.1''\<rparr>], []), (0, 0, 1))"
  by code_simp

lemma full_view: "service_view full_run =
    ((MainReturned, [HandlerDone, HandlerDone]), ([], [\<lparr>conn_fd = 5, conn_remote = ''127.0.0.1''\<rparr>], [5]), (1, 1, 7))"
  by code_simp

lemma half_reach: "service_reach small_config half_run"
  unfolding half_run_def by (rule service_run_reach)

lemma full_reach: "service_reach small_config full_run"
  unfolding full_run_def by (rule service_run_reach)

theorem service_keeps_connections_witness: "mset (open_fds half_run) = {#5#} \<and> seen_popped (sys_service half_run) = []"
  using service_keeps_connections [OF half_reach] half_view by (auto simp: service_view_def)

theorem queue_wakes_workers_witness: "sys_main half_run \<noteq> MainJoin 0 \<and> length (sv_queue (sys_service half_run)) \<le> 1"
  using queue_wakes_workers [OF half_reach, of 0] half_view by (auto simp: service_view_def)

theorem service_request_limit_witness: "length (seen_accepted (sys_service full_run)) \<le> 1 \<and> length (seen_pushed (sys_service full_run)) = 1"
  using service_request_limit [OF full_reach] full_view by (auto simp: service_view_def has_pushed_def small_config_def)

theorem service_orderly_end_witness:
  "sv_closed (sys_service full_run) = [5] \<and> (\<exists>earlier. sv_log (sys_service full_run) = earlier @ [stopped_line (sys_service full_run), LogFlush, LogStop])"
proof -
  have "sys_main full_run = MainReturned" "1 \<le> svc_worker_count small_config" "sv_closed (sys_service full_run) = [5]"
    using full_view by (auto simp: service_view_def small_config_def default_ServiceConfig_def)
  then show ?thesis using service_orderly_end [OF full_reach] by blast
qed

section \<open>Start\<close>

text \<open>
  The beginning of \<open>main\<close>: the configuration, the logger, the server socket.  \<open>socket_fd\<close> is what
  \<open>::socket\<close> returns, \<open>bind_error\<close> and \<open>listen_error\<close> the text of the error when the call fails.  On an
  early return the exit status and the text for the standard error stream are the result.
\<close>

datatype 'l startup = ExitWith int string | Serving ServiceConfig 'l int

definition service_startup ::
  "(string \<Rightarrow> string option) \<Rightarrow> int \<Rightarrow> string option \<Rightarrow> string option \<Rightarrow> (io_world, TopSink AsyncLogger startup) exec" where
  "service_startup env socket_fd bind_error listen_error =
     andthen (LoadConfig env) (\<lambda>config.
     andthen (CreateLogger (svc_logger config)) (\<lambda>logger. ret
       (let server = FileDescriptor_new socket_fd in
        if server < 0 then ExitWith 1 (''failed to create socket'' @ [newline])
        else case bind_error of
          Some detail \<Rightarrow> ExitWith 1 (''failed to bind port '' @ int_text (svc_port config) @ '': '' @ detail @ [newline])
        | None \<Rightarrow> (case listen_error of
            Some detail \<Rightarrow> ExitWith 1 (''failed to listen on port '' @ int_text (svc_port config) @ '': '' @ detail @ [newline])
          | None \<Rightarrow> Serving config logger server))))"

text \<open>
  A service that starts.  When \<open>main\<close> gets past its early returns, the server descriptor is valid
  and the configuration is well formed: there is at least one worker, so every run of the threads that
  ends is an orderly one, and the arguments of the first log line are within their types.
\<close>

theorem service_startup_ok:
  assumes "service_startup env socket_fd bind_error listen_error w = (Inr (Serving config logger server), w')"
  shows "service_config_ok config \<and> 0 \<le> server \<and> bind_error = None \<and> listen_error = None \<and>
    list_all arg_ok (started_line config) \<and> 1 \<le> svc_worker_count config"
proof -
  obtain w1 where load: "LoadConfig env w = (Inr config, w1)"
    using assms by (auto simp: service_startup_def Let_def split: prod.splits sum.splits if_splits option.splits)
  have "service_config_ok config" using load LoadConfig_ok by simp
  then show ?thesis using assms
    by (auto simp: service_startup_def service_config_ok_def started_line_def literal_arg_def FileDescriptor_new_def Let_def
      split: prod.splits sum.splits if_splits option.splits)
qed

definition quiet_env :: "string \<Rightarrow> string option" where
  "quiet_env name = (if name = ''HLOG_LOG_PATH'' then Some [] else if name = ''HLOG_WORKERS'' then Some ''0'' else None)"

theorem service_startup_ok_witness:
  "\<exists>config logger w. service_startup quiet_env 3 None None idle_world = (Inr (Serving config logger 3), w) \<and>
     service_config_ok config \<and> svc_worker_count config = 1"
proof -
  obtain config w where load: "LoadConfig quiet_env idle_world = (Inr config, w)"
    and c: "svc_worker_count config = 1" "lc_sinks (svc_logger config) = [console_config kDefaultLogPattern]"
    by (simp add: LoadConfig_def RuntimeLogPath_def RuntimeDir_def next_outcome_def idle_world_def logger_config_def Let_def
      env_int_def quiet_env_def GetEnvOrDefault_def ParseInteger_def from_chars_def is_digit_def)
  obtain logger where "CreateLogger (svc_logger config) w = (Inr logger, w)"
    using c(2) by (simp add: CreateLogger_def CreateSinks_def CreateSink_def console_config_def AsyncLogger_new_def)
  with load have run: "service_startup quiet_env 3 None None idle_world = (Inr (Serving config logger 3), w)"
    by (simp add: service_startup_def FileDescriptor_new_def)
  from service_startup_ok [OF run] run c(1) show ?thesis by blast
qed

end
