(* ===== verification/Benchmark_Support.thy ===== *)
theory Benchmark_Support
  imports Sink_Interface "HOL-Library.Multiset"
begin

text \<open>
  Helpers of the benchmark programs: the payloads and the sink of \<open>examples/benchmark_support.h\<close>, the
  two ways of logging that \<open>examples/payload_benchmark.cpp\<close> compares, and the order statistics it
  reports (\<open>examples/latency_benchmark.cpp\<close> has the same code).
\<close>

section \<open>The counting sink\<close>

definition CountingSink_ops :: "(u64 \<times> io_world) sink_ops" where
  "CountingSink_ops =
     \<lparr>op_write = (\<lambda>m. updates (\<lambda>(written, w). (written + 1, w))),
      op_flush = ret (), op_next = default_NextAutoFlushTime, op_due = default_FlushIfDue\<rparr>"

fun is_write :: "sink_call \<Rightarrow> bool" where
  "is_write (CallWrite m t) = True"
| "is_write _ = False"

lemma CountingSink_call:
  "\<exists>w'. run_call CountingSink_ops c (n, w) = (Inr (), n + (if is_write c then 1 else 0), w')"
  by (cases c) (auto simp: CountingSink_ops_def set_clock_def default_FlushIfDue_def)

lemma CountingSink_counts:
  "run_calls CountingSink_ops cs (n, w) = (r, n', w') \<Longrightarrow> r = Inr () \<and> n' = n + of_nat (length (filter is_write cs))"
proof (induction cs arbitrary: n w)
  case (Cons c cs)
  obtain w1 where "run_call CountingSink_ops c (n, w) = (Inr (), n + (if is_write c then 1 else 0), w1)"
    using CountingSink_call by blast
  then show ?case using Cons.IH [of "n + (if is_write c then 1 else 0)" w1] Cons.prems by (auto split: if_splits)
qed simp

section \<open>Payloads\<close>

definition MakePayload :: "int \<Rightarrow> int \<Rightarrow> string" where
  "MakePayload thread_id index = ''thread='' @ int_text thread_id @ '' seq='' @ int_text index"

definition LongPayloadBlob :: string where
  "LongPayloadBlob = replicate 512 CHR ''x''"

definition MakeLargePayload :: "int \<Rightarrow> int \<Rightarrow> string" where
  "MakeLargePayload thread_id index = MakePayload thread_id index @ '' payload='' @ LongPayloadBlob"

text \<open>The same through an output stream, which prints integers as \<open>std::to_string\<close> does.\<close>

definition MakeStreamPayload :: "int \<Rightarrow> int \<Rightarrow> string" where
  "MakeStreamPayload thread_id index = concat [''thread='', int_text thread_id, '' seq='', int_text index]"

definition MakeStreamLargePayload :: "int \<Rightarrow> int \<Rightarrow> string" where
  "MakeStreamLargePayload thread_id index =
     concat [''thread='', int_text thread_id, '' seq='', int_text index, '' payload='', LongPayloadBlob]"

text \<open>The arguments of the four kinds of log call that are compared.\<close>

definition prebuilt_short :: "int \<Rightarrow> int \<Rightarrow> LogArg list" where
  "prebuilt_short thread_id index = [ArgString (MakeStreamPayload thread_id index)]"

definition variadic_short :: "int \<Rightarrow> int \<Rightarrow> LogArg list" where
  "variadic_short thread_id index = [literal_arg ''thread='', ArgInt I32 thread_id, literal_arg '' seq='', ArgInt I32 index]"

definition prebuilt_long :: "int \<Rightarrow> int \<Rightarrow> LogArg list" where
  "prebuilt_long thread_id index = [ArgString (MakeStreamLargePayload thread_id index)]"

definition variadic_long :: "int \<Rightarrow> int \<Rightarrow> LogArg list" where
  "variadic_long thread_id index =
     [literal_arg ''thread='', ArgInt I32 thread_id, literal_arg '' seq='', ArgInt I32 index, literal_arg '' payload='', ArgString LongPayloadBlob]"

lemma int_text_I32: "int_in_range I32 i \<Longrightarrow> length (int_text i) \<le> 11"
  using length_int_text [of i 10] by (simp add: abs_less_iff)

text \<open>
  The benchmarks compare like with like.  For every thread and index the payload built from the
  parts has the same text as the one built from a prepared string, and both are stored in the same way:
  the short ones inside the message, the long ones on the heap.  The payloads made with and without a
  stream are the same strings.
\<close>

theorem benchmark_payloads_agree:
  assumes "int_in_range I32 thread_id" and "int_in_range I32 index"
  shows "(\<exists>p q. BuildPayload (prebuilt_short thread_id index) = Some p \<and> BuildPayload (variadic_short thread_id index) = Some q \<and>
      payload_text p = payload_text q \<and> is_inline p \<and> is_inline q) \<and>
    (\<exists>p q. BuildPayload (prebuilt_long thread_id index) = Some p \<and> BuildPayload (variadic_long thread_id index) = Some q \<and>
      payload_text p = payload_text q \<and> \<not> is_inline p \<and> \<not> is_inline q) \<and>
    MakeStreamPayload thread_id index = MakePayload thread_id index \<and>
    MakeStreamLargePayload thread_id index = MakeLargePayload thread_id index"
proof -
  have lits: "arg_text (literal_arg ''thread='') = ''thread=''" "arg_text (literal_arg '' seq='') = '' seq=''"
    "arg_text (literal_arg '' payload='') = '' payload=''" by code_simp+
  have ok: "list_all arg_ok (prebuilt_short thread_id index)" "list_all arg_ok (variadic_short thread_id index)"
    "list_all arg_ok (prebuilt_long thread_id index)" "list_all arg_ok (variadic_long thread_id index)"
    using assms by (simp_all add: prebuilt_short_def variadic_short_def prebuilt_long_def variadic_long_def)
  have short: "concat (map arg_text (prebuilt_short thread_id index)) = MakePayload thread_id index"
    "concat (map arg_text (variadic_short thread_id index)) = MakePayload thread_id index"
    by (simp_all add: prebuilt_short_def variadic_short_def MakeStreamPayload_def MakePayload_def lits)
  have long: "concat (map arg_text (prebuilt_long thread_id index)) = MakeLargePayload thread_id index"
    "concat (map arg_text (variadic_long thread_id index)) = MakeLargePayload thread_id index"
    by (simp_all add: prebuilt_long_def variadic_long_def MakeStreamLargePayload_def MakeLargePayload_def MakePayload_def lits)
  have "length (MakePayload thread_id index) \<le> 256"
    using int_text_I32 [OF assms(1)] int_text_I32 [OF assms(2)] by (simp add: MakePayload_def)
  moreover have "\<not> length (MakeLargePayload thread_id index) \<le> 256"
    by (simp add: MakeLargePayload_def LongPayloadBlob_def)
  ultimately show ?thesis
    using BuildPayload_built [OF ok(1)] BuildPayload_built [OF ok(2)] BuildPayload_built [OF ok(3)] BuildPayload_built [OF ok(4)]
    unfolding short long by (auto simp: MakeStreamPayload_def MakePayload_def MakeStreamLargePayload_def MakeLargePayload_def)
qed

theorem benchmark_payloads_agree_witness:
  "\<exists>p. BuildPayload (variadic_short 3 41) = Some p \<and> payload_text p = payload_text p \<and> is_inline p"
  using benchmark_payloads_agree [of 3 41] by auto

section \<open>Order statistics\<close>

definition Median_u64 :: "u64 list \<Rightarrow> u64" where
  "Median_u64 values = (if values = [] then 0 else sort values ! (length values div 2))"

text \<open>
  The index is computed in \<open>size_t\<close>; a zero denominator or an index past the end is \<open>None\<close>.
\<close>

definition Percentile :: "u64 list \<Rightarrow> u64 \<Rightarrow> u64 \<Rightarrow> u64 option" where
  "Percentile sorted_values numerator denominator =
     (if sorted_values = [] then Some 0
      else if denominator = 0 then None
      else let index = ((of_nat (length sorted_values) - 1) * numerator + denominator - 1) div denominator
        in if unat index < length sorted_values then Some (sorted_values ! unat index) else None)"

record LatencyResult =
  lr_call_count :: u64
  lr_total_ns :: u64
  lr_p50_ns :: u64
  lr_p95_ns :: u64
  lr_p99_ns :: u64
  lr_max_ns :: u64

text \<open>\<open>lr_total_ns\<close> is the local sum; the fields in floating point are quotients of it, of the count and of the elapsed time.\<close>

definition AnalyzeLatencies :: "u64 list \<Rightarrow> LatencyResult option" where
  "AnalyzeLatencies latencies =
     (let latencies_ns = sort latencies; total_ns = foldl (+) 0 latencies_ns in
      case (Percentile latencies_ns 50 100, Percentile latencies_ns 95 100, Percentile latencies_ns 99 100) of
        (Some p50, Some p95, Some p99) \<Rightarrow> Some
          \<lparr>lr_call_count = of_nat (length latencies_ns), lr_total_ns = total_ns, lr_p50_ns = p50, lr_p95_ns = p95,
           lr_p99_ns = p99, lr_max_ns = (if latencies_ns = [] then 0 else last latencies_ns)\<rparr>
      | _ \<Rightarrow> None)"

definition percentile_index :: "nat \<Rightarrow> nat \<Rightarrow> nat \<Rightarrow> nat" where
  "percentile_index n p d = ((n - 1) * p + d - 1) div d"

lemma percentile_index_less: "0 < n \<Longrightarrow> 0 < d \<Longrightarrow> p \<le> d \<Longrightarrow> percentile_index n p d < n"
proof -
  assume "0 < n" "0 < d" "p \<le> d"
  then obtain m where n: "n = Suc m" and "m * p \<le> m * d" by (cases n) auto
  then have "(n - 1) * p + d - 1 < n * d" using \<open>0 < d\<close> unfolding n diff_Suc_1 mult_Suc by linarith
  then show ?thesis using \<open>0 < d\<close> by (simp add: percentile_index_def div_less_iff_less_mult)
qed

lemma Percentile_eq:
  assumes "xs \<noteq> []" and "0 < d" and "p \<le> d" and "length xs * d < 2 ^ 64"
  shows "Percentile xs (of_nat p) (of_nat d) = Some (xs ! percentile_index (length xs) p d)"
proof -
  let ?n = "length xs"
  have n: "0 < ?n" using assms(1) by simp
  have "(?n - 1) * p + d \<le> ?n * d" using n assms(3) by (cases ?n) (simp_all add: mult_le_mono2)
  then have small: "(?n - 1) * p + d - 1 < 2 ^ 64" and d: "d < 2 ^ 64" using assms n by (auto intro: le_less_trans)
  have n1: "(of_nat ?n - 1 :: u64) = of_nat (?n - 1)" using n by (cases xs) simp_all
  have "(of_nat ?n - 1) * of_nat p + of_nat d - 1 = (of_nat ((?n - 1) * p + d - 1) :: u64)"
    using n assms(2) n1 by (simp add: of_nat_diff)
  then have "((of_nat ?n - 1) * of_nat p + of_nat d - 1) div of_nat d = (of_nat (percentile_index ?n p d) :: u64)"
    using small d by (simp add: percentile_index_def word_arith_nat_div unat_of_nat_fits)
  moreover have "percentile_index ?n p d < 2 ^ 64"
    unfolding percentile_index_def using small by (rule le_less_trans [OF div_le_dividend])
  then have "unat (of_nat (percentile_index ?n p d) :: u64) = percentile_index ?n p d" by (simp add: unat_of_nat_fits)
  moreover have "(of_nat d :: u64) \<noteq> 0" 
    using d assms(2) unat_of_nat_fits [of d, where 'w = 64] by auto
  ultimately show ?thesis using assms(1) percentile_index_less [OF n assms(2,3)] by (simp add: Percentile_def Let_def)
qed

lemma sorted_at_most:
  assumes "sorted xs" and "k < length xs"
  shows "Suc k \<le> length (filter (\<lambda>x. x \<le> xs ! k) xs)" and "length (filter (\<lambda>x. x < xs ! k) xs) \<le> k"
proof -
  have "\<forall>x \<in> set (take (Suc k) xs). x \<le> xs ! k"
    using assms by (auto simp: in_set_conv_nth sorted_iff_nth_mono less_Suc_eq_le)
  then have "filter (\<lambda>x. x \<le> xs ! k) (take (Suc k) xs) = take (Suc k) xs" by (simp add: filter_id_conv)
  moreover have "length (filter P xs) = length (filter P (take m xs)) + length (filter P (drop m xs))" for P m
    by (metis append_take_drop_id filter_append length_append)
  ultimately show "Suc k \<le> length (filter (\<lambda>x. x \<le> xs ! k) xs)" using assms(2) by (metis le_add1 length_take min_absorb2 Suc_leI)
  have "\<forall>x \<in> set (drop k xs). \<not> x < xs ! k"
    using assms by (auto simp: in_set_conv_nth not_less sorted_iff_nth_mono)
  then have "filter (\<lambda>x. x < xs ! k) (drop k xs) = []" by (simp add: filter_empty_conv)
  then have "length (filter (\<lambda>x. x < xs ! k) xs) = length (filter (\<lambda>x. x < xs ! k) (take k xs))"
    by (metis append_take_drop_id filter_append append_Nil2)
  then show "length (filter (\<lambda>x. x < xs ! k) xs) \<le> k" by (metis length_filter_le length_take min.bounded_iff)
qed

lemma percentile_index_bounds:
  assumes "0 < n" and "0 < d" and "p \<le> d"
  shows "p * n \<le> d * Suc (percentile_index n p d)" and "d * percentile_index n p d \<le> (n - 1) * p + (d - 1)"
proof -
  let ?a = "(n - 1) * p + d - 1"
  have "d * (?a div d) + ?a mod d = ?a" "?a mod d < d" using assms(2) by simp_all
  then have "(n - 1) * p \<le> d * (?a div d)" "d * (?a div d) \<le> ?a" using assms(2) by linarith+
  moreover have "p * n \<le> (n - 1) * p + d" using assms by (cases n) (simp_all add: algebra_simps)
  ultimately show "p * n \<le> d * Suc (percentile_index n p d)" "d * percentile_index n p d \<le> (n - 1) * p + (d - 1)"
    using assms(2) by (simp_all add: percentile_index_def)
qed

text \<open>
  Percentiles.  For sorted values and \<open>p \<le> d\<close>, as long as their number times \<open>d\<close> fits \<open>size_t\<close>,
  \<open>Percentile\<close> stays inside the vector and returns one of the values: at least \<open>p / d\<close> of all values are
  not above it, and of the values below it there are at most \<open>p / d\<close> of the others, rounded up.
\<close>

theorem Percentile_rank:
  assumes "sorted xs" and "xs \<noteq> []" and "0 < d" and "p \<le> d" and "length xs * d < 2 ^ 64"
  shows "\<exists>v. Percentile xs (of_nat p) (of_nat d) = Some v \<and> v \<in> set xs \<and>
    p * length xs \<le> d * length (filter (\<lambda>x. x \<le> v) xs) \<and>
    d * length (filter (\<lambda>x. x < v) xs) \<le> (length xs - 1) * p + (d - 1)"
proof -
  let ?n = "length xs" and ?k = "percentile_index (length xs) p d"
  have n: "0 < ?n" using assms(2) by simp
  have k: "?k < ?n" using percentile_index_less [OF n assms(3,4)] .
  note B = percentile_index_bounds [OF n assms(3,4)] and S = sorted_at_most [OF assms(1) k]
  have "p * ?n \<le> d * length (filter (\<lambda>x. x \<le> xs ! ?k) xs)" using B(1) mult_le_mono2 [OF S(1), of d] by linarith
  moreover have "d * length (filter (\<lambda>x. x < xs ! ?k) xs) \<le> (?n - 1) * p + (d - 1)" using B(2) mult_le_mono2 [OF S(2), of d] by linarith
  ultimately show ?thesis using Percentile_eq [OF assms(2-5)] k by auto
qed

theorem Percentile_rank_witness:
  "\<exists>v. Percentile [3, 5, 9] 95 100 = Some v \<and> v \<in> {3, 5, 9}"
  using Percentile_rank [of "[3, 5, 9]" 100 95] by (auto simp: word_le_nat_alt)

lemma percentile_index_mono: "p \<le> q \<Longrightarrow> percentile_index n p d \<le> percentile_index n q d"
  by (simp add: percentile_index_def div_le_mono diff_le_mono mult_le_mono2)

text \<open>
  Latencies.  For any latencies, in any order, the analysis is defined, its percentiles are among
  the latencies and in their order up to the maximum, and it does not depend on the order in which the
  threads reported them.
\<close>

theorem AnalyzeLatencies_ordered:
  assumes "xs \<noteq> []" and "length xs * 100 < 2 ^ 64" and "mset ys = mset xs"
  shows "\<exists>r. AnalyzeLatencies xs = Some r \<and> AnalyzeLatencies ys = Some r \<and>
    lr_p50_ns r \<le> lr_p95_ns r \<and> lr_p95_ns r \<le> lr_p99_ns r \<and> lr_p99_ns r \<le> lr_max_ns r \<and>
    {lr_p50_ns r, lr_p95_ns r, lr_p99_ns r, lr_max_ns r} \<subseteq> set xs \<and> (\<forall>x \<in> set xs. x \<le> lr_max_ns r)"
proof -
  let ?s = "sort xs" and ?i = "percentile_index (length xs)"
  have same: "sort ys = ?s" using assms(3) by (metis mset_sort properties_for_sort sorted_sort)
  have s: "?s \<noteq> []" "length ?s * 100 < 2 ^ 64" "length ?s = length xs"
    using assms(1,2) by (metis length_0_conv length_sort, metis length_sort, simp)
  have P: "Percentile ?s (of_nat p) 100 = Some (?s ! ?i p 100)" if "p \<le> 100" for p
    using Percentile_eq [OF s(1) _ that s(2)] s(3) by simp
  have i: "?i p 100 < length ?s" if "p \<le> 100" for p using percentile_index_less [of "length xs" 100 p] that assms(1) s(3) by simp
  have mono: "?s ! ?i p 100 \<le> ?s ! ?i q 100" if "p \<le> q" "q \<le> 100" for p q
    using i [OF that(2)] percentile_index_mono [OF that(1)] by (intro sorted_nth_mono) auto
  have top: "?s ! j \<le> last ?s" if "j < length ?s" for j
    using that s(1) by (simp add: last_conv_nth sorted_nth_mono)
  have p: "Percentile ?s 50 100 = Some (?s ! ?i 50 100)" "Percentile ?s 95 100 = Some (?s ! ?i 95 100)"
    "Percentile ?s 99 100 = Some (?s ! ?i 99 100)" using P [of 50] P [of 95] P [of 99] by simp_all
  let ?r = "\<lparr>lr_call_count = of_nat (length ?s), lr_total_ns = foldl (+) 0 ?s, lr_p50_ns = ?s ! ?i 50 100,
    lr_p95_ns = ?s ! ?i 95 100, lr_p99_ns = ?s ! ?i 99 100, lr_max_ns = last ?s\<rparr>"
  have "AnalyzeLatencies xs = Some ?r" "AnalyzeLatencies ys = Some ?r"
    using s(1) by (simp_all add: AnalyzeLatencies_def same p Let_def)
  moreover have "?s ! ?i 50 100 \<le> ?s ! ?i 95 100" "?s ! ?i 95 100 \<le> ?s ! ?i 99 100" "?s ! ?i 99 100 \<le> last ?s"
    using mono [of 50 95] mono [of 95 99] top [OF i [of 99]] by simp_all
  moreover have "?s ! ?i q 100 \<in> set xs" if "q \<le> 100" for q using nth_mem [OF i [OF that]] by simp
  then have "{?s ! ?i 50 100, ?s ! ?i 95 100, ?s ! ?i 99 100} \<subseteq> set xs" by simp
  moreover have "last ?s \<in> set xs" using last_in_set [OF s(1)] by simp
  moreover have "x \<le> last ?s" if "x \<in> set xs" for x
    using that top by (metis in_set_conv_nth set_sort)
  ultimately show ?thesis by (intro exI [of _ ?r]) simp
qed

theorem AnalyzeLatencies_ordered_witness:
  "\<exists>r. AnalyzeLatencies [30, 10, 20] = Some r \<and> AnalyzeLatencies [10, 20, 30] = Some r \<and> lr_p50_ns r \<le> lr_max_ns r"
  using AnalyzeLatencies_ordered [where xs = "[30, 10, 20]" and ys = "[10, 20, 30]"] by (auto intro: order_trans)

end
