(* ===== verification/Benchmark_Run.thy ===== *)
theory Benchmark_Run
  imports Benchmark_Support
begin

text \<open>
  \<open>RunBenchmark\<close> of \<open>examples/compare_benchmark.cpp\<close>: producer threads log a fixed number of messages each,
  the main thread joins them, flushes the logger, reads how many messages it has written and stops it.
  The code is a template over the logger and three functions; here these are a record of operations
  on the state of the logger and its client threads, of which the main thread is the last.
  The measured times have no part in this theory.
\<close>

section \<open>The program\<close>

text \<open>
  \<open>bl_log t i\<close> lets thread \<open>t\<close> call the logger with its message number \<open>i\<close>; a call is inside the logger until
  \<open>bl_returned\<close>, and \<open>bl_return\<close> takes the thread out.
\<close>

record 'sys bench_logger =
  bl_idle :: "nat \<Rightarrow> 'sys \<Rightarrow> bool"
  bl_log :: "nat \<Rightarrow> nat \<Rightarrow> 'sys \<Rightarrow> 'sys"
  bl_flush :: "nat \<Rightarrow> 'sys \<Rightarrow> 'sys"
  bl_stop :: "nat \<Rightarrow> 'sys \<Rightarrow> 'sys"
  bl_returned :: "nat \<Rightarrow> 'sys \<Rightarrow> bool"
  bl_return :: "nat \<Rightarrow> 'sys \<Rightarrow> 'sys"
  bl_written :: "'sys \<Rightarrow> u64"

datatype bench_main =
    MainJoin nat
  | MainFlush
  | MainRead
  | MainStop u64
  | MainStopping u64
  | MainEnd u64

text \<open>\<open>bench_next\<close> is the variable \<open>index\<close> of each producer.\<close>

record 'sys bench =
  bench_sys :: 'sys
  bench_next :: "nat list"
  bench_at :: bench_main

inductive bench_step :: "'sys bench_logger \<Rightarrow> ('sys \<Rightarrow> 'sys \<Rightarrow> bool) \<Rightarrow> nat \<Rightarrow> 'sys bench \<Rightarrow> 'sys bench \<Rightarrow> bool"
  for L moves messages_per_thread where
  bench_moves: "moves (bench_sys st) sys' \<Longrightarrow> bench_step L moves messages_per_thread st (st\<lparr>bench_sys := sys'\<rparr>)"
| producer_logs: "t < length (bench_next st) \<Longrightarrow> bl_idle L t (bench_sys st) \<Longrightarrow> bench_next st ! t < messages_per_thread \<Longrightarrow>
    bench_step L moves messages_per_thread st
      (st\<lparr>bench_sys := bl_log L t (bench_next st ! t) (bench_sys st), bench_next := (bench_next st)[t := Suc (bench_next st ! t)]\<rparr>)"
| producer_returns: "t < length (bench_next st) \<Longrightarrow> bl_returned L t (bench_sys st) \<Longrightarrow>
    bench_step L moves messages_per_thread st (st\<lparr>bench_sys := bl_return L t (bench_sys st)\<rparr>)"
| main_joins: "bench_at st = MainJoin k \<Longrightarrow> k < length (bench_next st) \<Longrightarrow> bl_idle L k (bench_sys st) \<Longrightarrow>
    bench_next st ! k = messages_per_thread \<Longrightarrow>
    bench_step L moves messages_per_thread st (st\<lparr>bench_at := MainJoin (Suc k)\<rparr>)"
| main_flushes: "bench_at st = MainJoin (length (bench_next st)) \<Longrightarrow>
    bench_step L moves messages_per_thread st
      (st\<lparr>bench_sys := bl_flush L (length (bench_next st)) (bench_sys st), bench_at := MainFlush\<rparr>)"
| main_flushed: "bench_at st = MainFlush \<Longrightarrow> bl_returned L (length (bench_next st)) (bench_sys st) \<Longrightarrow>
    bench_step L moves messages_per_thread st
      (st\<lparr>bench_sys := bl_return L (length (bench_next st)) (bench_sys st), bench_at := MainRead\<rparr>)"
| main_reads: "bench_at st = MainRead \<Longrightarrow>
    bench_step L moves messages_per_thread st (st\<lparr>bench_at := MainStop (bl_written L (bench_sys st))\<rparr>)"
| main_stops: "bench_at st = MainStop w \<Longrightarrow>
    bench_step L moves messages_per_thread st
      (st\<lparr>bench_sys := bl_stop L (length (bench_next st)) (bench_sys st), bench_at := MainStopping w\<rparr>)"
| main_ends: "bench_at st = MainStopping w \<Longrightarrow> bl_returned L (length (bench_next st)) (bench_sys st) \<Longrightarrow>
    bench_step L moves messages_per_thread st
      (st\<lparr>bench_sys := bl_return L (length (bench_next st)) (bench_sys st), bench_at := MainEnd w\<rparr>)"

definition bench_start :: "'sys \<Rightarrow> nat \<Rightarrow> 'sys bench" where
  "bench_start sys thread_count = \<lparr>bench_sys = sys, bench_next = replicate thread_count 0, bench_at = MainJoin 0\<rparr>"

text \<open>The number in the result, once the main thread has read it.\<close>

fun reported :: "bench_main \<Rightarrow> u64 option" where
  "reported (MainStop w) = Some w"
| "reported (MainStopping w) = Some w"
| "reported (MainEnd w) = Some w"
| "reported _ = None"

section \<open>What the program relies on\<close>

text \<open>
  The contract of a logger that can be measured: \<open>inv next stage\<close> holds of its state when the producers have
  begun \<open>next\<close> calls, before, during and after the flush.  Idle threads stay idle until they call,
  and after the flush the logger has written as many messages as calls have begun.
\<close>

datatype bench_stage = Logging | Flushing | Flushed

locale countable_logger =
  fixes L :: "'sys bench_logger"
    and moves :: "'sys \<Rightarrow> 'sys \<Rightarrow> bool"
    and n :: nat
    and inv :: "nat list \<Rightarrow> bench_stage \<Rightarrow> 'sys \<Rightarrow> bool"
  assumes move_law: "inv next s sys \<Longrightarrow> moves sys sys' \<Longrightarrow>
      inv next s sys' \<and> (\<forall>t < n. bl_idle L t sys \<longrightarrow> bl_idle L t sys')"
    and log_law: "inv next Logging sys \<Longrightarrow> t < n \<Longrightarrow> bl_idle L t sys \<Longrightarrow>
      inv (next[t := Suc (next ! t)]) Logging (bl_log L t (next ! t) sys) \<and>
      (\<forall>u < n. u \<noteq> t \<longrightarrow> bl_idle L u sys \<longrightarrow> bl_idle L u (bl_log L t (next ! t) sys))"
    and return_law: "inv next s sys \<Longrightarrow> t < n \<Longrightarrow> bl_returned L t sys \<Longrightarrow>
      inv next s (bl_return L t sys) \<and> (\<forall>u < n. bl_idle L u sys \<longrightarrow> bl_idle L u (bl_return L t sys))"
    and flush_law: "inv next Logging sys \<Longrightarrow> (\<And>t. t < n \<Longrightarrow> bl_idle L t sys) \<Longrightarrow> inv next Flushing (bl_flush L n sys)"
    and flushed_law: "inv next Flushing sys \<Longrightarrow> bl_returned L n sys \<Longrightarrow> inv next Flushed (bl_return L n sys)"
    and written_law: "inv next Flushed sys \<Longrightarrow> bl_written L sys = of_nat (sum_list next)"
begin

definition run_inv :: "nat \<Rightarrow> 'sys bench \<Rightarrow> bool" where
  "run_inv m st \<longleftrightarrow> length (bench_next st) = n \<and>
     (case bench_at st of
        MainJoin k \<Rightarrow> k \<le> n \<and> inv (bench_next st) Logging (bench_sys st) \<and>
          (\<forall>t < k. bl_idle L t (bench_sys st) \<and> bench_next st ! t = m)
      | MainFlush \<Rightarrow> inv (bench_next st) Flushing (bench_sys st) \<and> bench_next st = replicate n m
      | MainRead \<Rightarrow> inv (bench_next st) Flushed (bench_sys st) \<and> bench_next st = replicate n m
      | _ \<Rightarrow> reported (bench_at st) = Some (of_nat (n * m)) \<and> bench_next st = replicate n m)"

lemma run_step: "bench_step L moves m st st' \<Longrightarrow> run_inv m st \<Longrightarrow> run_inv m st'"
proof (induction rule: bench_step.induct)
  case (bench_moves st sys')
  then show ?case using move_law by (auto simp: run_inv_def split: bench_main.splits)
next
  case (producer_logs t st)
  then show ?case using log_law
    by (auto simp: run_inv_def nth_list_update split: bench_main.splits)
next
  case (producer_returns t st)
  then show ?case using return_law by (auto simp: run_inv_def split: bench_main.splits)
next
  case (main_joins st k)
  then show ?case by (auto simp: run_inv_def less_Suc_eq)
next
  case (main_flushes st)
  then have "bench_next st = replicate n m" by (auto simp: run_inv_def intro: nth_equalityI)
  with main_flushes show ?case using flush_law by (auto simp: run_inv_def)
next
  case (main_flushed st)
  then have "inv (bench_next st) Flushed (bl_return L n (bench_sys st))" by (intro flushed_law) (auto simp: run_inv_def)
  with main_flushed show ?case by (simp add: run_inv_def)
next
  case (main_reads st)
  then have "bl_written L (bench_sys st) = of_nat (sum_list (bench_next st))" by (intro written_law) (auto simp: run_inv_def)
  with main_reads show ?case by (simp add: run_inv_def sum_list_replicate)
qed (simp_all add: run_inv_def)

lemma reports_all:
  assumes "rtranclp (bench_step L moves m) (bench_start start n) st" and "inv (replicate n 0) Logging start"
    and "reported (bench_at st) = Some w"
  shows "w = of_nat (n * m)"
proof -
  from assms(1) have "run_inv m st"
    by (induction rule: rtranclp_induct) (use assms(2) run_step in \<open>auto simp: run_inv_def bench_start_def\<close>)
  with assms(3) show ?thesis by (auto simp: run_inv_def split: bench_main.splits)
qed

end


section \<open>Running a schedule\<close>

datatype 'a bench_action = BenchMove 'a | BenchLog nat | BenchReturn nat | BenchMain

fun bench_do :: "'sys bench_logger \<Rightarrow> ('a \<Rightarrow> 'sys \<Rightarrow> 'sys) \<Rightarrow> nat \<Rightarrow> 'a bench_action \<Rightarrow> 'sys bench \<Rightarrow> 'sys bench" where
  "bench_do L f m (BenchMove x) st = st\<lparr>bench_sys := f x (bench_sys st)\<rparr>"
| "bench_do L f m (BenchLog t) st =
     (if t < length (bench_next st) \<and> bl_idle L t (bench_sys st) \<and> bench_next st ! t < m
      then st\<lparr>bench_sys := bl_log L t (bench_next st ! t) (bench_sys st), bench_next := (bench_next st)[t := Suc (bench_next st ! t)]\<rparr>
      else st)"
| "bench_do L f m (BenchReturn t) st =
     (if t < length (bench_next st) \<and> bl_returned L t (bench_sys st)
      then st\<lparr>bench_sys := bl_return L t (bench_sys st)\<rparr> else st)"
| "bench_do L f m BenchMain st =
     (let n = length (bench_next st); sys = bench_sys st in
      case bench_at st of
        MainJoin k \<Rightarrow>
          if k < n then (if bl_idle L k sys \<and> bench_next st ! k = m then st\<lparr>bench_at := MainJoin (Suc k)\<rparr> else st)
          else if k = n then st\<lparr>bench_sys := bl_flush L n sys, bench_at := MainFlush\<rparr> else st
      | MainFlush \<Rightarrow> if bl_returned L n sys then st\<lparr>bench_sys := bl_return L n sys, bench_at := MainRead\<rparr> else st
      | MainRead \<Rightarrow> st\<lparr>bench_at := MainStop (bl_written L sys)\<rparr>
      | MainStop w \<Rightarrow> st\<lparr>bench_sys := bl_stop L n sys, bench_at := MainStopping w\<rparr>
      | MainStopping w \<Rightarrow> if bl_returned L n sys then st\<lparr>bench_sys := bl_return L n sys, bench_at := MainEnd w\<rparr> else st
      | MainEnd w \<Rightarrow> st)"

lemma bench_do_step:
  assumes "\<And>x sys. f x sys = sys \<or> moves sys (f x sys)"
  shows "bench_do L f m a st = st \<or> bench_step L moves m st (bench_do L f m a st)"
proof (cases a)
  case (BenchMove x)
  then show ?thesis using assms [of x "bench_sys st"] bench_moves [of moves st] by auto
next
  case BenchMain
  then show ?thesis
    by (cases "bench_at st")
      (auto simp: Let_def intro: bench_step.main_joins bench_step.main_flushes bench_step.main_flushed
        bench_step.main_reads bench_step.main_stops bench_step.main_ends)
qed (auto intro: bench_step.producer_logs bench_step.producer_returns)

lemma bench_run_reach:
  assumes f: "\<And>x sys. f x sys = sys \<or> moves sys (f x sys)"
  shows "rtranclp (bench_step L moves m) st (fold (bench_do L f m) as st)"
proof (induction as arbitrary: st)
  case (Cons a as)
  from bench_do_step [where f = f and moves = moves and L = L and m = m and a = a and st = st, OF f] Cons [of "bench_do L f m a st"]
  show ?case by (auto intro: converse_rtranclp_into_rtranclp)
qed simp

end
