(* ===== verification/Benchmark_Cas.thy ===== *)
theory Benchmark_Cas
  imports Benchmark_Run Logger_Accounting Logger_Schedules
begin

text \<open>
  The benchmark of \<open>AsyncLogger\<close> in \<open>examples/compare_benchmark.cpp\<close>: the functions \<open>cas_factory\<close>, \<open>cas_log\<close>,
  \<open>cas_flush\<close> and \<open>cas_written\<close>, and the proof that the logger is one that can be measured.
\<close>

section \<open>The functions given to \<open>RunBenchmark\<close>\<close>

definition cas_options :: AsyncLoggerOptions where
  "cas_options = default_AsyncLoggerOptions\<lparr>opt_queue_size := push_bit 15 1, opt_overflow_policy := Block,
     opt_level := Info, opt_flush_level := Off\<rparr>"

definition cas_factory :: "u64 \<times> io_world \<Rightarrow> exn + u64 AsyncLogger" where
  "cas_factory sink = AsyncLogger_new ''cas-benchmark'' (Some sink) cas_options"

definition cas_log :: "nat \<Rightarrow> nat \<Rightarrow> logger_call" where
  "cas_log thread_id index = LogCall Info no_source [ArgString (MakePayload (int thread_id) (int index))]"

definition cas_written :: "'s AsyncLogger \<Rightarrow> u64" where
  "cas_written lg = stat_written (Stats lg)"

definition cas_call :: "nat \<Rightarrow> client_pc \<Rightarrow> 's logger_sys \<Rightarrow> 's logger_sys" where
  "cas_call t pc st = st\<lparr>sys_clients := (sys_clients st)[t := pc]\<rparr>"

fun has_returned :: "client_pc \<Rightarrow> bool" where
  "has_returned (Returned call b) \<longleftrightarrow> True"
| "has_returned StopReturned \<longleftrightarrow> True"
| "has_returned _ \<longleftrightarrow> False"

definition cas_logger :: "'s logger_sys bench_logger" where
  "cas_logger =
     \<lparr>bl_idle = (\<lambda>t st. sys_clients st ! t = ClientIdle),
      bl_log = (\<lambda>t i. cas_call t (StartLoad (cas_log t i))),
      bl_flush = (\<lambda>t. cas_call t (StartLoad FlushCall)),
      bl_stop = (\<lambda>t. cas_call t StopLoad),
      bl_returned = (\<lambda>t st. has_returned (sys_clients st ! t)),
      bl_return = (\<lambda>t. cas_call t ClientIdle),
      bl_written = (\<lambda>st. cas_written (sys_logger st))\<rparr>"

text \<open>What goes on inside the logger.\<close>

inductive cas_moves :: "('s \<times> io_world) sink_ops \<Rightarrow> (nat \<Rightarrow> u64) \<Rightarrow> 's logger_sys \<Rightarrow> 's logger_sys \<Rightarrow> bool"
  for ops hash where
  cas_client: "t < length (sys_clients st) \<Longrightarrow>
    client_step (hash t) spurious now (sys_clients st ! t) (sys_logger st) = (pc', lg') \<Longrightarrow>
    cas_moves ops hash st (st\<lparr>sys_logger := lg', sys_clients := (sys_clients st)[t := pc']\<rparr>)"
| cas_worker: "worker_step ops spurious now (sys_worker st) (sys_logger st) = (pc', lg') \<Longrightarrow>
    cas_moves ops hash st (st\<lparr>sys_logger := lg', sys_worker := pc'\<rparr>)"

section \<open>What a thread is doing\<close>

text \<open>The call a thread is in, and whether it is before the point where its message is in the queue.\<close>

fun call_of :: "client_pc \<Rightarrow> logger_call option" where
  "call_of (StartLoad call) = Some call"
| "call_of (StartCas call s) = Some call"
| "call_of (LogCheckFailed level src args) = Some (LogCall level src args)"
| "call_of (LogCheckLevel level src args) = Some (LogCall level src args)"
| "call_of (LogBuild level src args) = Some (LogCall level src args)"
| "call_of FlushCheckJoinable = Some FlushCall"
| "call_of FlushCheckFailed = Some FlushCall"
| "call_of FlushDrawTicket = Some FlushCall"
| "call_of (PubCount call item b) = Some call"
| "call_of (PubCheckFailed call item b) = Some call"
| "call_of (PubTry call item b) = Some call"
| "call_of (PubWrite call item p) = Some call"
| "call_of (PubSignal call item) = Some call"
| "call_of (PubNotify call item) = Some call"
| "call_of (FlushLoad t) = Some FlushCall"
| "call_of (FlushLoopFailed t c) = Some FlushCall"
| "call_of (FlushWait t c) = Some FlushCall"
| "call_of (FlushBlocked t c g) = Some FlushCall"
| "call_of (FlushLast t) = Some FlushCall"
| "call_of (FinishOp call b) = Some call"
| "call_of (FinishSignal call b) = Some call"
| "call_of (FinishNotify call b) = Some call"
| "call_of (Returned call b) = Some call"
| "call_of _ = None"

fun unpublished :: "client_pc \<Rightarrow> bool" where
  "unpublished (StartLoad call) \<longleftrightarrow> True"
| "unpublished (StartCas call s) \<longleftrightarrow> True"
| "unpublished (LogCheckFailed level src args) \<longleftrightarrow> True"
| "unpublished (LogCheckLevel level src args) \<longleftrightarrow> True"
| "unpublished (LogBuild level src args) \<longleftrightarrow> True"
| "unpublished (PubCount call item b) \<longleftrightarrow> True"
| "unpublished (PubCheckFailed call item b) \<longleftrightarrow> True"
| "unpublished (PubTry call item b) \<longleftrightarrow> True"
| "unpublished (PubWrite call item p) \<longleftrightarrow> True"
| "unpublished _ \<longleftrightarrow> False"

definition early :: "client_pc \<Rightarrow> bool" where
  "early pc \<longleftrightarrow> unpublished pc \<and> call_of pc \<noteq> Some FlushCall"

text \<open>A call of \<open>Flush\<close> before its ticket is drawn, and after its request has been answered.\<close>

fun undrawn :: "client_pc \<Rightarrow> bool" where
  "undrawn (StartLoad call) \<longleftrightarrow> True"
| "undrawn (StartCas call s) \<longleftrightarrow> True"
| "undrawn FlushCheckJoinable \<longleftrightarrow> True"
| "undrawn FlushCheckFailed \<longleftrightarrow> True"
| "undrawn FlushDrawTicket \<longleftrightarrow> True"
| "undrawn _ \<longleftrightarrow> False"

fun answered :: "client_pc \<Rightarrow> bool" where
  "answered (FinishOp call b) \<longleftrightarrow> True"
| "answered (FinishSignal call b) \<longleftrightarrow> True"
| "answered (FinishNotify call b) \<longleftrightarrow> True"
| "answered (Returned call b) \<longleftrightarrow> True"
| "answered ClientIdle \<longleftrightarrow> True"
| "answered _ \<longleftrightarrow> False"

text \<open>Calls that cannot be refused while the gate is open and the worker has not failed.\<close>

fun sure_call :: "logger_call \<Rightarrow> bool" where
  "sure_call (LogCall level src args) \<longleftrightarrow> level = Info \<and> BuildPayload args \<noteq> None"
| "sure_call FlushCall \<longleftrightarrow> True"

fun sure :: "client_pc \<Rightarrow> bool" where
  "sure ClientIdle \<longleftrightarrow> True"
| "sure (PubUncount call item b) \<longleftrightarrow> False"
| "sure (PubDrop call) \<longleftrightarrow> False"
| "sure pc \<longleftrightarrow> (\<exists>call. call_of pc = Some call \<and> sure_call call)"

definition steady :: "'s AsyncLogger \<Rightarrow> bool" where
  "steady lg \<longleftrightarrow> lg_overflow_policy lg = Block \<and> lg_level lg = Info \<and> \<not> lg_worker_failed lg \<and> \<not> lg_joined lg \<and>
     \<not> gate_closed (lg_operation_state lg)"

text \<open>The worker is not about to end.\<close>

fun calm :: "worker_pc \<Rightarrow> bool" where
  "calm (RecordFailure e) \<longleftrightarrow> False"
| "calm (CheckActive b) \<longleftrightarrow> False"
| "calm FinalFlush \<longleftrightarrow> False"
| "calm WorkerDone \<longleftrightarrow> False"
| "calm w \<longleftrightarrow> \<not> failing w"

definition never_throws :: "'st sink_ops \<Rightarrow> bool" where
  "never_throws ops \<longleftrightarrow> (\<forall>m st. fst (op_write ops m st) = Inr ()) \<and> (\<forall>st. fst (op_flush ops st) = Inr ()) \<and>
     (\<forall>now st. \<exists>b. fst (op_due ops now st) = Inr b)"

lemma gate_stays_open:
  assumes run: "client_step tid spurious now pc lg = (pc', lg')" and s: "lg_operation_state lg = op_word False m" and m: "Suc m < 2 ^ 63"
    and pos: "inside pc \<Longrightarrow> 0 < m" and ok: "sure pc"
  shows "\<not> gate_closed (lg_operation_state lg')"
proof (cases pc)
  case (StartCas c w)
  have "\<not> gate_closed (lg_operation_state lg + 1)" "\<not> gate_closed (lg_operation_state lg)" using m by (simp_all add: s)
  then show ?thesis using run StartCas by (auto split: if_splits)
next
  case (FinishOp c b)
  then have "\<not> gate_closed (lg_operation_state lg - 1)" using pos m by (simp add: s)
  then show ?thesis using run FinishOp by (auto simp: Let_def split: if_splits)
next
  case (LogBuild l src args)
  then show ?thesis using run m s by (auto split: option.splits)
qed (use run ok m s in \<open>auto simp: Let_def queue_claim_def queue_publish_def split: if_splits\<close>)

lemma sure_step:
  assumes run: "client_step tid spurious now pc lg = (pc', lg')" and e: "steady lg" and ok: "sure pc" and q: "client_queue_ok lg pc"
  shows "sure pc' \<and> call_of pc' = call_of pc \<and>
    lg_overflow_policy lg' = Block \<and> lg_level lg' = Info \<and> \<not> lg_worker_failed lg' \<and> \<not> lg_joined lg' \<and>
    length (logs (lg_slots lg')) + (if early pc' then 1 else 0) = length (logs (lg_slots lg)) + (if early pc then 1 else 0)"
proof -
  have "call_of (started c) = Some c" "call_of (published c item) = Some c" "sure (started c) = sure_call c"
    "sure (published c item) = sure_call c" "unpublished (started c) \<longleftrightarrow> c \<noteq> FlushCall" "\<not> unpublished (published c item)" for c item
    by (cases c; simp)+
  note simps = this
  show ?thesis
    using run e ok q simps
    by (cases pc) (auto simp: steady_def early_def Let_def HasWorkerFailure_def ShouldLog_def queue_claim_def queue_publish_def slot_claim_def slot_publish_def
      logs_publish fits_def split: if_splits option.splits)
qed


section \<open>The worker\<close>

text \<open>After a message has been written and before it is counted, the write is the last call on the sink.\<close>

fun counting :: "'s AsyncLogger \<Rightarrow> worker_pc \<Rightarrow> bool" where
  "counting lg (CountWritten place level) \<longleftrightarrow> (\<exists>cs m t. hist_calls lg = cs @ [CallWrite m t])"
| "counting lg w \<longleftrightarrow> True"

lemma calm_step:
  assumes run: "worker_step ops spurious now w lg = (w', lg')" and e: "steady lg" and ok: "calm w" and ops: "never_throws ops"
  shows "calm w' \<and> steady lg' \<and> lg_slots lg' = lg_slots lg \<and> (counting lg w \<longrightarrow> counting lg' w')"
proof -
  have w: "\<exists>st'. op_write ops m st = (Inr (), st')" and f: "\<exists>st'. op_flush ops st = (Inr (), st')"
    and d: "\<exists>b st'. op_due ops t st = (Inr b, st')" for m st t
    using ops by (metis never_throws_def prod.collapse)+
  have h: "calm (handled pl b)" "counting l (handled pl b)" "calm (after_progress b)" "counting l (after_progress b)"
    for pl b and l :: "'a AsyncLogger"
    by (cases pl; simp add: after_progress_def)+
  show ?thesis
  proof (cases w)
    case (Handle pl item)
    obtain st1 st2 where "op_write ops (item_message item) (set_clock now (lg_sink lg)) = (Inr (), st1)"
      "op_flush ops (lg_sink lg) = (Inr (), st2)" using w f by blast
    then show ?thesis using run e Handle by (auto simp: sink_step_defs steady_def split: if_splits)
  next
    case FlushRequired
    obtain st where "op_flush ops (lg_sink lg) = (Inr (), st)" using f by blast
    then show ?thesis using run e FlushRequired by (auto simp: sink_step_defs steady_def)
  next
    case RetryFlush
    obtain st where "op_flush ops (lg_sink lg) = (Inr (), st)" using f by blast
    then show ?thesis using run e RetryFlush by (auto simp: sink_step_defs steady_def)
  next
    case (CheckDue b)
    obtain st b' where "op_due ops now (lg_sink lg) = (Inr b', st)" using d by blast
    then show ?thesis using run e CheckDue by (auto simp: sink_step_defs steady_def)
  qed (use run e ok h in \<open>auto simp: steady_def StopRequested_def split: if_splits option.splits\<close>)
qed


section \<open>The stages of the main thread\<close>

text \<open>
  Before the ticket is drawn there is none; from then on all messages of the producers are before its position,
  and once the request has been answered the sink has been flushed after them.
\<close>

definition ticketed :: "nat \<Rightarrow> client_pc \<Rightarrow> 's AsyncLogger \<Rightarrow> bool" where
  "ticketed messages pc lg \<longleftrightarrow>
     (if undrawn pc then hist_tickets lg = []
      else \<exists>k. hist_tickets lg = [k] \<and> length (logs (take k (lg_slots lg))) = messages) \<and>
     (answered pc \<longrightarrow> covered lg 1)"

fun stage_ok :: "nat \<Rightarrow> nat \<Rightarrow> bench_stage \<Rightarrow> 's logger_sys \<Rightarrow> bool" where
  "stage_ok n messages Logging st \<longleftrightarrow> sys_clients st ! n = ClientIdle \<and> hist_tickets (sys_logger st) = []"
| "stage_ok n messages Flushing st \<longleftrightarrow> (\<forall>t < n. sys_clients st ! t = ClientIdle) \<and>
     call_of (sys_clients st ! n) = Some FlushCall \<and> sure (sys_clients st ! n) \<and>
     ticketed messages (sys_clients st ! n) (sys_logger st)"
| "stage_ok n messages Flushed st \<longleftrightarrow> (\<forall>t \<le> n. sys_clients st ! t = ClientIdle) \<and> ticketed messages ClientIdle (sys_logger st)"

definition cas_inv ::
  "('s \<times> io_world) sink_ops \<Rightarrow> (nat \<Rightarrow> u64) \<Rightarrow> 's AsyncLogger \<Rightarrow> nat \<Rightarrow> nat list \<Rightarrow> bench_stage \<Rightarrow> 's logger_sys \<Rightarrow> bool" where
  "cas_inv ops hash lg n next stage st \<longleftrightarrow>
     never_throws ops \<and> n < 2 ^ 31 \<and> logger_reach ops hash lg (Suc n) st \<and> length next = n \<and>
     steady (sys_logger st) \<and> calm (sys_worker st) \<and> counting (sys_logger st) (sys_worker st) \<and>
     (\<forall>t < n. sure (sys_clients st ! t) \<and> call_of (sys_clients st ! t) \<noteq> Some FlushCall) \<and>
     length (logs (lg_slots (sys_logger st))) + length (filter early (sys_clients st)) = sum_list next \<and>
     stage_ok n (sum_list next) stage st"

lemma covered_grows:
  assumes "covered lg t" and "hist_tickets lg' = hist_tickets lg" and "hist_flushed lg \<le> hist_flushed lg'"
  shows "covered lg' t"
  using ticket_grows(3) [of lg' lg "[]"] assms by simp

lemma logs_take_publish:
  assumes "p < length xs" and "xs ! p = None" and "\<not> is_log item"
  shows "length (logs (take k (xs[p := Some item]))) = length (logs (take k xs))"
proof (cases "p < k")
  case True
  then show ?thesis using logs_publish [of p "take k xs" item] assms by (simp add: take_update_swap)
qed simp

lemma flush_step_ticketed:
  assumes run: "client_step tid spurious now pc lg = (pc', lg')" and e: "steady lg"
    and ok: "sure pc" "call_of pc = Some FlushCall" and q: "client_queue_ok lg pc" and f: "client_flush_ok lg w pc"
    and messages: "length (logs (lg_slots lg)) = messages" and tk: "ticketed messages pc lg"
  shows "ticketed messages pc' lg'"
proof -
  have flushed: "hist_flushed lg' = hist_flushed lg"
    using run by (cases pc) (auto simp: Let_def queue_claim_def queue_publish_def split: if_splits option.splits)
  have sure': "sure pc'" using sure_step [OF run e ok(1) q] by blast
  show ?thesis
  proof (cases "undrawn pc")
    case True
    then show ?thesis using run e ok tk messages
      by (cases pc) (auto simp: ticketed_def steady_def HasWorkerFailure_def Let_def split: if_splits)
  next
    case False
    then obtain k where k: "hist_tickets lg = [k]" "length (logs (take k (lg_slots lg))) = messages" using tk by (auto simp: ticketed_def)
    have ts: "hist_tickets lg' = [k]" using client_step_tickets [OF run] False k by auto
    have "length (logs (take k (lg_slots lg'))) = messages"
      using client_step_slots [OF run]
    proof (elim disjE exE conjE)
      fix c item p assume c: "pc = PubWrite c item p" "lg' = queue_publish p item lg"
      then show ?thesis using q ok(2) k logs_take_publish [of p "lg_slots lg" item k]
        by (simp add: queue_publish_def slot_publish_def fits_def)
    next
      fix c item b assume "pc = PubTry c item b" "lg' = queue_claim lg"
      moreover have "logs (take k (lg_slots lg @ [None])) = logs (take k (lg_slots lg))" by (cases "k \<le> length (lg_slots lg)") simp_all
      ultimately show ?thesis using k by (simp add: queue_claim_def slot_claim_def)
    qed (use k in simp)
    moreover have "\<not> undrawn pc'" using run False ok by (cases pc) (auto simp: Let_def split: if_splits)
    moreover have "covered lg' 1" if a: "answered pc'"
    proof -
      have "covered lg 1"
      proof (cases "answered pc")
        case False
        have "\<exists>t. pc = FlushLast t"
          using run a False ok e \<open>\<not> undrawn pc\<close>
          by (cases pc) (auto simp: steady_def HasWorkerFailure_def Let_def split: if_splits)
        then obtain t where t: "pc = FlushLast t" by blast
        then have "valid_ticket lg t" "covered lg t" using f e by (auto simp: client_flush_ok_def steady_def)
        moreover from this(1) have "unat t = 1" using k by (auto simp: valid_ticket_def)
        then have "t = 1" by (metis unsigned_1 word_unat_eq_iff)
        ultimately show ?thesis by simp
      qed (use tk in \<open>simp add: ticketed_def\<close>)
      then show ?thesis using covered_grows ts k(1) flushed by (metis order_refl)
    qed
    ultimately show ?thesis using ts by (simp add: ticketed_def)
  qed
qed


section \<open>The contract\<close>

lemma cas_moves_step: "cas_moves ops hash st st' \<Longrightarrow> logger_step ops hash st st'"
  by (induction rule: cas_moves.induct) (blast intro: client_moves worker_moves)+

lemma reach_more: "logger_reach ops hash lg n st \<Longrightarrow> logger_step ops hash st st' \<Longrightarrow> logger_reach ops hash lg n st'"
  by (auto simp: logger_reach_def intro: rtranclp.rtrancl_into_rtrancl)

lemma cas_parts:
  assumes inv: "cas_inv ops hash lg n next stage st" and t: "t \<le> n"
  shows "length (sys_clients st) = Suc n" "client_queue_ok (sys_logger st) (sys_clients st ! t)"
    "client_flush_ok (sys_logger st) (sys_worker st) (sys_clients st ! t)" "hist_flushed (sys_logger st) \<le> lg_taken (sys_logger st)"
proof -
  have r: "logger_reach ops hash lg (Suc n) st" using inv by (simp add: cas_inv_def)
  show l: "length (sys_clients st) = Suc n" using reach_gate [OF r] by blast
  have "length (hist_tickets (sys_logger st)) \<le> 1"
    using inv by (cases stage) (auto simp: cas_inv_def ticketed_def split: if_splits)
  then have "length (hist_tickets (sys_logger st)) < 2 ^ 64" by (rule le_less_trans) simp
  then show "client_flush_ok (sys_logger st) (sys_worker st) (sys_clients st ! t)"
    using flush.reach_parts(2) [OF r] l t by simp
  show "client_queue_ok (sys_logger st) (sys_clients st ! t)" using queue.reach_parts(2) [OF r TrueI] l t by simp
  show "hist_flushed (sys_logger st) \<le> lg_taken (sys_logger st)"
    using history.reach_parts(1) [OF r TrueI] by (simp add: flushed_inv_def)
qed

lemma cas_gate:
  assumes inv: "cas_inv ops hash lg n next stage st" and t: "t \<le> n" and ok: "sure (sys_clients st ! t)"
    and run: "client_step tid spurious now (sys_clients st ! t) (sys_logger st) = (pc', lg')"
  shows "\<not> gate_closed (lg_operation_state lg')"
proof -
  have r: "logger_reach ops hash lg (Suc n) st" using inv by (simp add: cas_inv_def)
  note l = cas_parts(1) [OF inv t]
  obtain shut where s: "lg_operation_state (sys_logger st) = op_word shut (inside_count (sys_clients st))"
    using reach_gate [OF r] by (auto simp: gate_inv_def)
  have few: "Suc (inside_count (sys_clients st)) < 2 ^ 63" using inside_count_le [of "sys_clients st"] l inv by (simp add: cas_inv_def)
  then have "\<not> shut" using inv s by (auto simp: cas_inv_def steady_def)
  then show ?thesis using gate_stays_open [OF run _ few _ ok] s inside_count_pos [of t "sys_clients st"] l t by simp
qed

lemma cas_inv_call:
  assumes inv: "cas_inv ops hash lg n next stage st" and t: "t \<le> n" and step: "logger_step ops hash st (cas_call t pc st)"
    and st: "stage_ok n (sum_list next') stage' (cas_call t pc st)" and next': "length next' = n"
    and pc: "t < n \<Longrightarrow> sure pc \<and> call_of pc \<noteq> Some FlushCall"
    and cnt: "sum_list next' + (if early (sys_clients st ! t) then 1 else 0) = sum_list next + (if early pc then 1 else 0)"
  shows "cas_inv ops hash lg n next' stage' (cas_call t pc st)"
proof -
  have t': "t < length (sys_clients st)" using cas_parts(1) [OF inv t] t by simp
  have "length (filter early ((sys_clients st)[t := pc])) + (if early (sys_clients st ! t) then 1 else 0) =
      length (filter early (sys_clients st)) + (if early pc then 1 else 0)" by (rule filter_update_count [OF t'])
  with cnt inv have "length (logs (lg_slots (sys_logger st))) + length (filter early ((sys_clients st)[t := pc])) = sum_list next'"
    by (auto simp: cas_inv_def split: if_splits)
  then show ?thesis
    using inv reach_more [OF _ step] st next' pc t' by (auto simp: cas_inv_def cas_call_def nth_list_update)
qed

lemma cas_inv_client:
  assumes inv: "cas_inv ops hash lg n next stage st" and t: "t \<le> n"
    and run: "client_step (hash t) spurious now (sys_clients st ! t) (sys_logger st) = (pc', lg')"
  shows "cas_inv ops hash lg n next stage (st\<lparr>sys_logger := lg', sys_clients := (sys_clients st)[t := pc']\<rparr>)"
    (is "cas_inv _ _ _ _ _ _ ?st'")
proof -
  let ?pc = "sys_clients st ! t"
  note P = cas_parts [OF inv t]
  have t': "t < length (sys_clients st)" using P(1) t by simp
  have e: "steady (sys_logger st)" using inv by (simp add: cas_inv_def)
  have main: "sure (sys_clients st ! n)" using inv by (cases stage) (simp_all add: cas_inv_def)
  then have ok: "sure ?pc" using inv t by (cases "t = n") (auto simp: cas_inv_def)
  note S = sure_step [OF run e ok P(2)]
  have e': "steady lg'" using S cas_gate [OF inv t ok run] by (simp add: steady_def)
  have "length (filter early ((sys_clients st)[t := pc'])) + (if early ?pc then 1 else 0) =
      length (filter early (sys_clients st)) + (if early pc' then 1 else 0)" by (rule filter_update_count [OF t'])
  with S inv have cnt: "length (logs (lg_slots lg')) + length (filter early ((sys_clients st)[t := pc'])) = sum_list next"
    by (auto simp: cas_inv_def split: if_splits)
  have calls: "hist_calls lg' = hist_calls (sys_logger st)"
    using run by (cases ?pc) (auto simp: Let_def queue_claim_def queue_publish_def split: if_splits option.splits)
  have count: "counting lg' (sys_worker st)" using inv calls by (cases "sys_worker st") (simp_all add: cas_inv_def)
  have reach: "logger_reach ops hash lg (Suc n) ?st'"
    using reach_more [OF _ client_moves [where ops = ops and hash = hash, OF t' run]] inv by (simp add: cas_inv_def)
  have "stage_ok n (sum_list next) stage ?st'"
  proof (cases "?pc = ClientIdle")
    case True
    then have "pc' = ClientIdle" "lg' = sys_logger st" using run by auto
    then have "?st' = st" using True by (simp add: list_update_same_conv [OF t'])
    then show ?thesis using inv by (simp add: cas_inv_def)
  next
    case False
    show ?thesis
    proof (cases stage)
      case Logging
      then have "t \<noteq> n" using inv False by (auto simp: cas_inv_def)
      then have "call_of ?pc \<noteq> Some FlushCall" using inv t by (auto simp: cas_inv_def)
      then have "hist_tickets lg' = hist_tickets (sys_logger st)" using client_step_tickets [OF run] by auto
      then show ?thesis using Logging \<open>t \<noteq> n\<close> inv by (simp add: cas_inv_def)
    next
      case Flushing
      then have tn: "t = n" using inv False t by (cases "t < n") (auto simp: cas_inv_def)
      have idle: "sys_clients st ! u = ClientIdle" if "u < n" for u using inv Flushing that by (simp add: cas_inv_def)
      have "filter early (sys_clients st) = []"
      proof -
        have "\<not> early (sys_clients st ! u)" if "u < Suc n" for u
          using idle [of u] inv Flushing that by (cases "u = n") (auto simp: cas_inv_def early_def)
        then show ?thesis using P(1) by (auto simp: filter_empty_conv in_set_conv_nth)
      qed
      then have all: "length (logs (lg_slots (sys_logger st))) = sum_list next" using inv by (simp add: cas_inv_def)
      have "ticketed (sum_list next) pc' lg'"
        using flush_step_ticketed [OF run e ok _ P(2,3) all] inv Flushing tn by (simp add: cas_inv_def)
      then show ?thesis using Flushing tn S inv t' idle by (simp add: cas_inv_def)
    next
      case Flushed
      then show ?thesis using inv False t by (auto simp: cas_inv_def)
    qed
  qed
  with reach e' count cnt S inv t t' P(1) show ?thesis by (auto simp: cas_inv_def nth_list_update)
qed


lemma cas_inv_worker:
  assumes inv: "cas_inv ops hash lg n next stage st"
    and run: "worker_step ops spurious now (sys_worker st) (sys_logger st) = (w', lg')"
  shows "cas_inv ops hash lg n next stage (st\<lparr>sys_logger := lg', sys_worker := w'\<rparr>)"
proof -
  have C: "calm w' \<and> steady lg' \<and> lg_slots lg' = lg_slots (sys_logger st) \<and> counting lg' w'"
    using calm_step [OF run] inv by (auto simp: cas_inv_def)
  note T = worker_step_tickets(1,2) [OF run]
  have "hist_flushed (sys_logger st) \<le> hist_flushed lg'" using T(2) cas_parts(4) [OF inv le0] by auto
  then have "ticketed (sum_list next) pc (sys_logger st) \<Longrightarrow> ticketed (sum_list next) pc lg'" for pc
    using T(1) C covered_grows by (auto simp: ticketed_def)
  then have "stage_ok n (sum_list next) stage (st\<lparr>sys_logger := lg', sys_worker := w'\<rparr>)"
    using inv T(1) by (cases stage) (auto simp: cas_inv_def)
  then show ?thesis
    using inv C reach_more [OF _ worker_moves [OF run]] by (simp add: cas_inv_def)
qed

text \<open>After the flush all messages have been written and counted.\<close>

lemma cas_all_written:
  assumes inv: "cas_inv ops hash lg n next Flushed st"
  shows "lg_written (sys_logger st) = of_nat (sum_list next)"
proof -
  let ?l = "sys_logger st" and ?w = "sys_worker st"
  have r: "logger_reach ops hash lg (Suc n) st" using inv by (simp add: cas_inv_def)
  have H: "history_inv ops (lg_sink lg) ?l ?w" and F: "flushed_inv ops (lg_sink lg) ?l"
    using history.reach_parts(1) [OF r TrueI] by blast+
  have "filter early (sys_clients st) = []"
    using inv cas_parts(1) [OF inv order_refl] by (auto simp: filter_empty_conv in_set_conv_nth cas_inv_def early_def less_Suc_eq_le)
  then have all: "length (logs (lg_slots ?l)) = sum_list next" using inv by (simp add: cas_inv_def)
  obtain k where k: "hist_tickets ?l = [k]" "length (logs (take k (lg_slots ?l))) = sum_list next" and c: "covered ?l 1"
    using inv by (auto simp: cas_inv_def ticketed_def)
  then have h: "k < hist_flushed ?l" by (simp add: covered_def ticket_at_def)
  obtain cs ds where cs: "hist_calls ?l = cs @ CallFlush # ds" "writes cs = logs (take (hist_flushed ?l) (lg_slots ?l))"
    using F h by (auto simp: flushed_inv_def)
  have part: "length (logs (take i (lg_slots ?l))) \<le> sum_list next" for i
    using all logs_append [of "take i (lg_slots ?l)" "drop i (lg_slots ?l)"] by simp
  have "take (hist_flushed ?l) (lg_slots ?l) = take k (lg_slots ?l) @ take (hist_flushed ?l - k) (drop k (lg_slots ?l))"
    using h take_add [of k "hist_flushed ?l - k" "lg_slots ?l"] by simp
  then have "sum_list next \<le> length (writes cs)" using k(2) cs(2) by simp
  moreover have "length (writes (hist_calls ?l)) \<le> sum_list next" using H part by (simp add: history_inv_def)
  moreover have "length (writes (hist_calls ?l)) = length (writes cs) + length (writes ds)" using cs(1) by simp
  ultimately have written: "length (writes (hist_calls ?l)) = sum_list next" and "length (writes ds) = 0" by linarith+
  then have none: "writes ds = []" by simp
  have "uncounted ?w = 0"
  proof (cases ?w)
    case (CountWritten place level)
    then obtain es m t where "hist_calls ?l = es @ [CallWrite m t]" using inv by (auto simp: cas_inv_def)
    then have "last (cs @ CallFlush # ds) = CallWrite m t" using cs(1) by (metis last_snoc)
    then have "ds \<noteq> []" "last ds = CallWrite m t" by (auto split: if_splits)
    then have "writes ds \<noteq> []" by (metis append_butlast_last_id writes.simps(2) writes_append append_is_Nil_conv list.distinct(1))
    then show ?thesis using none by simp
  qed simp_all
  moreover have "worker_error ?l ?w = None"
    using inv H by (cases ?w) (auto simp: cas_inv_def history_inv_def)
  ultimately show ?thesis
    using H written history_clean [OF H] by (auto simp: history_inv_def)
qed


lemma cas_log_sure: "sure_call (cas_log t i)"
  using BuildPayload_built [of "[ArgString (MakePayload (int t) (int i))]"] by (auto simp: cas_log_def)

interpretation cas: countable_logger cas_logger "cas_moves ops hash" n "cas_inv ops hash lg n"
  for ops hash n lg
proof unfold_locales
  fix "next" s sys t
  note inv = cas_parts(1)
  {
    fix sys' assume i: "cas_inv ops hash lg n next s sys" and m: "cas_moves ops hash sys sys'"
    from m show "cas_inv ops hash lg n next s sys' \<and> (\<forall>t < n. bl_idle cas_logger t sys \<longrightarrow> bl_idle cas_logger t sys')"
    proof cases
      case (cas_client u spurious now pc' lg')
      then show ?thesis using cas_inv_client [OF i _ cas_client(3)] cas_parts(1) [OF i le0]
        by (auto simp: cas_logger_def nth_list_update)
    next
      case (cas_worker spurious now pc' lg')
      then show ?thesis using cas_inv_worker [OF i] by (auto simp: cas_logger_def)
    qed
  next
    assume i: "cas_inv ops hash lg n next Logging sys" and t: "t < n" "bl_idle cas_logger t sys"
    let ?pc = "StartLoad (cas_log t (next ! t))"
    have l: "length (sys_clients sys) = Suc n" "length next = n" using cas_parts(1) [OF i le0] i by (simp_all add: cas_inv_def)
    have "cas_inv ops hash lg n (next[t := Suc (next ! t)]) Logging (cas_call t ?pc sys)"
    proof (rule cas_inv_call [OF i])
      show "logger_step ops hash sys (cas_call t ?pc sys)"
        unfolding cas_call_def by (rule client_calls) (use t l in \<open>simp_all add: cas_logger_def\<close>)
      show "sum_list (next[t := Suc (next ! t)]) + (if early (sys_clients sys ! t) then 1 else 0) =
          sum_list next + (if early ?pc then 1 else 0)"
        using t l by (simp add: sum_list_update early_def cas_logger_def cas_log_def)
    qed (use i t l cas_log_sure in \<open>simp_all add: cas_inv_def cas_call_def cas_log_def\<close>)
    then show "cas_inv ops hash lg n (next[t := Suc (next ! t)]) Logging (bl_log cas_logger t (next ! t) sys) \<and>
      (\<forall>u < n. u \<noteq> t \<longrightarrow> bl_idle cas_logger u sys \<longrightarrow> bl_idle cas_logger u (bl_log cas_logger t (next ! t) sys))"
      by (simp add: cas_logger_def cas_call_def)
  next
    assume i: "cas_inv ops hash lg n next s sys" and t: "t < n" "bl_returned cas_logger t sys"
    have l: "length (sys_clients sys) = Suc n" "length next = n" using cas_parts(1) [OF i le0] i by (simp_all add: cas_inv_def)
    obtain call b where r: "sys_clients sys ! t \<in> {Returned call b, StopReturned}"
      using t(2) by (cases "sys_clients sys ! t") (auto simp: cas_logger_def)
    have "cas_inv ops hash lg n next s (cas_call t ClientIdle sys)"
    proof (rule cas_inv_call [OF i])
      show "logger_step ops hash sys (cas_call t ClientIdle sys)"
        unfolding cas_call_def by (rule client_returns [OF _ r]) (use t l in simp)
      show "stage_ok n (sum_list next) s (cas_call t ClientIdle sys)"
        using i t l r by (cases s) (auto simp: cas_inv_def cas_call_def nth_list_update)
    qed (use i t l r in \<open>auto simp: cas_inv_def early_def\<close>)
    then show "cas_inv ops hash lg n next s (bl_return cas_logger t sys) \<and>
      (\<forall>u < n. bl_idle cas_logger u sys \<longrightarrow> bl_idle cas_logger u (bl_return cas_logger t sys))"
      using l t by (simp add: cas_logger_def cas_call_def nth_list_update)
  next
    assume i: "cas_inv ops hash lg n next Logging sys" and idle: "\<And>t. t < n \<Longrightarrow> bl_idle cas_logger t sys"
    have l: "length (sys_clients sys) = Suc n" "length next = n" using cas_parts(1) [OF i le0] i by (simp_all add: cas_inv_def)
    have "cas_inv ops hash lg n next Flushing (cas_call n (StartLoad FlushCall) sys)"
    proof (rule cas_inv_call [OF i])
      show "logger_step ops hash sys (cas_call n (StartLoad FlushCall) sys)"
        unfolding cas_call_def by (rule client_calls) (use l i in \<open>simp_all add: cas_inv_def\<close>)
    qed (use i idle l in \<open>simp_all add: cas_inv_def cas_call_def ticketed_def early_def cas_logger_def\<close>)
    then show "cas_inv ops hash lg n next Flushing (bl_flush cas_logger n sys)" by (simp add: cas_logger_def)
  next
    assume i: "cas_inv ops hash lg n next Flushing sys" and r: "bl_returned cas_logger n sys"
    have l: "length (sys_clients sys) = Suc n" "length next = n" using cas_parts(1) [OF i le0] i by (simp_all add: cas_inv_def)
    obtain b where b: "sys_clients sys ! n = Returned FlushCall b"
      using r i by (cases "sys_clients sys ! n") (auto simp: cas_logger_def cas_inv_def)
    have "cas_inv ops hash lg n next Flushed (cas_call n ClientIdle sys)"
    proof (rule cas_inv_call [OF i])
      show "logger_step ops hash sys (cas_call n ClientIdle sys)"
        unfolding cas_call_def by (rule client_returns [where call = FlushCall and b = b]) (use b l in simp_all)
      show "stage_ok n (sum_list next) Flushed (cas_call n ClientIdle sys)"
        using i b l by (auto simp: cas_inv_def cas_call_def nth_list_update ticketed_def)
    qed (use i b l in \<open>simp_all add: cas_inv_def early_def\<close>)
    then show "cas_inv ops hash lg n next Flushed (bl_return cas_logger n sys)" by (simp add: cas_logger_def)
  next
    assume "cas_inv ops hash lg n next Flushed sys"
    then show "bl_written cas_logger sys = of_nat (sum_list next)"
      by (simp add: cas_logger_def cas_written_def Stats_def cas_all_written)
  }
qed


section \<open>The result of the benchmark\<close>

lemma cas_start_inv:
  assumes new: "cas_factory (0, world) = Inr lg" and n: "n < 2 ^ 31"
  shows "cas_inv CountingSink_ops hash lg n (replicate n 0) Logging (logger_start lg (Suc n))"
proof -
  have "(push_bit 15 1 :: u64) = 32768" by code_simp
  then have "fresh_logger lg" using new unfolding fresh_logger_def cas_factory_def
    by (intro exI [of _ "''cas-benchmark''"] exI [of _ "(0, world)"] exI [of _ cas_options]) (simp add: cas_options_def)
  moreover have "never_throws CountingSink_ops"
    by (auto simp: never_throws_def CountingSink_ops_def default_FlushIfDue_def)
  ultimately show ?thesis
    using new n by (auto simp: cas_inv_def logger_reach_def logger_start_def cas_factory_def AsyncLogger_new_def cas_options_def
      steady_def gate_closed_def nth_append early_def sum_list_replicate simp flip: replicate_Suc)
qed

definition cas_do :: "logger_action \<Rightarrow> u64 logger_sys \<Rightarrow> u64 logger_sys" where
  "cas_do a st = (case a of
     Run t \<Rightarrow> logger_run CountingSink_ops (\<lambda>_. 0) [Run t] st
   | RunWorker \<Rightarrow> logger_run CountingSink_ops (\<lambda>_. 0) [RunWorker] st
   | _ \<Rightarrow> st)"

text \<open>
  The logger of \<open>cas_factory\<close>, and one producer with one message.  The capacity of the queue is a parameter
  of the evaluation.
\<close>

definition cas_demo_logger :: "nat \<Rightarrow> u64 AsyncLogger" where
  "cas_demo_logger c =
     \<lparr>lg_name = ''cas-benchmark'', lg_sink = (0, memory_world), lg_slots = [], lg_taken = 0, lg_released = 0,
      lg_capacity = Suc (Suc (Suc c)), lg_overflow_policy = Block, lg_operation_state = 0, lg_level = Info, lg_flush_level = Off,
      lg_wake_signal = 0, lg_flush_request = 0, lg_flush_complete = 0, lg_worker_failed = False,
      lg_enqueued = 0, lg_dropped = 0, lg_written = 0, lg_wake_notified = 0, lg_complete_notified = 0,
      lg_background_failure = None, lg_failure_message = [], lg_worker_finished = False, lg_joined = False,
      hist_calls = [], hist_written = [], hist_tickets = [], hist_flushed = 0\<rparr>"

lemma cas_demo_new: "cas_factory (0, memory_world) = Inr (cas_demo_logger 32765)"
proof -
  have "RoundUpPowerOfTwo (push_bit 15 1 :: u64) = 32768" by code_simp
  then show ?thesis by (simp add: cas_factory_def cas_options_def AsyncLogger_new_def cas_demo_logger_def)
qed

definition cas_demo_schedule :: "logger_action bench_action list" where
  "cas_demo_schedule = [BenchLog 0] @ replicate 12 (BenchMove (Run 0)) @ [BenchReturn 0, BenchMain, BenchMain] @
     replicate 11 (BenchMove (Run 1)) @ replicate 11 (BenchMove RunWorker) @ replicate 3 (BenchMove (Run 1)) @ [BenchMain, BenchMain]"

definition cas_demo :: "nat \<Rightarrow> u64 logger_sys bench" where
  "cas_demo c = fold (bench_do cas_logger cas_do 1) cas_demo_schedule (bench_start (logger_start (cas_demo_logger c) 2) 1)"

lemma cas_demo_at: "bench_at (cas_demo c) = MainStop 1"
  by code_simp

lemma cas_demo_reach:
  "rtranclp (bench_step cas_logger (cas_moves CountingSink_ops (\<lambda>_. 0)) 1)
      (bench_start (logger_start (cas_demo_logger 32765) (Suc 1)) 1) (cas_demo 32765)"
proof -
  have f: "cas_do x sys = sys \<or> cas_moves CountingSink_ops (\<lambda>_. 0) sys (cas_do x sys)" for x sys
    by (cases x) (auto simp: cas_do_def intro: cas_client cas_worker split: prod.splits)
  have two: "Suc 1 = 2" by simp
  show ?thesis unfolding cas_demo_def two
    by (rule bench_run_reach [where f = cas_do and moves = "cas_moves CountingSink_ops (\<lambda>_. 0)", OF f])
qed

end
