(* ===== verification/Mutex_Logger.thy ===== *)
theory Mutex_Logger
  imports Benchmark_Support
begin

text \<open>
  \<open>MutexAsyncLogger\<close> of \<open>examples/benchmark_support.h\<close>, the baseline the benchmarks compare with: a queue
  under a mutex, one worker, and a pair of tickets for \<open>Flush\<close>.  A step is one critical section or
  one access outside the mutex.  \<open>stopping_\<close> is written outside the mutex, so the worker's two looks at it
  in one critical section are two steps, between which the worker holds the mutex.

  A condition variable is a counter of notifications, as in \<open>Async_Logger\<close>.  An exception that
  leaves the worker's thread ends the program.
\<close>

section \<open>The logger\<close>

text \<open>The last two fields are history: the payloads pushed and the calls made on the sink.\<close>

record 's MutexAsyncLogger =
  mx_sink :: "'s \<times> io_world"
  mx_queue :: "string list"
  mx_stopping :: bool
  mx_flush_request :: u64
  mx_flush_complete :: u64
  mx_written :: u64
  mx_notified :: nat
  mx_done_notified :: nat
  mx_finished :: bool
  mx_joined :: bool
  mx_pushed :: "string list"
  mx_calls :: "sink_call list"

definition MutexAsyncLogger_new :: "'s \<times> io_world \<Rightarrow> 's MutexAsyncLogger" where
  "MutexAsyncLogger_new sink =
     \<lparr>mx_sink = sink, mx_queue = [], mx_stopping = False, mx_flush_request = 0, mx_flush_complete = 0,
      mx_written = 0, mx_notified = 0, mx_done_notified = 0, mx_finished = False, mx_joined = False,
      mx_pushed = [], mx_calls = []\<rparr>"

datatype mutex_client =
    MxIdle
  | MxPush string
  | MxNotify
  | MxFlush
  | MxFlushBlocked nat
  | MxStopCas
  | MxStopLock
  | MxStopNotify
  | MxStopJoin
  | MxReturned

text \<open>What follows a batch: the next round, with a flush if the ticket is not zero, or the end.\<close>

datatype batch_end = NextRound u64 | LastRound

datatype mutex_worker =
    MwWait
  | MwBlocked nat
  | MwDecide
  | MwWrite batch_end "string list"
  | MwCount batch_end "string list"
  | MwFlush u64
  | MwComplete u64
  | MwTail
  | MwLastFlush
  | MwDone
  | MwTerminated exn
  | MwUndefined

fun after_batch :: "batch_end \<Rightarrow> mutex_worker" where
  "after_batch (NextRound flush_ticket) = (if flush_ticket \<noteq> 0 then MwFlush flush_ticket else MwWait)"
| "after_batch LastRound = MwLastFlush"

text \<open>The predicate the worker waits for, and the message made of a payload.\<close>

definition mutex_ready :: "'s MutexAsyncLogger \<Rightarrow> bool" where
  "mutex_ready lg \<longleftrightarrow> mx_stopping lg \<or> mx_flush_complete lg < mx_flush_request lg \<or> mx_queue lg \<noteq> []"

definition mutex_message :: "string \<Rightarrow> LogMessage option" where
  "mutex_message payload =
     (case payload_assign payload (msg_payload default_message) of
        None \<Rightarrow> None
      | Some p \<Rightarrow> Some (default_message\<lparr>msg_payload := p\<rparr>))"

definition mutex_called :: "sink_call \<Rightarrow> 's \<times> io_world \<Rightarrow> 's MutexAsyncLogger \<Rightarrow> 's MutexAsyncLogger" where
  "mutex_called c st lg = lg\<lparr>mx_sink := st, mx_calls := mx_calls lg @ [c]\<rparr>"

definition mutex_flush :: "('s \<times> io_world) sink_ops \<Rightarrow> mutex_worker \<Rightarrow> 's MutexAsyncLogger \<Rightarrow> mutex_worker \<times> 's MutexAsyncLogger" where
  "mutex_flush ops next_pc lg =
     (case op_flush ops (mx_sink lg) of
        (Inl e, st) \<Rightarrow> (MwTerminated e, mutex_called CallFlush st lg)
      | (Inr _, st) \<Rightarrow> (next_pc, mutex_called CallFlush st lg))"

text \<open>\<open>held\<close> says that the worker holds the mutex, \<open>spurious\<close> wakes a blocked thread.\<close>

fun mutex_client_step :: "bool \<Rightarrow> bool \<Rightarrow> mutex_client \<Rightarrow> 's MutexAsyncLogger \<Rightarrow> mutex_client \<times> 's MutexAsyncLogger" where
  "mutex_client_step held spurious (MxPush payload) lg =
     (if held then (MxPush payload, lg)
      else (MxNotify, lg\<lparr>mx_queue := mx_queue lg @ [payload], mx_pushed := mx_pushed lg @ [payload]\<rparr>))"
| "mutex_client_step held spurious MxNotify lg = (MxReturned, lg\<lparr>mx_notified := mx_notified lg + 1\<rparr>)"
| "mutex_client_step held spurious MxFlush lg =
     (if held then (MxFlush, lg)
      else (if mx_flush_request lg + 1 \<le> mx_flush_complete lg then MxReturned else MxFlushBlocked (mx_done_notified lg),
            lg\<lparr>mx_flush_request := mx_flush_request lg + 1, mx_notified := mx_notified lg + 1\<rparr>))"
| "mutex_client_step held spurious (MxFlushBlocked seen) lg =
     (if held \<or> mx_done_notified lg = seen \<and> \<not> spurious then MxFlushBlocked seen
      else if mx_flush_request lg \<le> mx_flush_complete lg then MxReturned
      else MxFlushBlocked (mx_done_notified lg), lg)"
| "mutex_client_step held spurious MxStopCas lg =
     (if mx_stopping lg then (MxStopJoin, lg) else (MxStopLock, lg\<lparr>mx_stopping := True\<rparr>))"
| "mutex_client_step held spurious MxStopLock lg = (if held then MxStopLock else MxStopNotify, lg)"
| "mutex_client_step held spurious MxStopNotify lg = (MxStopJoin, lg\<lparr>mx_notified := mx_notified lg + 1\<rparr>)"
| "mutex_client_step held spurious MxStopJoin lg =
     (if mx_joined lg then (MxReturned, lg)
      else if mx_finished lg then (MxReturned, lg\<lparr>mx_joined := True\<rparr>)
      else (MxStopJoin, lg))"
| "mutex_client_step held spurious pc lg = (pc, lg)"

fun mutex_worker_step ::
  "('s \<times> io_world) sink_ops \<Rightarrow> bool \<Rightarrow> int \<Rightarrow> mutex_worker \<Rightarrow> 's MutexAsyncLogger \<Rightarrow> mutex_worker \<times> 's MutexAsyncLogger" where
  "mutex_worker_step ops spurious now MwWait lg = (if mutex_ready lg then MwDecide else MwBlocked (mx_notified lg), lg)"
| "mutex_worker_step ops spurious now (MwBlocked seen) lg =
     (if mx_notified lg \<noteq> seen \<or> spurious then MwWait else MwBlocked seen, lg)"
| "mutex_worker_step ops spurious now MwDecide lg =
     (if mx_queue lg = [] \<and> mx_stopping lg then (MwTail, lg)
      else (MwWrite (NextRound (if mx_flush_complete lg < mx_flush_request lg then mx_flush_request lg else 0)) (mx_queue lg),
            lg\<lparr>mx_queue := []\<rparr>))"
| "mutex_worker_step ops spurious now (MwWrite e []) lg = (after_batch e, lg)"
| "mutex_worker_step ops spurious now (MwWrite e (payload # batch)) lg =
     (case mutex_message payload of
        None \<Rightarrow> (MwUndefined, lg)
      | Some m \<Rightarrow>
          (case op_write ops m (set_clock now (mx_sink lg)) of
             (Inl x, st) \<Rightarrow> (MwTerminated x, mutex_called (CallWrite m now) st lg)
           | (Inr _, st) \<Rightarrow> (MwCount e batch, mutex_called (CallWrite m now) st lg)))"
| "mutex_worker_step ops spurious now (MwCount e batch) lg = (MwWrite e batch, lg\<lparr>mx_written := mx_written lg + 1\<rparr>)"
| "mutex_worker_step ops spurious now (MwFlush flush_ticket) lg = mutex_flush ops (MwComplete flush_ticket) lg"
| "mutex_worker_step ops spurious now (MwComplete flush_ticket) lg =
     (MwWait, lg\<lparr>mx_flush_complete := flush_ticket, mx_done_notified := mx_done_notified lg + 1\<rparr>)"
| "mutex_worker_step ops spurious now MwTail lg = (MwWrite LastRound (mx_queue lg), lg\<lparr>mx_queue := []\<rparr>)"
| "mutex_worker_step ops spurious now MwLastFlush lg =
     (case mutex_flush ops MwDone lg of
        (MwDone, lg') \<Rightarrow> (MwDone, lg'\<lparr>mx_finished := True\<rparr>)
      | (pc, lg') \<Rightarrow> (pc, lg'))"
| "mutex_worker_step ops spurious now pc lg = (pc, lg)"

record 's mutex_sys =
  ms_logger :: "'s MutexAsyncLogger"
  ms_worker :: mutex_worker
  ms_clients :: "mutex_client list"

inductive mutex_step :: "('s \<times> io_world) sink_ops \<Rightarrow> 's mutex_sys \<Rightarrow> 's mutex_sys \<Rightarrow> bool" for ops where
  mutex_call: "t < length (ms_clients st) \<Longrightarrow> ms_clients st ! t = MxIdle \<Longrightarrow> pc' \<in> {MxPush payload, MxFlush, MxStopCas} \<Longrightarrow>
    mutex_step ops st (st\<lparr>ms_clients := (ms_clients st)[t := pc']\<rparr>)"
| mutex_client_moves: "t < length (ms_clients st) \<Longrightarrow>
    mutex_client_step (ms_worker st = MwDecide) spurious (ms_clients st ! t) (ms_logger st) = (pc', lg') \<Longrightarrow>
    mutex_step ops st (st\<lparr>ms_logger := lg', ms_clients := (ms_clients st)[t := pc']\<rparr>)"
| mutex_return: "t < length (ms_clients st) \<Longrightarrow> ms_clients st ! t = MxReturned \<Longrightarrow>
    mutex_step ops st (st\<lparr>ms_clients := (ms_clients st)[t := MxIdle]\<rparr>)"
| mutex_worker_moves: "mutex_worker_step ops spurious now (ms_worker st) (ms_logger st) = (pc', lg') \<Longrightarrow>
    mutex_step ops st (st\<lparr>ms_logger := lg', ms_worker := pc'\<rparr>)"

definition mutex_start :: "'s \<times> io_world \<Rightarrow> nat \<Rightarrow> 's mutex_sys" where
  "mutex_start sink n = \<lparr>ms_logger = MutexAsyncLogger_new sink, ms_worker = MwWait, ms_clients = replicate n MxIdle\<rparr>"

section \<open>The order of the writes\<close>

definition message_text :: "LogMessage \<Rightarrow> string" where
  "message_text m = payload_text (msg_payload m)"

lemma mutex_message_text: "\<exists>m. mutex_message payload = Some m \<and> message_text m = payload"
proof -
  have "payload_inv (msg_payload default_message)" by (simp add: default_message_def)
  from payload_assign_ok [OF this, of payload] obtain p
    where "payload_assign payload (msg_payload default_message) = Some p" "payload_text p = payload" by metis
  then show ?thesis by (simp add: mutex_message_def message_text_def)
qed

text \<open>The part of the batch in the worker's hands that has not been written.\<close>

fun unwritten :: "mutex_worker \<Rightarrow> string list" where
  "unwritten (MwWrite e batch) = batch"
| "unwritten (MwCount e batch) = batch"
| "unwritten _ = []"

fun is_terminated :: "mutex_worker \<Rightarrow> bool" where
  "is_terminated (MwTerminated x) \<longleftrightarrow> True"
| "is_terminated _ \<longleftrightarrow> False"

definition texts_written :: "'s MutexAsyncLogger \<Rightarrow> string list" where
  "texts_written lg = map message_text (writes (mx_calls lg))"

definition mutex_inv :: "'s MutexAsyncLogger \<Rightarrow> mutex_worker \<Rightarrow> bool" where
  "mutex_inv lg w \<longleftrightarrow> w \<noteq> MwUndefined \<and> prefix (texts_written lg) (mx_pushed lg) \<and>
     (\<not> is_terminated w \<longrightarrow> texts_written lg @ unwritten w @ mx_queue lg = mx_pushed lg \<and>
        mx_written lg + (case w of MwCount e batch \<Rightarrow> 1 | _ \<Rightarrow> 0) = of_nat (length (texts_written lg))) \<and>
     (w = MwDone \<longrightarrow> (\<exists>cs. mx_calls lg = cs @ [CallFlush])) \<and> (mx_finished lg \<longrightarrow> w = MwDone)"

text \<open>A blocked worker that should go on has been notified, or a client is about to notify it.\<close>

fun about_to_notify :: "mutex_client \<Rightarrow> bool" where
  "about_to_notify MxNotify \<longleftrightarrow> True"
| "about_to_notify MxStopLock \<longleftrightarrow> True"
| "about_to_notify MxStopNotify \<longleftrightarrow> True"
| "about_to_notify _ \<longleftrightarrow> False"

fun wake_inv :: "'s MutexAsyncLogger \<Rightarrow> mutex_worker \<Rightarrow> mutex_client list \<Rightarrow> bool" where
  "wake_inv lg (MwBlocked seen) cs \<longleftrightarrow> seen \<le> mx_notified lg \<and>
     (mutex_ready lg \<longrightarrow> seen < mx_notified lg \<or> list_ex about_to_notify cs)"
| "wake_inv lg w cs \<longleftrightarrow> True"

lemma texts_written_simps [simp]:
  "texts_written (mutex_called (CallWrite m t) st lg) = texts_written lg @ [message_text m]"
  "texts_written (mutex_called CallFlush st lg) = texts_written lg"
  by (simp_all add: texts_written_def mutex_called_def)

lemma mutex_called_fields [simp]:
  "mx_queue (mutex_called c st lg) = mx_queue lg" "mx_pushed (mutex_called c st lg) = mx_pushed lg"
  "mx_written (mutex_called c st lg) = mx_written lg" "mx_finished (mutex_called c st lg) = mx_finished lg"
  "mx_calls (mutex_called c st lg) = mx_calls lg @ [c]"
  by (simp_all add: mutex_called_def)

lemma texts_written_cong: "mx_calls lg' = mx_calls lg \<Longrightarrow> texts_written lg' = texts_written lg"
  by (simp add: texts_written_def)

lemma mutex_client_keeps:
  assumes "mutex_inv lg w" and "mutex_client_step held spurious pc lg = (pc', lg')"
  shows "mutex_inv lg' w"
proof -
  have "mx_calls lg' = mx_calls lg" "mx_written lg' = mx_written lg" "mx_finished lg' = mx_finished lg"
    "\<exists>ps. mx_pushed lg' = mx_pushed lg @ ps \<and> mx_queue lg' = mx_queue lg @ ps"
    using assms(2) by (cases pc; auto split: if_splits)+
  with assms(1) texts_written_cong [of lg' lg] show ?thesis
    by (auto simp: mutex_inv_def prefix_def)
qed

lemma mutex_worker_keeps:
  assumes inv: "mutex_inv lg w" and run: "mutex_worker_step ops spurious now w lg = (w', lg')"
  shows "mutex_inv lg' w'"
proof (cases w)
  case (MwWrite e batch)
  show ?thesis
  proof (cases batch)
    case Nil
    have "unwritten (after_batch e) = []" "\<not> is_terminated (after_batch e)" "after_batch e \<notin> {MwUndefined, MwDone}"
      "(case after_batch e of MwCount e batch \<Rightarrow> 1 | _ \<Rightarrow> 0) = (0 :: u64)"
      by (cases e; simp)+
    then show ?thesis using inv run MwWrite Nil by (auto simp: mutex_inv_def)
  next
    case (Cons payload rest)
    obtain m where m: "mutex_message payload = Some m" "message_text m = payload" using mutex_message_text by blast
    have "texts_written lg @ payload # rest @ mx_queue lg = mx_pushed lg" "mx_written lg = of_nat (length (texts_written lg))"
      "\<not> mx_finished lg" using inv MwWrite Cons by (auto simp: mutex_inv_def)
    moreover from this(1) have "prefix (texts_written lg @ [payload]) (mx_pushed lg)"
      by (intro prefixI [of _ _ "rest @ mx_queue lg"]) simp
    ultimately show ?thesis
      using run MwWrite Cons m by (auto simp: mutex_inv_def split: prod.splits sum.splits)
  qed
qed (use inv run in \<open>auto simp: mutex_inv_def mutex_flush_def texts_written_def split: if_splits prod.splits sum.splits\<close>)


lemma wake_client:
  assumes inv: "wake_inv lg w cs" and t: "t < length cs" "cs ! t = pc"
    and run: "mutex_client_step (w = MwDecide) spurious pc lg = (pc', lg')"
  shows "wake_inv lg' w (cs[t := pc'])"
proof (cases w)
  case (MwBlocked seen)
  have upd: "list_ex about_to_notify (cs[t := pc'])" if "about_to_notify pc'"
    using that t set_update_memI [of t cs pc'] by (auto simp: list_ex_iff)
  have keep: "list_ex about_to_notify (cs[t := pc'])" if "list_ex about_to_notify cs" "\<not> about_to_notify pc"
    using that t by (auto simp: list_ex_length nth_list_update)
  show ?thesis
    using inv run MwBlocked upd keep by (cases pc) (auto simp: mutex_ready_def split: if_splits)
qed simp_all

lemma wake_worker:
  assumes "mutex_worker_step ops spurious now w lg = (w', lg')" and "wake_inv lg w cs"
  shows "wake_inv lg' w' cs"
proof -
  have "wake_inv l (after_batch e) cs" for l :: "'a MutexAsyncLogger" and e by (cases e) simp_all
  then show ?thesis
    using assms by (cases "(ops, spurious, now, w, lg)" rule: mutex_worker_step.cases)
      (auto simp: mutex_flush_def split: if_splits prod.splits sum.splits option.splits)
qed

lemma wake_other: "wake_inv lg w cs \<Longrightarrow> t < length cs \<Longrightarrow> \<not> about_to_notify (cs ! t) \<Longrightarrow> wake_inv lg w (cs[t := c])"
  by (cases w) (auto simp: list_ex_length nth_list_update)

definition mutex_reach :: "('s \<times> io_world) sink_ops \<Rightarrow> 's \<times> io_world \<Rightarrow> nat \<Rightarrow> 's mutex_sys \<Rightarrow> bool" where
  "mutex_reach ops sink n st \<longleftrightarrow> rtranclp (mutex_step ops) (mutex_start sink n) st"

lemma mutex_reach_inv:
  assumes "mutex_reach ops sink n st"
  shows "mutex_inv (ms_logger st) (ms_worker st) \<and> wake_inv (ms_logger st) (ms_worker st) (ms_clients st)"
  using assms unfolding mutex_reach_def
proof (induction rule: rtranclp_induct)
  case base
  show ?case by (simp add: mutex_start_def mutex_inv_def MutexAsyncLogger_new_def texts_written_def)
next
  case (step st st')
  from step(2) step(3) show ?case
  proof cases
    case (mutex_client_moves t spurious pc' lg')
    then show ?thesis using step(3) mutex_client_keeps wake_client [OF _ _ refl] by fastforce
  next
    case (mutex_worker_moves spurious now pc' lg')
    then show ?thesis using step(3) mutex_worker_keeps wake_worker by fastforce
  qed (auto intro!: wake_other)
qed

section \<open>Particular schedules\<close>

datatype mutex_action = MxCall nat mutex_client | MxRun nat | MxRunWorker

fun mutex_run :: "('s \<times> io_world) sink_ops \<Rightarrow> mutex_action list \<Rightarrow> 's mutex_sys \<Rightarrow> 's mutex_sys" where
  "mutex_run ops [] st = st"
| "mutex_run ops (MxCall t c # as) st = mutex_run ops as
     (if t < length (ms_clients st) \<and> ms_clients st ! t = MxIdle \<and> (case c of MxPush p \<Rightarrow> True | MxFlush \<Rightarrow> True | MxStopCas \<Rightarrow> True | _ \<Rightarrow> False)
      then st\<lparr>ms_clients := (ms_clients st)[t := c]\<rparr> else st)"
| "mutex_run ops (MxRun t # as) st = mutex_run ops as
     (if t < length (ms_clients st)
      then (case mutex_client_step (ms_worker st = MwDecide) False (ms_clients st ! t) (ms_logger st) of
        (pc', lg') \<Rightarrow> st\<lparr>ms_logger := lg', ms_clients := (ms_clients st)[t := pc']\<rparr>) else st)"
| "mutex_run ops (MxRunWorker # as) st = mutex_run ops as
     (case mutex_worker_step ops False 0 (ms_worker st) (ms_logger st) of (pc', lg') \<Rightarrow> st\<lparr>ms_logger := lg', ms_worker := pc'\<rparr>)"

lemma mutex_run_reach: "rtranclp (mutex_step ops) st (mutex_run ops as st)"
proof (induction as arbitrary: st)
  case (Cons a as)
  have go: "rtranclp (mutex_step ops) st (mutex_run ops as st')" if "st' = st \<or> mutex_step ops st st'" for st'
    using that Cons [of st'] by (auto intro: converse_rtranclp_into_rtranclp)
  show ?case
  proof (cases a)
    case (MxCall t c)
    then show ?thesis
      by (simp only: mutex_run.simps, intro go) (auto intro: mutex_call split: mutex_client.splits)
  next
    case (MxRun t)
    then show ?thesis by (simp only: mutex_run.simps, intro go) (auto intro: mutex_client_moves split: prod.splits)
  next
    case MxRunWorker
    then show ?thesis by (simp only: mutex_run.simps, intro go) (auto intro: mutex_worker_moves split: prod.splits)
  qed
qed simp

text \<open>A payload is pushed and written, then the logger is stopped.\<close>

definition mutex_demo :: "u64 mutex_sys" where
  "mutex_demo = mutex_run CountingSink_ops
     ([MxCall 0 (MxPush ''a''), MxRun 0, MxRun 0] @ replicate 5 MxRunWorker @ [MxCall 1 MxStopCas, MxRun 1, MxRun 1, MxRun 1] @
      replicate 5 MxRunWorker @ [MxRun 1])
     (mutex_start (0, memory_world) 2)"

definition mutex_view :: "u64 mutex_sys \<Rightarrow> mutex_worker \<times> mutex_client list \<times> nat \<times> u64 \<times> u64 \<times> bool" where
  "mutex_view st = (ms_worker st, ms_clients st, length (mx_pushed (ms_logger st)), fst (mx_sink (ms_logger st)),
     mx_flush_request (ms_logger st) - mx_flush_complete (ms_logger st), mx_joined (ms_logger st))"

lemma mutex_demo_view: "mutex_view mutex_demo = (MwDone, [MxReturned, MxReturned], 1, 1, 0, True)"
  by code_simp

text \<open>
  C35. The baseline writes in the order of the pushes.  In every interleaving the payloads handed to the sink
  are those pushed first, in order; as long as no exception has left the worker, those pushed are the ones
  written, those of the batch in its hands and those in the queue, and the counter is exact.  When the
  worker has ended, the last call on the sink was a flush, and what is still in the queue was pushed
  after the last look and is never written.  A blocked worker that has something to do has been
  notified, or a client is about to notify it.
\<close>

theorem mutex_logger_order:
  assumes "mutex_reach ops sink n st"
  shows "prefix (texts_written (ms_logger st)) (mx_pushed (ms_logger st)) \<and> ms_worker st \<noteq> MwUndefined \<and>
    (\<not> is_terminated (ms_worker st) \<longrightarrow>
       mx_pushed (ms_logger st) = texts_written (ms_logger st) @ unwritten (ms_worker st) @ mx_queue (ms_logger st)) \<and>
    (ms_worker st = MwDone \<longrightarrow> mx_pushed (ms_logger st) = texts_written (ms_logger st) @ mx_queue (ms_logger st) \<and>
       mx_written (ms_logger st) = of_nat (length (texts_written (ms_logger st))) \<and>
       (\<exists>cs. mx_calls (ms_logger st) = cs @ [CallFlush])) \<and>
    (\<forall>seen. ms_worker st = MwBlocked seen \<and> mutex_ready (ms_logger st) \<longrightarrow>
       seen \<noteq> mx_notified (ms_logger st) \<or> list_ex about_to_notify (ms_clients st))"
  using mutex_reach_inv [OF assms] by (auto simp: mutex_inv_def)

theorem mutex_logger_order_witness:
  "mx_pushed (ms_logger mutex_demo) = texts_written (ms_logger mutex_demo) @ mx_queue (ms_logger mutex_demo) \<and>
    length (mx_pushed (ms_logger mutex_demo)) = 1"
proof -
  let ?sink = "(0 :: u64, memory_world)"
  have "mutex_reach CountingSink_ops ?sink 2 mutex_demo"
    unfolding mutex_reach_def mutex_demo_def by (rule mutex_run_reach)
  from mutex_logger_order [OF this] mutex_demo_view show ?thesis by (simp add: mutex_view_def)
qed

text \<open>
  A call of \<open>Flush\<close> that is waiting when \<open>Stop\<close> is called may wait for ever: the worker looks at \<open>stopping_\<close>
  before it looks at the tickets, so with an empty queue it ends without completing the ticket.  No
  thread can move any more, and a spurious wakeup sends the caller back to sleep.
\<close>

definition mutex_hang :: "u64 mutex_sys" where
  "mutex_hang = mutex_run CountingSink_ops
     ([MxCall 0 MxFlush, MxRun 0, MxCall 1 MxStopCas, MxRun 1] @ replicate 6 MxRunWorker @ replicate 3 (MxRun 1))
     (mutex_start (0, memory_world) 2)"

lemma mutex_hang_view: "mutex_view mutex_hang = (MwDone, [MxFlushBlocked 0, MxReturned], 0, 0, 1, True)"
  by code_simp

lemma mutex_hang_tickets:
  "(mx_flush_request (ms_logger mutex_hang), mx_flush_complete (ms_logger mutex_hang), mx_done_notified (ms_logger mutex_hang)) = (1, 0, 0)"
  by code_simp

theorem mutex_flush_waits_for_ever:
  "ms_worker mutex_hang = MwDone \<and> ms_clients mutex_hang = [MxFlushBlocked 0, MxReturned] \<and> mx_joined (ms_logger mutex_hang) \<and>
    mutex_client_step False spurious (MxFlushBlocked 0) (ms_logger mutex_hang) = (MxFlushBlocked 0, ms_logger mutex_hang) \<and>
    mutex_worker_step CountingSink_ops spurious now MwDone (ms_logger mutex_hang) = (MwDone, ms_logger mutex_hang)"
  using mutex_hang_view mutex_hang_tickets by (simp add: mutex_view_def)

end
