(* ===== verification/Benchmark_Mutex.thy ===== *)
theory Benchmark_Mutex
  imports Benchmark_Run Mutex_Logger
begin

text \<open>
  The benchmark of \<open>MutexAsyncLogger\<close> in \<open>examples/compare_benchmark.cpp\<close>: the functions \<open>mutex_factory\<close>,
  \<open>mutex_log\<close>, \<open>mutex_flush\<close> and \<open>mutex_written\<close>, and the proof that this logger, too, can be measured.
\<close>

section \<open>The functions given to \<open>RunBenchmark\<close>\<close>

definition mutex_factory :: "u64 \<times> io_world \<Rightarrow> nat \<Rightarrow> u64 mutex_sys" where
  "mutex_factory sink threads = mutex_start sink threads"

definition mutex_call :: "nat \<Rightarrow> mutex_client \<Rightarrow> 's mutex_sys \<Rightarrow> 's mutex_sys" where
  "mutex_call t pc st = st\<lparr>ms_clients := (ms_clients st)[t := pc]\<rparr>"

definition mutex_bench :: "'s mutex_sys bench_logger" where
  "mutex_bench =
     \<lparr>bl_idle = (\<lambda>t st. ms_clients st ! t = MxIdle),
      bl_log = (\<lambda>t i. mutex_call t (MxPush (MakePayload (int t) (int i)))),
      bl_flush = (\<lambda>t. mutex_call t MxFlush),
      bl_stop = (\<lambda>t. mutex_call t MxStopCas),
      bl_returned = (\<lambda>t st. ms_clients st ! t = MxReturned),
      bl_return = (\<lambda>t. mutex_call t MxIdle),
      bl_written = (\<lambda>st. mx_written (ms_logger st))\<rparr>"

text \<open>What goes on inside the logger.\<close>

inductive mutex_moves :: "('s \<times> io_world) sink_ops \<Rightarrow> 's mutex_sys \<Rightarrow> 's mutex_sys \<Rightarrow> bool" for ops where
  mutex_client: "t < length (ms_clients st) \<Longrightarrow>
    mutex_client_step (ms_worker st = MwDecide) spurious (ms_clients st ! t) (ms_logger st) = (pc', lg') \<Longrightarrow>
    mutex_moves ops st (st\<lparr>ms_logger := lg', ms_clients := (ms_clients st)[t := pc']\<rparr>)"
| mutex_worker: "mutex_worker_step ops spurious now (ms_worker st) (ms_logger st) = (pc', lg') \<Longrightarrow>
    mutex_moves ops st (st\<lparr>ms_logger := lg', ms_worker := pc'\<rparr>)"

section \<open>The ticket of the flush\<close>

text \<open>The ticket in the worker's hands, and what holds while nobody has called \<open>Stop\<close> and \<open>Flush\<close> has been called once at most.\<close>

fun ticket_of :: "mutex_worker \<Rightarrow> u64" where
  "ticket_of (MwWrite (NextRound k) batch) = k"
| "ticket_of (MwCount (NextRound k) batch) = k"
| "ticket_of (MwFlush k) = k"
| "ticket_of (MwComplete k) = k"
| "ticket_of _ = 0"

fun in_rounds :: "mutex_worker \<Rightarrow> bool" where
  "in_rounds (MwWrite e batch) \<longleftrightarrow> e \<noteq> LastRound"
| "in_rounds (MwCount e batch) \<longleftrightarrow> e \<noteq> LastRound"
| "in_rounds (MwFlush k) \<longleftrightarrow> k \<noteq> 0"
| "in_rounds (MwComplete k) \<longleftrightarrow> k \<noteq> 0"
| "in_rounds w \<longleftrightarrow> w = MwWait \<or> w = MwDecide \<or> (\<exists>seen. w = MwBlocked seen)"

fun waiting :: "mutex_worker \<Rightarrow> bool" where
  "waiting MwWait \<longleftrightarrow> True"
| "waiting (MwBlocked seen) \<longleftrightarrow> True"
| "waiting _ \<longleftrightarrow> False"

definition one_flush :: "'s MutexAsyncLogger \<Rightarrow> mutex_worker \<Rightarrow> bool" where
  "one_flush lg w \<longleftrightarrow> \<not> mx_stopping lg \<and> in_rounds w \<and> mutex_inv lg w \<and>
     mx_flush_request lg \<in> {0, 1} \<and> mx_flush_complete lg \<in> {0, mx_flush_request lg} \<and> ticket_of w \<in> {0, mx_flush_request lg} \<and>
     (ticket_of w \<noteq> 0 \<longrightarrow> mx_queue lg = [] \<and> mx_flush_complete lg = 0) \<and>
     (mx_flush_complete lg \<noteq> 0 \<longrightarrow> mx_queue lg = [] \<and> waiting w)"

lemma one_flush_worker:
  assumes inv: "one_flush lg w" and run: "mutex_worker_step CountingSink_ops spurious now w lg = (w', lg')"
  shows "one_flush lg' w' \<and> mx_pushed lg' = mx_pushed lg \<and> mx_flush_request lg' = mx_flush_request lg \<and>
    (mx_flush_complete lg \<noteq> 0 \<longrightarrow> mx_flush_complete lg' = mx_flush_complete lg)"
proof -
  have keep: "mutex_inv lg' w'" using inv mutex_worker_keeps [OF _ run] by (simp add: one_flush_def)
  show ?thesis
  proof (cases w)
    case (MwWrite e batch)
    obtain k where e: "e = NextRound k" using inv MwWrite by (cases e) (auto simp: one_flush_def)
    show ?thesis
    proof (cases batch)
      case Nil
      then show ?thesis using inv run keep MwWrite e by (auto simp: one_flush_def)
    next
      case (Cons p rest)
      obtain m where "mutex_message p = Some m" using mutex_message_text by blast
      then show ?thesis using inv run keep MwWrite Cons e
        by (auto simp: one_flush_def CountingSink_ops_def mutex_called_def set_clock_def split: prod.splits)
    qed
  next
    case (MwCount e batch)
    then show ?thesis using inv run keep by (cases e) (auto simp: one_flush_def)
  next
    case MwDecide
    have "(0 :: u64) < 1" by simp
    then show ?thesis using inv run keep MwDecide by (auto simp: one_flush_def split: if_splits)
  next
    case MwWait
    then show ?thesis using inv run keep by (auto simp: one_flush_def mutex_ready_def split: if_splits)
  qed (use inv run keep in \<open>auto simp: one_flush_def CountingSink_ops_def mutex_flush_def mutex_called_def split: if_splits prod.splits\<close>)
qed

section \<open>The contract\<close>

fun pushing :: "mutex_client \<Rightarrow> bool" where
  "pushing (MxPush p) \<longleftrightarrow> True"
| "pushing _ \<longleftrightarrow> False"

fun producer_pc :: "mutex_client \<Rightarrow> bool" where
  "producer_pc MxIdle \<longleftrightarrow> True"
| "producer_pc (MxPush p) \<longleftrightarrow> True"
| "producer_pc MxNotify \<longleftrightarrow> True"
| "producer_pc MxReturned \<longleftrightarrow> True"
| "producer_pc _ \<longleftrightarrow> False"

fun mutex_stage :: "nat \<Rightarrow> bench_stage \<Rightarrow> 's mutex_sys \<Rightarrow> bool" where
  "mutex_stage n Logging st \<longleftrightarrow> ms_clients st ! n = MxIdle \<and> mx_flush_request (ms_logger st) = 0"
| "mutex_stage n Flushing st \<longleftrightarrow> (\<forall>t < n. ms_clients st ! t = MxIdle) \<and>
     (case ms_clients st ! n of
        MxFlush \<Rightarrow> mx_flush_request (ms_logger st) = 0
      | MxFlushBlocked seen \<Rightarrow> mx_flush_request (ms_logger st) = 1
      | MxReturned \<Rightarrow> mx_flush_complete (ms_logger st) = 1
      | _ \<Rightarrow> False)"
| "mutex_stage n Flushed st \<longleftrightarrow> (\<forall>t < n. ms_clients st ! t = MxIdle) \<and> ms_clients st ! n = MxIdle \<and>
     mx_flush_complete (ms_logger st) = 1"

definition mutex_inv_at :: "nat \<Rightarrow> nat list \<Rightarrow> bench_stage \<Rightarrow> 's mutex_sys \<Rightarrow> bool" where
  "mutex_inv_at n next s st \<longleftrightarrow> length (ms_clients st) = Suc n \<and> length next = n \<and>
     one_flush (ms_logger st) (ms_worker st) \<and> (\<forall>t < n. producer_pc (ms_clients st ! t)) \<and> mutex_stage n s st \<and>
     length (mx_pushed (ms_logger st)) + length (filter pushing (ms_clients st)) = sum_list next"

lemma filter_update:
  "t < length xs \<Longrightarrow> length (filter P (xs[t := x])) + (if P (xs ! t) then 1 else 0) = length (filter P xs) + (if P x then 1 else 0)"
proof (induction xs arbitrary: t)
  case (Cons y ys)
  then show ?case by (cases t) auto
qed simp

lemma mutex_stage_worker:
  assumes "mutex_stage n s st" and "mx_flush_request lg' = mx_flush_request (ms_logger st)"
    and "mx_flush_complete (ms_logger st) \<noteq> 0 \<longrightarrow> mx_flush_complete lg' = mx_flush_complete (ms_logger st)"
  shows "mutex_stage n s (st\<lparr>ms_logger := lg', ms_worker := w\<rparr>)"
  using assms by (cases s) (auto split: mutex_client.splits)

lemma one_flush_quiet:
  assumes "one_flush lg w" and "mx_flush_request lg = 0" and "mutex_inv lg' w"
    and "mx_stopping lg' = mx_stopping lg" and "mx_flush_request lg' = mx_flush_request lg" and "mx_flush_complete lg' = mx_flush_complete lg"
  shows "one_flush lg' w"
  using assms by (simp add: one_flush_def)

lemma mutex_same: "ms_clients st ! t = pc \<Longrightarrow> st\<lparr>ms_logger := ms_logger st, ms_clients := (ms_clients st)[t := pc]\<rparr> = st"
  using list_update_id [of "ms_clients st" t] by simp

lemma mutex_producer_moves:
  assumes inv: "mutex_inv_at n next s st" and t: "t < n"
    and run: "mutex_client_step held spurious (ms_clients st ! t) (ms_logger st) = (pc', lg')"
  shows "mutex_inv_at n next s (st\<lparr>ms_logger := lg', ms_clients := (ms_clients st)[t := pc']\<rparr>) \<and> (ms_clients st ! t = MxIdle \<longrightarrow> pc' = MxIdle)"
proof -
  let ?pc = "ms_clients st ! t" and ?lg = "ms_logger st" and ?cs = "ms_clients st"
  have l: "length ?cs = Suc n" "producer_pc ?pc" using inv t by (auto simp: mutex_inv_at_def)
  have count: "length (filter pushing (?cs[t := pc'])) + (if pushing ?pc then 1 else 0) = length (filter pushing ?cs) + (if pushing pc' then 1 else 0)"
    using filter_update [of t ?cs pushing pc'] t l(1) by simp
  have keep: "mutex_inv lg' (ms_worker st)"
    using inv mutex_client_keeps [OF _ run] by (auto simp: mutex_inv_at_def one_flush_def)
  show ?thesis
  proof (cases "?pc = MxIdle")
    case True
    then have "pc' = MxIdle" "lg' = ms_logger st" using run by simp_all
    then show ?thesis using inv mutex_same [OF True] by simp
  next
    case False
    then have s: "s = Logging" using inv t by (cases s) (auto simp: mutex_inv_at_def)
    then have r: "mx_flush_request (ms_logger st) = 0" "length next = n" "one_flush (ms_logger st) (ms_worker st)" "?cs ! n = MxIdle"
      "\<forall>t < n. producer_pc (?cs ! t)" "length (mx_pushed (ms_logger st)) + length (filter pushing ?cs) = sum_list next"
      using inv by (simp_all add: mutex_inv_at_def)
    have "producer_pc pc' \<and> pc' \<noteq> MxIdle \<and> one_flush lg' (ms_worker st) \<and> mx_flush_request lg' = 0 \<and>
        length (mx_pushed lg') + (if pushing pc' then 1 else 0) = length (mx_pushed (ms_logger st)) + (if pushing ?pc then 1 else 0)"
      using run l(2) False r(1) one_flush_quiet [OF r(3,1) keep] by (cases ?pc; cases held) auto
    then show ?thesis using t l(1) count False s r by (auto simp: mutex_inv_at_def nth_list_update)
  qed
qed

lemma mutex_main_moves:
  assumes inv: "mutex_inv_at n next s st"
    and run: "mutex_client_step held spurious (ms_clients st ! n) (ms_logger st) = (pc', lg')"
  shows "mutex_inv_at n next s (st\<lparr>ms_logger := lg', ms_clients := (ms_clients st)[n := pc']\<rparr>)"
proof -
  let ?pc = "ms_clients st ! n" and ?cs = "ms_clients st"
  have l: "length ?cs = Suc n" using inv by (simp add: mutex_inv_at_def)
  have count: "length (filter pushing (?cs[n := pc'])) + (if pushing ?pc then 1 else 0) = length (filter pushing ?cs) + (if pushing pc' then 1 else 0)"
    using filter_update [of n ?cs pushing pc'] l by simp
  have keep: "mutex_inv lg' (ms_worker st)"
    using inv mutex_client_keeps [OF _ run] by (auto simp: mutex_inv_at_def one_flush_def)
  have idle: "?pc = MxIdle" if "s \<noteq> Flushing" using inv that by (cases s) (auto simp: mutex_inv_at_def)
  show ?thesis
  proof (cases "s = Flushing")
    case True
    have "?pc = MxFlush \<or> (\<exists>seen. ?pc = MxFlushBlocked seen) \<or> ?pc = MxReturned"
      using True inv by (cases ?pc) (auto simp: mutex_inv_at_def)
    then show ?thesis
    proof (elim disjE exE)
      assume pc: "?pc = MxFlush"
      then have "mx_flush_request (ms_logger st) = 0" "mx_flush_complete (ms_logger st) = 0" "ticket_of (ms_worker st) = 0"
        using True inv by (auto simp: mutex_inv_at_def one_flush_def)
      note now = this
      show ?thesis
      proof (cases held)
        case True
        then have "pc' = MxFlush" "lg' = ms_logger st" using run pc by simp_all
        then show ?thesis using inv mutex_same [OF pc] by simp
      next
        case False
        then have "pc' = MxFlushBlocked (mx_done_notified (ms_logger st))"
          "lg' = (ms_logger st)\<lparr>mx_flush_request := 1, mx_notified := mx_notified (ms_logger st) + 1\<rparr>"
          using run pc now by auto
        then show ?thesis using \<open>s = Flushing\<close> pc now inv l keep count
          by (simp add: mutex_inv_at_def one_flush_def nth_list_update)
      qed
    next
      fix seen assume pc: "?pc = MxFlushBlocked seen"
      then have r: "mx_flush_request (ms_logger st) = 1" "mx_flush_complete (ms_logger st) = 0 \<or> mx_flush_complete (ms_logger st) = 1"
        using True inv by (auto simp: mutex_inv_at_def one_flush_def)
      have "lg' = ms_logger st" using run pc by simp
      moreover have "pc' = fst (mutex_client_step held spurious (MxFlushBlocked seen) (ms_logger st))" by (simp only: pc [symmetric] run fst_conv)
      then have "pc' = MxReturned \<and> mx_flush_complete (ms_logger st) = 1 \<or> (\<exists>k. pc' = MxFlushBlocked k)"
        using r by auto
      ultimately have "lg' = ms_logger st" "\<not> pushing pc'"
        "pc' = MxReturned \<and> mx_flush_complete (ms_logger st) = 1 \<or> (\<exists>k. pc' = MxFlushBlocked k)" by auto
      note r = r(1) this
      show ?thesis using True pc inv l count r
        by (auto simp: mutex_inv_at_def nth_list_update)
    next
      assume pc: "?pc = MxReturned"
      then have "pc' = MxReturned" "lg' = ms_logger st" using run by simp_all
      then show ?thesis using inv mutex_same [OF pc] by simp
    qed
  next
    case False
    then have "pc' = MxIdle" "lg' = ms_logger st" using run idle by simp_all
    then show ?thesis using inv mutex_same [OF idle [OF False]] by simp
  qed
qed

lemma mutex_called_at:
  assumes inv: "mutex_inv_at n next s st" and t: "t < Suc n"
    and pc: "t < n \<Longrightarrow> producer_pc pc'" and stage: "mutex_stage n s' (mutex_call t pc' st)"
    and sum: "length next' = n" "sum_list next' + (if pushing (ms_clients st ! t) then 1 else 0) = sum_list next + (if pushing pc' then 1 else 0)"
  shows "mutex_inv_at n next' s' (mutex_call t pc' st)"
proof -
  have l: "length (ms_clients st) = Suc n" using inv by (simp add: mutex_inv_at_def)
  have "length (filter pushing ((ms_clients st)[t := pc'])) + (if pushing (ms_clients st ! t) then 1 else 0) =
      length (filter pushing (ms_clients st)) + (if pushing pc' then 1 else 0)"
    using filter_update [of t "ms_clients st" pushing pc'] t l by simp
  then show ?thesis using assms l by (auto simp: mutex_inv_at_def mutex_call_def nth_list_update split: if_splits)
qed

lemma mutex_all_written:
  assumes "mutex_inv_at n next Flushed st"
  shows "mx_written (ms_logger st) = of_nat (sum_list next)"
proof -
  let ?lg = "ms_logger st" and ?w = "ms_worker st"
  have inv: "mutex_inv ?lg ?w" and q: "mx_queue ?lg = []" and w: "waiting ?w"
    using assms by (auto simp: mutex_inv_at_def one_flush_def)
  have "\<not> pushing c" if "c \<in> set (ms_clients st)" for c
    using that assms by (auto simp: mutex_inv_at_def in_set_conv_nth less_Suc_eq)
  then have "filter pushing (ms_clients st) = []" by (simp add: filter_empty_conv)
  then have "length (mx_pushed ?lg) = sum_list next" using assms by (simp add: mutex_inv_at_def)
  moreover have "unwritten ?w = []" "\<not> is_terminated ?w" "(case ?w of MwCount e batch \<Rightarrow> 1 | _ \<Rightarrow> 0) = (0 :: u64)"
    using w by (cases ?w; simp)+
  ultimately show ?thesis using inv q by (auto simp: mutex_inv_def)
qed

interpretation mutex: countable_logger mutex_bench "mutex_moves CountingSink_ops" n "mutex_inv_at n" for n
proof unfold_locales
  fix "next" s sys t
  {
    fix sys' assume i: "mutex_inv_at n next s sys" and m: "mutex_moves CountingSink_ops sys sys'"
    have l: "length (ms_clients sys) = Suc n" using i by (simp add: mutex_inv_at_def)
    from m show "mutex_inv_at n next s sys' \<and> (\<forall>t < n. bl_idle mutex_bench t sys \<longrightarrow> bl_idle mutex_bench t sys')"
    proof cases
      case (mutex_client u spurious pc' lg')
      then show ?thesis using mutex_producer_moves [OF i _ mutex_client(3)] mutex_main_moves [OF i, of _ spurious pc' lg'] l
        by (auto simp: mutex_bench_def nth_list_update less_Suc_eq)
    next
      case (mutex_worker spurious now pc' lg')
      then show ?thesis using one_flush_worker [OF _ mutex_worker(2)] mutex_stage_worker [of n s sys lg' pc'] i
        by (auto simp: mutex_bench_def mutex_inv_at_def)
    qed
  next
    assume i: "mutex_inv_at n next Logging sys" and t: "t < n" "bl_idle mutex_bench t sys"
    have l: "length (ms_clients sys) = Suc n" "length next = n" using i by (simp_all add: mutex_inv_at_def)
    have "mutex_inv_at n (next[t := Suc (next ! t)]) Logging (mutex_call t (MxPush (MakePayload (int t) (int (next ! t)))) sys)"
      by (rule mutex_called_at [OF i])
        (use i t l in \<open>auto simp: mutex_bench_def mutex_inv_at_def mutex_call_def sum_list_update\<close>)
    then show "mutex_inv_at n (next[t := Suc (next ! t)]) Logging (bl_log mutex_bench t (next ! t) sys) \<and>
      (\<forall>u < n. u \<noteq> t \<longrightarrow> bl_idle mutex_bench u sys \<longrightarrow> bl_idle mutex_bench u (bl_log mutex_bench t (next ! t) sys))"
      by (simp add: mutex_bench_def mutex_call_def)
  next
    assume i: "mutex_inv_at n next s sys" and t: "t < n" "bl_returned mutex_bench t sys"
    have "mutex_inv_at n next s (mutex_call t MxIdle sys)"
    proof (rule mutex_called_at [OF i])
      show "mutex_stage n s (mutex_call t MxIdle sys)"
        using i t by (cases s) (auto simp: mutex_bench_def mutex_inv_at_def mutex_call_def nth_list_update)
    qed (use i t in \<open>simp_all add: mutex_bench_def mutex_inv_at_def\<close>)
    then show "mutex_inv_at n next s (bl_return mutex_bench t sys) \<and>
      (\<forall>u < n. bl_idle mutex_bench u sys \<longrightarrow> bl_idle mutex_bench u (bl_return mutex_bench t sys))"
      using i t by (simp add: mutex_bench_def mutex_call_def nth_list_update mutex_inv_at_def)
  next
    assume i: "mutex_inv_at n next Logging sys" and idle: "\<And>t. t < n \<Longrightarrow> bl_idle mutex_bench t sys"
    have "mutex_inv_at n next Flushing (mutex_call n MxFlush sys)"
      by (rule mutex_called_at [OF i]) (use i idle in \<open>auto simp: mutex_bench_def mutex_inv_at_def mutex_call_def\<close>)
    then show "mutex_inv_at n next Flushing (bl_flush mutex_bench n sys)" by (simp add: mutex_bench_def)
  next
    assume i: "mutex_inv_at n next Flushing sys" and r: "bl_returned mutex_bench n sys"
    have "mutex_inv_at n next Flushed (mutex_call n MxIdle sys)"
      by (rule mutex_called_at [OF i]) (use i r in \<open>auto simp: mutex_bench_def mutex_inv_at_def mutex_call_def\<close>)
    then show "mutex_inv_at n next Flushed (bl_return mutex_bench n sys)" by (simp add: mutex_bench_def)
  next
    assume "mutex_inv_at n next Flushed sys"
    then show "bl_written mutex_bench sys = of_nat (sum_list next)" by (simp add: mutex_bench_def mutex_all_written)
  }
qed

lemma mutex_start_inv: "mutex_inv_at n (replicate n 0) Logging (mutex_factory sink (Suc n))"
  by (auto simp: mutex_inv_at_def mutex_factory_def mutex_start_def MutexAsyncLogger_new_def one_flush_def mutex_inv_def texts_written_def
      nth_append sum_list_replicate simp flip: replicate_Suc)

end
