(* ===== verification/Benchmark_Compare.thy ===== *)
theory Benchmark_Compare
  imports Benchmark_Cas Benchmark_Mutex Service_Config
begin

text \<open>
  The rest of \<open>examples/compare_benchmark.cpp\<close>: the results of the rounds, their summary, what is
  printed, and \<open>main\<close>.

  The type of \<open>double\<close> is a parameter with its operations and the text the stream gives it; its order is that of
  the values that are not NaN.  What one run of \<open>RunBenchmark\<close> measures is a parameter of \<open>main\<close>: the
  number of messages written and the seconds elapsed in each run of each logger.
\<close>

record 'd doubles =
  d_of_u64 :: "u64 \<Rightarrow> 'd"
  d_add :: "'d \<Rightarrow> 'd \<Rightarrow> 'd"
  d_sub :: "'d \<Rightarrow> 'd \<Rightarrow> 'd"
  d_mul :: "'d \<Rightarrow> 'd \<Rightarrow> 'd"
  d_div :: "'d \<Rightarrow> 'd \<Rightarrow> 'd"
  d_half :: 'd
  d_hundred :: 'd
  d_text :: "'d \<Rightarrow> string"

section \<open>Results\<close>

record 'd BenchmarkResult =
  br_name :: string
  br_written :: u64
  br_seconds :: 'd
  br_throughput :: 'd

record 'd BenchmarkSummary =
  bs_name :: string
  bs_written :: u64
  bs_measured_rounds :: int
  bs_median_seconds :: 'd
  bs_average_seconds :: 'd
  bs_median_throughput :: 'd
  bs_average_throughput :: 'd
  bs_min_throughput :: 'd
  bs_max_throughput :: 'd

text \<open>The result that \<open>RunBenchmark\<close> makes of the number it has read and of the time.\<close>

definition benchmark_result :: "'d::{linorder, zero} doubles \<Rightarrow> string \<Rightarrow> u64 \<times> 'd \<Rightarrow> 'd BenchmarkResult" where
  "benchmark_result D name = (\<lambda>(written, seconds).
     \<lparr>br_name = name, br_written = written, br_seconds = seconds,
      br_throughput = (if 0 < seconds then d_div D (d_of_u64 D written) seconds else 0)\<rparr>)"

definition Average :: "'d::zero doubles \<Rightarrow> 'd list \<Rightarrow> 'd" where
  "Average D values =
     (if values = [] then 0 else d_div D (foldl (d_add D) 0 values) (d_of_u64 D (of_nat (length values))))"

definition Median :: "'d::{linorder, zero} doubles \<Rightarrow> 'd list \<Rightarrow> 'd" where
  "Median D values =
     (if values = [] then 0
      else let sorted_values = sort values; middle = length values div 2 in
        if length values mod 2 = 0
        then d_mul D (d_add D (sorted_values ! (middle - 1)) (sorted_values ! middle)) (d_half D)
        else sorted_values ! middle)"

text \<open>\<open>std::min_element\<close> and \<open>std::max_element\<close> of a vector that is not empty.\<close>

fun min_element :: "'d::linorder list \<Rightarrow> 'd" where
  "min_element (x # xs) = foldl (\<lambda>best x. if x < best then x else best) x xs"

fun max_element :: "'d::linorder list \<Rightarrow> 'd" where
  "max_element (x # xs) = foldl (\<lambda>best x. if best < x then x else best) x xs"

definition int_of_size :: "nat \<Rightarrow> int" where
  "int_of_size k = sint (of_nat k :: 32 word)"

definition Summarize :: "'d::{linorder, zero} doubles \<Rightarrow> 'd BenchmarkResult list \<Rightarrow> 'd BenchmarkSummary" where
  "Summarize D results =
     (if results = [] then
        \<lparr>bs_name = [], bs_written = 0, bs_measured_rounds = 0, bs_median_seconds = 0, bs_average_seconds = 0,
         bs_median_throughput = 0, bs_average_throughput = 0, bs_min_throughput = 0, bs_max_throughput = 0\<rparr>
      else let seconds = map br_seconds results; throughputs = map br_throughput results in
        \<lparr>bs_name = br_name (hd results), bs_written = br_written (hd results),
         bs_measured_rounds = int_of_size (length results), bs_median_seconds = Median D seconds,
         bs_average_seconds = Average D seconds, bs_median_throughput = Median D throughputs,
         bs_average_throughput = Average D throughputs, bs_min_throughput = min_element throughputs,
         bs_max_throughput = max_element throughputs\<rparr>)"

section \<open>What is printed\<close>

text \<open>A line stands for what is written to \<open>std::cout\<close> up to a newline.\<close>

definition u64_text :: "u64 \<Rightarrow> string" where
  "u64_text w = int_text (uint w)"

definition PrintResult :: "'d doubles \<Rightarrow> 'd BenchmarkResult \<Rightarrow> string" where
  "PrintResult D result = br_name result @ '' written='' @ u64_text (br_written result) @
     '' elapsed_seconds='' @ d_text D (br_seconds result) @
     '' throughput_msgs_per_sec='' @ d_text D (br_throughput result)"

definition PrintRoundResult :: "'d doubles \<Rightarrow> string \<Rightarrow> int \<Rightarrow> 'd BenchmarkResult \<Rightarrow> string" where
  "PrintRoundResult D phase number result = phase @ '' round='' @ int_text number @ '' '' @ PrintResult D result"

definition PrintSummary :: "'d doubles \<Rightarrow> 'd BenchmarkSummary \<Rightarrow> string" where
  "PrintSummary D summary = bs_name summary @ ''_summary written='' @ u64_text (bs_written summary) @
     '' measured_rounds='' @ int_text (bs_measured_rounds summary) @
     '' median_elapsed_seconds='' @ d_text D (bs_median_seconds summary) @
     '' average_elapsed_seconds='' @ d_text D (bs_average_seconds summary) @
     '' median_throughput_msgs_per_sec='' @ d_text D (bs_median_throughput summary) @
     '' average_throughput_msgs_per_sec='' @ d_text D (bs_average_throughput summary) @
     '' min_throughput_msgs_per_sec='' @ d_text D (bs_min_throughput summary) @
     '' max_throughput_msgs_per_sec='' @ d_text D (bs_max_throughput summary)"

text \<open>
  A loop from 1 to \<open>last_round\<close> with a variable of type \<open>int\<close>: with the largest \<open>int\<close> the variable overflows, which
  is undefined.
\<close>

definition round_numbers :: "int \<Rightarrow> int list option" where
  "round_numbers last_round = (if last_round = 2 ^ 31 - 1 then None else Some [1..last_round])"

text \<open>The results of the measured rounds with the lines printed, from the given run on.\<close>

definition RunBenchmarks ::
  "'d::{linorder, zero} doubles \<Rightarrow> int \<Rightarrow> string \<Rightarrow> (nat \<Rightarrow> u64 \<times> 'd) \<Rightarrow> nat \<Rightarrow> ('d BenchmarkResult list \<times> string list) option" where
  "RunBenchmarks D measured_rounds name run first =
     do { numbers \<leftarrow> round_numbers measured_rounds;
          let results = map (\<lambda>r. benchmark_result D name (run (first + nat (r - 1)))) numbers;
          Some (results, map2 (PrintRoundResult D ''measured'') numbers results) }"

section \<open>The program\<close>

text \<open>
  \<open>std::atoi\<close>: white space, an optional sign, digits; 0 without digits.  A number that does not fit \<open>int\<close> is
  undefined.
\<close>

definition is_space :: "char \<Rightarrow> bool" where
  "is_space c \<longleftrightarrow> c = CHR '' '' \<or> 9 \<le> (of_char c :: nat) \<and> (of_char c :: nat) \<le> 13"

definition atoi :: "string \<Rightarrow> int option" where
  "atoi text =
     (let rest = dropWhile is_space text;
          signed_text = (rest \<noteq> [] \<and> hd rest \<in> {CHR ''+'', CHR ''-''});
          magnitude = int (undecimal (takeWhile is_digit (if signed_text then tl rest else rest)) 0);
          value = (if signed_text \<and> hd rest = CHR ''-'' then - magnitude else magnitude)
      in if int_in_range I32 value then Some value else None)"

text \<open>\<open>args\<close> is \<open>argv\<close> without the name of the program.\<close>

definition argument :: "string list \<Rightarrow> nat \<Rightarrow> int \<Rightarrow> int \<Rightarrow> int option" where
  "argument args k least fallback =
     (if k < length args then map_option (max least) (atoi (args ! k)) else Some fallback)"

definition compare_config :: "int \<Rightarrow> int \<Rightarrow> int \<Rightarrow> int \<Rightarrow> string" where
  "compare_config thread_count messages_per_thread measured_rounds warmup_rounds =
     ''config threads='' @ int_text thread_count @ '' messages_per_thread='' @ int_text messages_per_thread @
     '' measured_rounds='' @ int_text measured_rounds @ '' warmup_rounds='' @ int_text warmup_rounds"

definition compare_main ::
  "'d::{linorder, zero} doubles \<Rightarrow> (nat \<Rightarrow> u64 \<times> 'd) \<Rightarrow> (nat \<Rightarrow> u64 \<times> 'd) \<Rightarrow> string list \<Rightarrow> string list option" where
  "compare_main D mutex_runs cas_runs args =
     do { thread_count \<leftarrow> argument args 0 1 8;
          messages_per_thread \<leftarrow> argument args 1 1 50000;
          measured_rounds \<leftarrow> argument args 2 1 5;
          warmup_rounds \<leftarrow> argument args 3 0 1;
          numbers \<leftarrow> round_numbers warmup_rounds;
          let warmup = concat (map (\<lambda>r.
             [PrintRoundResult D ''warmup'' r (benchmark_result D ''mutex_async_logger'' (mutex_runs (nat (r - 1)))),
              PrintRoundResult D ''warmup'' r (benchmark_result D ''cas_async_logger'' (cas_runs (nat (r - 1))))]) numbers);
          (mutex_results, mutex_lines) \<leftarrow> RunBenchmarks D measured_rounds ''mutex_async_logger'' mutex_runs (nat warmup_rounds);
          (cas_results, cas_lines) \<leftarrow> RunBenchmarks D measured_rounds ''cas_async_logger'' cas_runs (nat warmup_rounds);
          let mutex_summary = Summarize D mutex_results;
          let cas_summary = Summarize D cas_results;
          Some (compare_config thread_count messages_per_thread measured_rounds warmup_rounds # warmup @ mutex_lines @ cas_lines @
            [PrintSummary D mutex_summary, PrintSummary D cas_summary] @
            (if 0 < bs_median_throughput mutex_summary
             then [''improvement_percent_median='' @ d_text D
                    (d_mul D (d_div D (d_sub D (bs_median_throughput cas_summary) (bs_median_throughput mutex_summary))
                                (bs_median_throughput mutex_summary)) (d_hundred D))]
             else [])) }"

section \<open>The statistics\<close>

lemma min_element_foldl:
  "foldl (\<lambda>best x. if x < best then x else best) (y :: 'd::linorder) xs = Min (set (y # xs))"
proof (induction xs arbitrary: y)
  case (Cons x xs)
  then show ?case by (cases "xs = []") (auto simp: min_def)
qed simp

lemma max_element_foldl:
  "foldl (\<lambda>best x. if best < x then x else best) (y :: 'd::linorder) xs = Max (set (y # xs))"
proof (induction xs arbitrary: y)
  case (Cons x xs)
  then show ?case by (cases "xs = []") (auto simp: max_def)
qed simp

lemma min_element_Min: "xs \<noteq> [] \<Longrightarrow> min_element xs = Min (set xs)"
  by (cases xs) (simp_all add: min_element_foldl)

lemma max_element_Max: "xs \<noteq> [] \<Longrightarrow> max_element xs = Max (set xs)"
  by (cases xs) (simp_all add: max_element_foldl)

lemma int_of_size_small: "k < 2 ^ 31 \<Longrightarrow> int_of_size k = int k"
  unfolding int_of_size_def by transfer (simp add: signed_take_bit_int_eq_self)

lemma Median_perm: "mset ys = mset xs \<Longrightarrow> Median D ys = Median D xs"
proof -
  assume perm: "mset ys = mset xs"
  then have "sort ys = sort xs" "length ys = length xs" "ys = [] \<longleftrightarrow> xs = []"
    by (metis mset_sort properties_for_sort sorted_sort, metis size_mset, metis mset_zero_iff)
  then show ?thesis by (simp add: Median_def)
qed

lemma Median_between:
  assumes mean: "\<And>a b. a \<le> b \<Longrightarrow> a \<le> d_mul D (d_add D a b) (d_half D) \<and> d_mul D (d_add D a b) (d_half D) \<le> b"
    and xs: "xs \<noteq> []"
  shows "Min (set xs) \<le> Median D xs \<and> Median D xs \<le> Max (set xs)"
proof -
  let ?s = "sort xs" and ?m = "length xs div 2"
  have m: "?m < length ?s" "?m - 1 < length ?s" using xs by (auto simp: div_less_dividend less_imp_diff_less)
  have bounds: "Min (set xs) \<le> ?s ! k \<and> ?s ! k \<le> Max (set xs)" if "k < length ?s" for k
    using nth_mem [OF that] by simp
  have "?s ! (?m - 1) \<le> ?s ! ?m" using m by (intro sorted_nth_mono) auto
  from mean [OF this] bounds [OF m(1)] bounds [OF m(2)] show ?thesis
    using xs by (auto simp: Median_def Let_def intro: order_trans)
qed

text \<open>
  The summary.  For one round or more, the reported minimum and maximum throughput are those of two rounds and
  bound all others, the median lies between them, the number of rounds is right, and the order of
  the rounds does not matter for any of these; the one hypothesis on floating-point arithmetic is that the
  mean of two numbers lies between them.
\<close>

theorem Summarize_bounds:
  assumes "\<And>a b. a \<le> b \<Longrightarrow> a \<le> d_mul D (d_add D a b) (d_half D) \<and> d_mul D (d_add D a b) (d_half D) \<le> b"
    and "results \<noteq> []" and "length results < 2 ^ 31" and "mset results' = mset results"
  shows "bs_min_throughput (Summarize D results) \<le> bs_median_throughput (Summarize D results) \<and>
    bs_median_throughput (Summarize D results) \<le> bs_max_throughput (Summarize D results) \<and>
    {bs_min_throughput (Summarize D results), bs_max_throughput (Summarize D results)} \<subseteq> br_throughput ` set results \<and>
    (\<forall>r \<in> set results. bs_min_throughput (Summarize D results) \<le> br_throughput r \<and> br_throughput r \<le> bs_max_throughput (Summarize D results)) \<and>
    bs_measured_rounds (Summarize D results) = int (length results) \<and>
    bs_median_throughput (Summarize D results') = bs_median_throughput (Summarize D results) \<and>
    bs_median_seconds (Summarize D results') = bs_median_seconds (Summarize D results) \<and>
    bs_min_throughput (Summarize D results') = bs_min_throughput (Summarize D results) \<and>
    bs_max_throughput (Summarize D results') = bs_max_throughput (Summarize D results)"
proof -
  let ?ts = "map br_throughput results"
  have ts: "?ts \<noteq> []" using assms(2) by simp
  have same: "results' \<noteq> []" "set results' = set results" "mset (map f results') = mset (map f results)" for f :: "'a BenchmarkResult \<Rightarrow> 'a"
    using assms(2,4) by (metis mset_zero_iff, metis set_mset_mset, simp)
  have "min_element ?ts = Min (set ?ts)" "max_element ?ts = Max (set ?ts)"
    "min_element (map br_throughput results') = Min (set ?ts)" "max_element (map br_throughput results') = Max (set ?ts)"
    using min_element_Min max_element_Max ts same(1,2) by (metis list.set_map map_is_Nil_conv)+
  moreover have "Min (set ?ts) \<in> set ?ts" "Max (set ?ts) \<in> set ?ts" using ts by (simp_all add: Min_in Max_in del: set_map)
  ultimately show ?thesis
    using Median_between [of D, OF assms(1) ts] assms(2,3) same Median_perm [OF same(3)]
    by (auto simp: Summarize_def Let_def int_of_size_small)
qed

definition int_doubles :: "int doubles" where
  "int_doubles = \<lparr>d_of_u64 = uint, d_add = (+), d_sub = (-), d_mul = (\<lambda>a b. a div b), d_div = (div), d_half = 2, d_hundred = 100,
     d_text = int_text\<rparr>"

definition demo_results :: "int BenchmarkResult list" where
  "demo_results = map (benchmark_result int_doubles ''mutex_async_logger'') [(12, 3), (12, 4), (12, 2)]"

theorem Summarize_bounds_witness:
  "bs_median_throughput (Summarize int_doubles demo_results) \<le> bs_max_throughput (Summarize int_doubles demo_results) \<and>
    bs_measured_rounds (Summarize int_doubles demo_results) = 3"
proof -
  have mean: "a \<le> d_mul int_doubles (d_add int_doubles a b) (d_half int_doubles) \<and>
      d_mul int_doubles (d_add int_doubles a b) (d_half int_doubles) \<le> b" if "a \<le> b" for a b
    using that by (simp add: int_doubles_def) linarith
  have "demo_results \<noteq> []" "length demo_results = 3" by (simp_all add: demo_results_def)
  then show ?thesis using Summarize_bounds [of int_doubles demo_results demo_results, OF mean] by simp
qed

section \<open>What the program prints\<close>

text \<open>What one run of \<open>RunBenchmark\<close> may read from the logger.\<close>

definition mutex_may_report :: "nat \<Rightarrow> nat \<Rightarrow> u64 \<Rightarrow> bool" where
  "mutex_may_report n m w \<longleftrightarrow> (\<exists>sink st.
     rtranclp (bench_step mutex_bench (mutex_moves CountingSink_ops) m) (bench_start (mutex_factory sink (Suc n)) n) st \<and>
     reported (bench_at st) = Some w)"

definition cas_may_report :: "nat \<Rightarrow> nat \<Rightarrow> u64 \<Rightarrow> bool" where
  "cas_may_report n m w \<longleftrightarrow> (\<exists>world lg hash st. cas_factory (0, world) = Inr lg \<and>
     rtranclp (bench_step cas_logger (cas_moves CountingSink_ops hash) m) (bench_start (logger_start lg (Suc n)) n) st \<and>
     reported (bench_at st) = Some w)"

lemma may_report_all:
  "mutex_may_report n m w \<Longrightarrow> w = of_nat (n * m)"
  "n < 2 ^ 31 \<Longrightarrow> cas_may_report n m w \<Longrightarrow> w = of_nat (n * m)"
  using mutex.reports_all [OF _ mutex_start_inv] cas.reports_all [OF _ cas_start_inv]
  unfolding mutex_may_report_def cas_may_report_def by blast+

lemma argument_range:
  assumes "argument args k least fallback = Some v" and "least \<le> fallback" and "fallback < 2 ^ 31" and "least < 2 ^ 31"
  shows "least \<le> v \<and> v < 2 ^ 31"
  using assms by (auto simp: argument_def atoi_def Let_def split: if_splits)

text \<open>The beginning of a line for a round and of a line for a summary.\<close>

definition round_line :: "int \<Rightarrow> string \<Rightarrow> bool" where
  "round_line expected line \<longleftrightarrow> (\<exists>phase number. \<exists>name \<in> {''mutex_async_logger'', ''cas_async_logger''}.
     prefix (phase @ '' round='' @ int_text number @ '' '' @ name @ '' written='' @ int_text expected @ '' elapsed_seconds='') line)"

definition summary_line :: "int \<Rightarrow> int \<Rightarrow> string \<Rightarrow> string \<Rightarrow> bool" where
  "summary_line expected rounds name line \<longleftrightarrow>
     prefix (name @ ''_summary written='' @ int_text expected @ '' measured_rounds='' @ int_text rounds @ '' '') line"

lemma u64_text_of_int: "0 \<le> i \<Longrightarrow> i < 2 ^ 64 \<Longrightarrow> u64_text (of_int i) = int_text i"
  by (simp add: u64_text_def uint_word_of_int)

lemma round_line_result:
  assumes "0 \<le> expected" and "expected < 2 ^ 64" and "fst outcome = of_int expected" and "name \<in> {''mutex_async_logger'', ''cas_async_logger''}"
  shows "round_line expected (PrintRoundResult D phase r (benchmark_result D name outcome))"
  unfolding round_line_def
  by (rule exI [of _ phase], rule exI [of _ r], rule bexI [OF _ assms(4)])
    (simp add: PrintRoundResult_def PrintResult_def benchmark_result_def split_beta u64_text_of_int [OF assms(1,2)] assms(3))

lemma RunBenchmarks_lines:
  assumes run: "RunBenchmarks D rounds name runs first = Some (results, lines)" and rounds: "1 \<le> rounds"
    and all: "0 \<le> expected" "expected < 2 ^ 64" "\<And>k. fst (runs k) = of_int expected" "name \<in> {''mutex_async_logger'', ''cas_async_logger''}"
  shows "(\<forall>l \<in> set lines. round_line expected l) \<and> length lines = nat rounds \<and> length results = nat rounds \<and>
    (\<forall>r \<in> set results. br_name r = name \<and> br_written r = of_int expected)"
proof -
  let ?r = "\<lambda>r. benchmark_result D name (runs (first + nat (r - 1)))"
  have "results = map ?r [1..rounds]" "lines = map2 (PrintRoundResult D ''measured'') [1..rounds] (map ?r [1..rounds])"
    using run by (auto simp: RunBenchmarks_def round_numbers_def Let_def split: if_splits)
  moreover have "round_line expected (PrintRoundResult D ''measured'' r (benchmark_result D name (runs k)))" for r k
    using round_line_result [OF all(1,2,3) all(4)] .
  moreover have "br_name (?r r) = name" "br_written (?r r) = of_int expected" for r
    using all(3) by (simp_all add: benchmark_result_def split_beta)
  ultimately show ?thesis using rounds by (auto dest!: set_zip_rightD simp: set_zip)
qed

lemma summary_line_summary:
  assumes "results \<noteq> []" and "length results < 2 ^ 31" and "\<forall>r \<in> set results. br_name r = name \<and> br_written r = of_int expected"
    and "0 \<le> expected" and "expected < 2 ^ 64"
  shows "summary_line expected (int (length results)) name (PrintSummary D (Summarize D results))"
proof -
  have "br_name (hd results) = name" "br_written (hd results) = of_int expected" using assms(1,3) by auto
  then show ?thesis using assms(1,2,4,5)
    by (simp add: summary_line_def PrintSummary_def Summarize_def Let_def u64_text_of_int int_of_size_small)
qed

text \<open>
  C32. The comparison compares equal work.  However the threads of every round are scheduled, each line that \<open>main\<close> prints
  for a round, and the summaries of both loggers, say that as many messages have been written as the
  program was asked for, threads times messages per thread, none lost and none refused; the
  summaries give the number of measured rounds, and there is one line for each round of each logger.
\<close>

theorem compare_main_counts:
  assumes out: "compare_main D mutex_runs cas_runs args = Some out"
    and args: "argument args 0 1 8 = Some threads" "argument args 1 1 50000 = Some messages"
      "argument args 2 1 5 = Some rounds" "argument args 3 0 1 = Some warmups"
    and mutex: "\<And>k. mutex_may_report (nat threads) (nat messages) (fst (mutex_runs k))"
    and cas: "\<And>k. cas_may_report (nat threads) (nat messages) (fst (cas_runs k))"
  shows "\<exists>config lines mutex_summary cas_summary improvement.
    out = config # lines @ [mutex_summary, cas_summary] @ improvement \<and>
    (\<forall>line \<in> set lines. round_line (threads * messages) line) \<and> length lines = 2 * nat (warmups + rounds) \<and>
    summary_line (threads * messages) rounds ''mutex_async_logger'' mutex_summary \<and>
    summary_line (threads * messages) rounds ''cas_async_logger'' cas_summary \<and> length improvement \<le> 1"
proof -
  let ?total = "threads * messages"
  have range: "1 \<le> threads" "threads < 2 ^ 31" "1 \<le> messages" "messages < 2 ^ 31" "1 \<le> rounds" "rounds < 2 ^ 31" "0 \<le> warmups"
    using argument_range [OF args(1)] argument_range [OF args(2)] argument_range [OF args(3)] argument_range [OF args(4)] by simp_all
  have "threads * messages \<le> 2 ^ 31 * 2 ^ 31" using range by (intro mult_mono) auto
  then have total: "0 \<le> ?total" "?total < 2 ^ 64" using range by auto
  have word: "of_nat (nat threads * nat messages) = (of_int ?total :: u64)" using range by simp
  have M: "fst (mutex_runs k) = of_int ?total" and C: "fst (cas_runs k) = of_int ?total" for k
    using may_report_all(1) [OF mutex] may_report_all(2) [OF _ cas] range word by (simp_all add: nat_less_iff)
  let ?warmup = "concat (map (\<lambda>r.
      [PrintRoundResult D ''warmup'' r (benchmark_result D ''mutex_async_logger'' (mutex_runs (nat (r - 1)))),
       PrintRoundResult D ''warmup'' r (benchmark_result D ''cas_async_logger'' (cas_runs (nat (r - 1))))]) [1..warmups])"
  obtain mr ml cr cl improvement where
    m: "RunBenchmarks D rounds ''mutex_async_logger'' mutex_runs (nat warmups) = Some (mr, ml)" and
    c: "RunBenchmarks D rounds ''cas_async_logger'' cas_runs (nat warmups) = Some (cr, cl)" and
    out': "out = compare_config threads messages rounds warmups # (?warmup @ ml @ cl) @
        [PrintSummary D (Summarize D mr), PrintSummary D (Summarize D cr)] @ improvement" "length improvement \<le> 1"
    using out args by (auto simp: compare_main_def round_numbers_def Let_def bind_eq_Some_conv split: if_splits)
  note mlines = RunBenchmarks_lines [OF m range(5) total M] and clines = RunBenchmarks_lines [OF c range(5) total C]
  have few: "mr \<noteq> []" "cr \<noteq> []" "length mr < 2 ^ 31" "length cr < 2 ^ 31"
    using mlines clines range(5,6) by (auto simp: nat_less_iff)
  have "round_line ?total l" if "l \<in> set ?warmup" for l
    using that round_line_result [OF total M] round_line_result [OF total C] by auto
  moreover have "length ?warmup = 2 * nat warmups"
    using range(7) by (simp add: length_concat sum_list_triv o_def)
  moreover have "summary_line ?total rounds ''mutex_async_logger'' (PrintSummary D (Summarize D mr))"
    "summary_line ?total rounds ''cas_async_logger'' (PrintSummary D (Summarize D cr))"
    using summary_line_summary [OF few(1,3), of "''mutex_async_logger''" ?total D]
      summary_line_summary [OF few(2,4), of "''cas_async_logger''" ?total D] mlines clines range(5) total by simp_all
  moreover have "nat (warmups + rounds) = nat warmups + nat rounds" using range(5,7) by (simp add: nat_add_distrib)
  moreover have "\<forall>line \<in> set (?warmup @ ml @ cl). round_line ?total line"
    using mlines clines calculation(1) by (simp only: set_append Un_iff) blast
  moreover have "length (?warmup @ ml @ cl) = 2 * nat (warmups + rounds)"
    using mlines clines calculation(2,5) by (simp only: length_append) simp
  ultimately show ?thesis using out' by blast
qed

text \<open>Arguments \<open>1 1 1 0\<close> and a run of each logger.\<close>

definition mutex_do :: "mutex_action \<Rightarrow> u64 mutex_sys \<Rightarrow> u64 mutex_sys" where
  "mutex_do a st = (case a of MxCall t c \<Rightarrow> st | _ \<Rightarrow> mutex_run CountingSink_ops [a] st)"

lemma mutex_do_moves: "mutex_do x sys = sys \<or> mutex_moves CountingSink_ops sys (mutex_do x sys)"
  by (cases x) (auto simp: mutex_do_def intro: mutex_client mutex_worker split: prod.splits)

definition mutex_bench_demo :: "u64 mutex_sys bench" where
  "mutex_bench_demo = fold (bench_do mutex_bench mutex_do 1)
     ([BenchLog 0] @ replicate 2 (BenchMove (MxRun 0)) @ [BenchReturn 0, BenchMain, BenchMain, BenchMove (MxRun 1)] @
      replicate 7 (BenchMove MxRunWorker) @ [BenchMove (MxRun 1), BenchMain, BenchMain])
     (bench_start (mutex_factory (0, memory_world) 2) 1)"

lemma mutex_bench_demo_at: "bench_at mutex_bench_demo = MainStop 1"
  by code_simp

lemma demo_reports: "mutex_may_report 1 1 1" "cas_may_report 1 1 1"
proof -
  have two: "Suc 1 = 2" by simp
  have "rtranclp (bench_step mutex_bench (mutex_moves CountingSink_ops) 1) (bench_start (mutex_factory (0, memory_world) (Suc 1)) 1) mutex_bench_demo"
    unfolding mutex_bench_demo_def two by (rule bench_run_reach [where f = mutex_do and moves = "mutex_moves CountingSink_ops", OF mutex_do_moves])
  moreover have "reported (bench_at mutex_bench_demo) = Some 1" by (simp only: mutex_bench_demo_at reported.simps)
  ultimately show "mutex_may_report 1 1 1" unfolding mutex_may_report_def by blast
  have "reported (bench_at (cas_demo 32765)) = Some 1" by (simp only: cas_demo_at reported.simps)
  then show "cas_may_report 1 1 1" unfolding cas_may_report_def using cas_demo_new cas_demo_reach by blast
qed

definition demo_args :: "string list" where
  "demo_args = [''1'', '' +1'', ''1'', ''0'']"

lemma demo_arguments:
  "argument demo_args 0 1 8 = Some 1" "argument demo_args 1 1 50000 = Some 1"
  "argument demo_args 2 1 5 = Some 1" "argument demo_args 3 0 1 = Some 0"
  by code_simp+

theorem compare_main_counts_witness:
  "\<exists>out. compare_main int_doubles (\<lambda>_. (1, 0)) (\<lambda>_. (1, 0)) demo_args = Some out \<and> round_line 1 (out ! 1) \<and> round_line 1 (out ! 2)"
proof -
  have "\<exists>out. compare_main int_doubles (\<lambda>_. (1, 0)) (\<lambda>_. (1, 0)) demo_args = Some out"
    by (simp add: compare_main_def demo_arguments RunBenchmarks_def round_numbers_def Let_def del: One_nat_def)
  then obtain out where out: "compare_main int_doubles (\<lambda>_. (1, 0)) (\<lambda>_. (1, 0)) demo_args = Some out" by blast
  have may: "mutex_may_report (nat 1) (nat 1) (fst (1, 0 :: int))" "cas_may_report (nat 1) (nat 1) (fst (1, 0 :: int))"
    using demo_reports by simp_all
  from compare_main_counts [OF out demo_arguments may]
  obtain config lines rest where L: "out = config # lines @ rest" "\<forall>line \<in> set lines. round_line 1 line" "length lines = 2"
    by (auto simp: append_eq_Cons_conv)
  then have "out ! 1 = lines ! 0" "out ! 2 = lines ! 1" by (simp_all add: nth_append)
  moreover have "lines ! 0 \<in> set lines" "lines ! 1 \<in> set lines" using L(3) by simp_all
  ultimately show ?thesis using out L(2) by metis
qed

end
