(* ===== verification/Benchmark_Latency.thy ===== *)
theory Benchmark_Latency
  imports Benchmark_Compare
begin

text \<open>
  \<open>RunLatencyBenchmark\<close> of \<open>examples/payload_benchmark.cpp\<close> and \<open>examples/latency_benchmark.cpp\<close>, which share it:
  the producers measure each of their calls with the steady clock, and the main thread analyses the
  durations of all threads.  The logger is a record of operations, as in \<open>Benchmark_Run\<close>; nothing is
  assumed of it.  Then the summaries and what both programs print.
\<close>

section \<open>Measuring the calls\<close>

datatype latency_main =
    LatencyJoin nat
  | LatencyFlush
  | LatencyStop nat
  | LatencyStopping nat
  | LatencyEnd nat

text \<open>
  The clock counts nanoseconds.  \<open>la_call\<close> holds \<open>call_start\<close> of the producers that are in a call, and
  \<open>la_times\<close> is \<open>thread_latencies\<close>, whose length is also the index of the producer's next message.
\<close>

record 'sys latency =
  la_sys :: 'sys
  la_clock :: nat
  la_call :: "nat option list"
  la_times :: "u64 list list"
  la_at :: latency_main

inductive latency_step :: "'sys bench_logger \<Rightarrow> ('sys \<Rightarrow> 'sys \<Rightarrow> bool) \<Rightarrow> nat \<Rightarrow> nat \<Rightarrow> 'sys latency \<Rightarrow> 'sys latency \<Rightarrow> bool"
  for L moves n m where
  clock_ticks: "latency_step L moves n m st (st\<lparr>la_clock := la_clock st + k\<rparr>)"
| logger_moves: "moves (la_sys st) sys' \<Longrightarrow> latency_step L moves n m st (st\<lparr>la_sys := sys'\<rparr>)"
| call_starts: "t < n \<Longrightarrow> la_call st ! t = None \<Longrightarrow> length (la_times st ! t) < m \<Longrightarrow>
    latency_step L moves n m st
      (st\<lparr>la_sys := bl_log L t (length (la_times st ! t)) (la_sys st), la_call := (la_call st)[t := Some (la_clock st)]\<rparr>)"
| call_ends: "t < n \<Longrightarrow> la_call st ! t = Some call_start \<Longrightarrow> bl_returned L t (la_sys st) \<Longrightarrow>
    latency_step L moves n m st
      (st\<lparr>la_sys := bl_return L t (la_sys st), la_call := (la_call st)[t := None],
          la_times := (la_times st)[t := la_times st ! t @ [of_nat (la_clock st - call_start)]]\<rparr>)"
| latency_joins: "la_at st = LatencyJoin k \<Longrightarrow> k < n \<Longrightarrow> la_call st ! k = None \<Longrightarrow> length (la_times st ! k) = m \<Longrightarrow>
    latency_step L moves n m st (st\<lparr>la_at := LatencyJoin (Suc k)\<rparr>)"
| latency_flushes: "la_at st = LatencyJoin n \<Longrightarrow>
    latency_step L moves n m st (st\<lparr>la_sys := bl_flush L n (la_sys st), la_at := LatencyFlush\<rparr>)"
| latency_flushed: "la_at st = LatencyFlush \<Longrightarrow> bl_returned L n (la_sys st) \<Longrightarrow>
    latency_step L moves n m st (st\<lparr>la_sys := bl_return L n (la_sys st), la_at := LatencyStop (la_clock st)\<rparr>)"
| latency_stops: "la_at st = LatencyStop end_time \<Longrightarrow>
    latency_step L moves n m st (st\<lparr>la_sys := bl_stop L n (la_sys st), la_at := LatencyStopping end_time\<rparr>)"
| latency_ends: "la_at st = LatencyStopping end_time \<Longrightarrow> bl_returned L n (la_sys st) \<Longrightarrow>
    latency_step L moves n m st (st\<lparr>la_sys := bl_return L n (la_sys st), la_at := LatencyEnd end_time\<rparr>)"

definition latency_start :: "'sys \<Rightarrow> nat \<Rightarrow> nat \<Rightarrow> 'sys latency" where
  "latency_start sys start n =
     \<lparr>la_sys = sys, la_clock = start, la_call = replicate n None, la_times = replicate n [], la_at = LatencyJoin 0\<rparr>"

text \<open>The durations of all threads, in the order of the threads.\<close>

definition all_latencies :: "'sys latency \<Rightarrow> u64 list" where
  "all_latencies st = concat (la_times st)"

section \<open>What the measured times say\<close>

text \<open>The time a producer has spent in calls that have ended.\<close>

definition spent :: "u64 list \<Rightarrow> nat" where
  "spent durations = sum_list (map unat durations)"

fun call_time :: "nat option \<Rightarrow> nat \<Rightarrow> nat" where
  "call_time None clock = clock"
| "call_time (Some call_start) clock = call_start"

definition producer_inv :: "nat \<Rightarrow> nat \<Rightarrow> nat \<Rightarrow> nat option \<Rightarrow> u64 list \<Rightarrow> bool" where
  "producer_inv m start clock call durations \<longleftrightarrow> length durations + (if call = None then 0 else 1) \<le> m \<and>
     start \<le> call_time call clock \<and> call_time call clock \<le> clock \<and> start + spent durations \<le> call_time call clock"

definition all_done :: "nat \<Rightarrow> nat \<Rightarrow> nat option list \<Rightarrow> u64 list list \<Rightarrow> bool" where
  "all_done n m call durations \<longleftrightarrow> (\<forall>t < n. call ! t = None \<and> length (durations ! t) = m)"

definition all_within :: "nat \<Rightarrow> nat \<Rightarrow> u64 list list \<Rightarrow> bool" where
  "all_within n limit durations \<longleftrightarrow> (\<forall>t < n. spent (durations ! t) \<le> limit)"

fun main_inv :: "nat \<Rightarrow> nat \<Rightarrow> nat \<Rightarrow> nat option list \<Rightarrow> u64 list list \<Rightarrow> latency_main \<Rightarrow> bool" where
  "main_inv n m start call durations (LatencyJoin k) \<longleftrightarrow> k \<le> n \<and> all_done k m call durations"
| "main_inv n m start call durations LatencyFlush \<longleftrightarrow> all_done n m call durations"
| "main_inv n m start call durations (LatencyStop e) \<longleftrightarrow> all_done n m call durations \<and> start \<le> e \<and> all_within n (e - start) durations"
| "main_inv n m start call durations (LatencyStopping e) \<longleftrightarrow> all_done n m call durations \<and> start \<le> e \<and> all_within n (e - start) durations"
| "main_inv n m start call durations (LatencyEnd e) \<longleftrightarrow> all_done n m call durations \<and> start \<le> e \<and> all_within n (e - start) durations"

definition latency_inv :: "nat \<Rightarrow> nat \<Rightarrow> nat \<Rightarrow> 'sys latency \<Rightarrow> bool" where
  "latency_inv n m start st \<longleftrightarrow> length (la_call st) = n \<and> length (la_times st) = n \<and>
     (\<forall>t < n. producer_inv m start (la_clock st) (la_call st ! t) (la_times st ! t)) \<and> start \<le> la_clock st \<and>
     main_inv n m start (la_call st) (la_times st) (la_at st)"

lemma main_inv_update:
  assumes "main_inv n m start call durations p" and "t < n" and "call ! t \<noteq> None \<or> length (durations ! t) < m"
    and "length call = n" and "length durations = n"
  shows "main_inv n m start (call[t := c]) (durations[t := ts]) p"
proof -
  obtain k where k: "p = LatencyJoin k" "k \<le> t"
  proof (cases p)
    case (LatencyJoin k)
    then have "\<not> t < k" using assms(1,3) by (auto simp: all_done_def)
    with LatencyJoin that show ?thesis by simp
  qed (use assms(1-3) in \<open>auto simp: all_done_def\<close>)
  then show ?thesis using assms by (auto simp: all_done_def)
qed

lemma latency_inv_step:
  assumes "latency_step L moves n m st st'" and "latency_inv n m start st"
  shows "latency_inv n m start st'"
  using assms
proof (induction rule: latency_step.induct)
  case (clock_ticks st k)
  have "producer_inv m start (clock + k) call durations" if "producer_inv m start clock call durations" for clock call durations
    using that by (cases call) (auto simp: producer_inv_def)
  then show ?case using clock_ticks by (simp add: latency_inv_def)
next
  case (call_starts t st)
  then have "main_inv n m start ((la_call st)[t := Some (la_clock st)]) ((la_times st)[t := la_times st ! t]) (la_at st)"
    by (intro main_inv_update) (auto simp: latency_inv_def)
  then show ?case using call_starts by (auto simp: latency_inv_def producer_inv_def nth_list_update)
next
  case (call_ends t st call_start)
  let ?d = "of_nat (la_clock st - call_start) :: u64"
  have "main_inv n m start ((la_call st)[t := None]) ((la_times st)[t := la_times st ! t @ [?d]]) (la_at st)"
    using call_ends by (intro main_inv_update) (auto simp: latency_inv_def)
  moreover have "unat ?d \<le> la_clock st - call_start" by (simp add: unat_of_nat)
  ultimately show ?case using call_ends by (auto simp: latency_inv_def producer_inv_def nth_list_update spent_def)
next
  case (latency_joins st k)
  then show ?case by (auto simp: latency_inv_def all_done_def less_Suc_eq)
next
  case (latency_flushed st)
  then show ?case by (auto simp: latency_inv_def producer_inv_def all_done_def all_within_def)
qed (simp_all add: latency_inv_def)

lemma latency_reach_inv:
  assumes "rtranclp (latency_step L moves n m) (latency_start sys start n) st"
  shows "latency_inv n m start st"
  using assms
proof (induction rule: rtranclp_induct)
  case base
  show ?case by (auto simp: latency_inv_def latency_start_def producer_inv_def spent_def all_done_def)
qed (rule latency_inv_step)

fun end_time :: "latency_main \<Rightarrow> nat option" where
  "end_time (LatencyStop e) = Some e"
| "end_time (LatencyStopping e) = Some e"
| "end_time (LatencyEnd e) = Some e"
| "end_time _ = None"

lemma unat_sum_list: "unat (foldl (+) a ws :: u64) \<le> unat a + sum_list (map unat ws)"
proof (induction ws arbitrary: a)
  case (Cons w ws)
  have "unat (a + w) \<le> unat a + unat w" by (simp add: unat_word_ariths)
  with Cons [of "a + w"] show ?case by simp
qed simp

lemma spent_concat:
  assumes "\<forall>durations \<in> set tss. spent durations \<le> b"
  shows "sum_list (map unat (concat tss)) \<le> length tss * b"
  using assms by (induction tss) (auto simp: spent_def)

lemma AnalyzeLatencies_total: "AnalyzeLatencies xs = Some r \<Longrightarrow> lr_total_ns r = foldl (+) 0 (sort xs)"
  by (auto simp: AnalyzeLatencies_def Let_def split: option.splits)

lemma AnalyzeLatencies_count: "AnalyzeLatencies xs = Some r \<Longrightarrow> lr_call_count r = of_nat (length xs)"
  by (auto simp: AnalyzeLatencies_def Let_def split: option.splits)

lemma latency_times:
  assumes reach: "rtranclp (latency_step L moves n m) (latency_start sys start n) st" and ended: "end_time (la_at st) = Some e"
  shows "length (all_latencies st) = n * m \<and> length (la_times st) = n \<and> start \<le> e \<and>
    (\<forall>durations \<in> set (la_times st). length durations = m \<and> spent durations \<le> e - start)"
proof -
  have inv: "latency_inv n m start st" using latency_reach_inv [OF reach] .
  then have len: "length (la_times st) = n" and each: "all_done n m (la_call st) (la_times st)" "start \<le> e" "all_within n (e - start) (la_times st)"
    using ended by (cases "la_at st"; simp add: latency_inv_def)+
  then have all: "\<forall>durations \<in> set (la_times st). length durations = m \<and> spent durations \<le> e - start"
    using len by (auto simp: in_set_conv_nth all_done_def all_within_def)
  have "map length (la_times st) = replicate n m" using all len by (intro replicate_eqI) auto
  then have count: "length (all_latencies st) = n * m" by (simp add: all_latencies_def length_concat sum_list_replicate)
  with len each(2) all show ?thesis by blast
qed

text \<open>
  C33. The latency benchmark.  In every interleaving with any logger, once the end has been measured the analysis is defined,
  counts every call that was asked for, and its percentiles are ordered up to the maximum; no call
  lasted longer than the whole measurement, and, since the calls of one thread do not overlap, all
  calls together no longer than the number of threads durations that.
\<close>

theorem latency_benchmark_bounds:
  assumes reach: "rtranclp (latency_step L moves n m) (latency_start sys start n) st"
    and ended: "end_time (la_at st) = Some e" and work: "0 < n" "0 < m" "n * m * 100 < 2 ^ 64"
  shows "\<exists>r. AnalyzeLatencies (all_latencies st) = Some r \<and> start \<le> e \<and> lr_call_count r = of_nat (n * m) \<and>
    lr_p50_ns r \<le> lr_p95_ns r \<and> lr_p95_ns r \<le> lr_p99_ns r \<and> lr_p99_ns r \<le> lr_max_ns r \<and>
    unat (lr_max_ns r) \<le> e - start \<and> unat (lr_total_ns r) \<le> n * (e - start)"
proof -
  have count: "length (all_latencies st) = n * m" and len: "length (la_times st) = n" and le: "start \<le> e"
    and all: "\<forall>durations \<in> set (la_times st). length durations = m \<and> spent durations \<le> e - start"
    using latency_times [OF reach ended] by blast+
  have "all_latencies st \<noteq> []" using count work by auto
  moreover have "length (all_latencies st) * 100 < 2 ^ 64" using count work by simp
  ultimately obtain r where r: "AnalyzeLatencies (all_latencies st) = Some r" "lr_p50_ns r \<le> lr_p95_ns r" "lr_p95_ns r \<le> lr_p99_ns r"
    "lr_p99_ns r \<le> lr_max_ns r" "lr_max_ns r \<in> set (all_latencies st)"
    using AnalyzeLatencies_ordered [of "all_latencies st" "all_latencies st"] by auto
  from r(5) obtain durations where "durations \<in> set (la_times st)" "lr_max_ns r \<in> set durations" by (auto simp: all_latencies_def)
  then have "unat (lr_max_ns r) \<le> e - start"
    using all member_le_sum_list [of "unat (lr_max_ns r)" "map unat durations"] by (auto simp: spent_def)
  moreover have "unat (lr_total_ns r) \<le> sum_list (map unat (sort (all_latencies st)))"
    using unat_sum_list [of 0 "sort (all_latencies st)"] AnalyzeLatencies_total [OF r(1)] by simp
  then have "unat (lr_total_ns r) \<le> sum_list (map unat (all_latencies st))"
    by (metis mset_map mset_sort sum_mset_sum_list)
  then have "unat (lr_total_ns r) \<le> n * (e - start)"
    using spent_concat [of "la_times st" "e - start"] all len by (auto simp: all_latencies_def intro: order_trans)
  ultimately show ?thesis using r le AnalyzeLatencies_count [OF r(1)] count by auto
qed

section \<open>A run\<close>

datatype 'a latency_action = Tick nat | LatencyMove 'a | CallStarts nat | CallEnds nat | LatencyMain

fun latency_do :: "'sys bench_logger \<Rightarrow> ('a \<Rightarrow> 'sys \<Rightarrow> 'sys) \<Rightarrow> nat \<Rightarrow> nat \<Rightarrow> 'a latency_action \<Rightarrow> 'sys latency \<Rightarrow> 'sys latency" where
  "latency_do L f n m (Tick k) st = st\<lparr>la_clock := la_clock st + k\<rparr>"
| "latency_do L f n m (LatencyMove x) st = st\<lparr>la_sys := f x (la_sys st)\<rparr>"
| "latency_do L f n m (CallStarts t) st =
     (if t < n \<and> la_call st ! t = None \<and> length (la_times st ! t) < m
      then st\<lparr>la_sys := bl_log L t (length (la_times st ! t)) (la_sys st), la_call := (la_call st)[t := Some (la_clock st)]\<rparr> else st)"
| "latency_do L f n m (CallEnds t) st =
     (case la_call st ! t of
        Some call_start \<Rightarrow>
          if t < n \<and> bl_returned L t (la_sys st)
          then st\<lparr>la_sys := bl_return L t (la_sys st), la_call := (la_call st)[t := None],
                  la_times := (la_times st)[t := la_times st ! t @ [of_nat (la_clock st - call_start)]]\<rparr> else st
      | None \<Rightarrow> st)"
| "latency_do L f n m LatencyMain st =
     (case la_at st of
        LatencyJoin k \<Rightarrow>
          if k < n then (if la_call st ! k = None \<and> length (la_times st ! k) = m then st\<lparr>la_at := LatencyJoin (Suc k)\<rparr> else st)
          else if k = n then st\<lparr>la_sys := bl_flush L n (la_sys st), la_at := LatencyFlush\<rparr> else st
      | LatencyFlush \<Rightarrow> if bl_returned L n (la_sys st) then st\<lparr>la_sys := bl_return L n (la_sys st), la_at := LatencyStop (la_clock st)\<rparr> else st
      | LatencyStop e \<Rightarrow> st\<lparr>la_sys := bl_stop L n (la_sys st), la_at := LatencyStopping e\<rparr>
      | LatencyStopping e \<Rightarrow> if bl_returned L n (la_sys st) then st\<lparr>la_sys := bl_return L n (la_sys st), la_at := LatencyEnd e\<rparr> else st
      | LatencyEnd e \<Rightarrow> st)"

lemma latency_do_step:
  assumes "\<And>x sys. f x sys = sys \<or> moves sys (f x sys)"
  shows "latency_do L f n m a st = st \<or> latency_step L moves n m st (latency_do L f n m a st)"
proof (cases a)
  case (LatencyMove x)
  then show ?thesis using assms [of x "la_sys st"] logger_moves [of moves st] by auto
next
  case (CallEnds t)
  then show ?thesis by (cases "la_call st ! t") (auto intro: latency_step.call_ends)
next
  case LatencyMain
  then show ?thesis
    by (cases "la_at st")
      (auto intro: latency_step.latency_joins latency_step.latency_flushes latency_step.latency_flushed
        latency_step.latency_stops latency_step.latency_ends)
qed (auto intro: latency_step.clock_ticks latency_step.call_starts)

lemma latency_run_reach:
  assumes f: "\<And>x sys. f x sys = sys \<or> moves sys (f x sys)"
  shows "rtranclp (latency_step L moves n m) st (fold (latency_do L f n m) as st)"
proof (induction as arbitrary: st)
  case (Cons a as)
  from latency_do_step [where f = f and moves = moves and L = L and n = n and m = m and a = a and st = st, OF f]
    Cons [of "latency_do L f n m a st"]
  show ?case by (auto intro: converse_rtranclp_into_rtranclp)
qed simp

text \<open>One message, with a call of 40 nanoseconds, through the logger with a mutex.\<close>

definition latency_demo :: "u64 mutex_sys latency" where
  "latency_demo = fold (latency_do mutex_bench mutex_do 1 1)
     ([Tick 5, CallStarts 0, LatencyMove (MxRun 0), Tick 40, LatencyMove (MxRun 0), CallEnds 0, LatencyMain, LatencyMain,
       LatencyMove (MxRun 1)] @ replicate 7 (LatencyMove MxRunWorker) @ [Tick 3, LatencyMove (MxRun 1), LatencyMain])
     (latency_start (mutex_factory (0, memory_world) 2) 100 1)"

lemma latency_demo_view: "(la_at latency_demo, all_latencies latency_demo) = (LatencyStop 148, [40])"
  by code_simp

theorem latency_benchmark_bounds_witness:
  "\<exists>r. AnalyzeLatencies [40] = Some r \<and> lr_call_count r = 1 \<and> unat (lr_max_ns r) \<le> 48"
proof -
  have view: "end_time (la_at latency_demo) = Some 148" "all_latencies latency_demo = [40]" using latency_demo_view by auto
  have "rtranclp (latency_step mutex_bench (mutex_moves CountingSink_ops) 1 1)
      (latency_start (mutex_factory (0, memory_world) 2) 100 1) latency_demo"
    unfolding latency_demo_def by (rule latency_run_reach) (rule mutex_do_moves)
  from latency_benchmark_bounds [OF this view(1)] view(2) show ?thesis by auto
qed

end
