(* ===== verification/Benchmark_Report.thy ===== *)
theory Benchmark_Report
  imports Benchmark_Latency
begin

text \<open>
  The rest of \<open>examples/payload_benchmark.cpp\<close> and of \<open>examples/latency_benchmark.cpp\<close>: the results in
  floating point, the summaries, what is printed, and both \<open>main\<close> functions.  What a run of \<open>RunLatencyBenchmark\<close>
  measures depends on the scheduler and the clock, so the programs take the durations and the elapsed time of each run, by the
  name of what is measured and the number of the run; \<open>payload_may_measure\<close> and \<open>latency_may_measure\<close> say
  which durations a run of the modelled loggers may give.
\<close>

section \<open>Results\<close>





section \<open>What is printed\<close>







section \<open>The programs\<close>





section \<open>The loggers measured\<close>










section \<open>The lines for the rounds and the summaries\<close>




















end
