(* ===== verification/Spec2Isabelle.thy ===== *)
theory Spec2Isabelle
  imports Logger_Ring Ring_Sequential Service_Loop Benchmark_Report
begin

text \<open>
  Verification of HLog, an asynchronous logging library in C++ (\<open>include/hlog\<close>, \<open>src\<close>), and of the HTTP
  service that shows its use (\<open>examples/service_example.cpp\<close>).

  \<^bold>\<open>The program.\<close>  Client threads call \<open>AsyncLogger::Log\<close>, \<open>Flush\<close> and \<open>Stop\<close>.  \<open>Log\<close> builds a payload from
  its arguments and puts a message into a bounded lock-free queue; one worker thread takes the messages
  out and calls the sink: the console, a file, a rotating file or a fan out to several of these.  The
  sinks format a message with a compiled pattern and write batches of lines to streams.  Sinks and
  loggers are built from configuration records.  The service accepts connections, hands them to workers
  through a queue of its own, answers requests and logs what it does.

  \<^bold>\<open>The theories.\<close>
  \<^item> \<open>Prelude\<close>: exceptions, computations that change a state and may throw, shared list facts.
  \<^item> \<open>Log_Level\<close> (\<open>log_level.h\<close>), \<open>Decimal\<close> (\<open>std::to_chars\<close> and \<open>std::to_string\<close>), \<open>Log_Payload\<close>
    (\<open>detail/log_payload.h\<close>: a buffer of bytes inside the object or on the heap, undefined behaviour as
    \<open>None\<close>), \<open>Log_Args\<close> (\<open>BuildPayload\<close>), \<open>Log_Message\<close> (\<open>detail/log_message.h\<close>).
  \<^item> \<open>Pattern_Formatter\<close>: the pattern compiler and the rendering of tokens (\<open>pattern_formatter.cpp\<close>).
  \<^item> \<open>Io_World\<close>: files, output streams and file system calls as the standard library promises them; any
    call may fail, and a stream may pass on any part of its buffer at any write.
  \<^item> \<open>Sink_Interface\<close> (\<open>sink.h\<close>): a sink as a record of operations, with a contract as a locale and what it gives for sequences of calls;
    \<open>Console_Sink\<close>, \<open>File_Sink\<close>, \<open>Rotating_File_Sink\<close>, \<open>Multi_Sink\<close>: the sinks, which interpret it;
    \<open>Sink_Config\<close> (\<open>CreateSink\<close> of \<open>config/logger_config.cpp\<close>).
  \<^item> \<open>Ring_Buffer\<close>: the operations of \<open>detail/lock_free_ring_buffer.h\<close>, one access to shared memory per
    step; \<open>Ring_Concurrent\<close>: any number of threads; \<open>Slot_Queue\<close>, \<open>Ring_Slots\<close>: the abstract queue and
    the refinement; \<open>Ring_Sequential\<close>: one caller at a time.
  \<^item> \<open>Async_Logger\<close>: \<open>async_logger.h\<close> and \<open>async_logger.cpp\<close> as a step relation over client and worker
    threads, one access to shared state per step.  \<open>Logger_Invariant\<close> holds the scheme of its invariants
    as a locale; \<open>Logger_Gate\<close>, \<open>Logger_Queue\<close>, \<open>Logger_History\<close>, \<open>Logger_Accounting\<close>, \<open>Logger_Flush\<close> and
    \<open>Logger_Failure\<close> establish one invariant each, on top of the previous ones; \<open>Logger_Schedules\<close> runs
    particular interleavings; \<open>Logger_Ring\<close> puts the ring buffer in the place of the slot queue and shows
    that the system with the ring implements the one with slots; \<open>Logger_Config\<close> (\<open>CreateLogger\<close>) connects the logger with a file.
  \<^item> \<open>Service_Http\<close>: requests, responses and the send loop; \<open>Service_Config\<close>: \<open>LoadConfig\<close> and the paths
    of \<open>examples/runtime_paths.h\<close>; \<open>File_Descriptor\<close>: the owner of a descriptor; \<open>Service_Loop\<close>: \<open>main\<close>,
    the workers and the connection queue as a step relation.
  \<^item> \<open>Benchmark_Support\<close>: the payloads and the counting sink of \<open>examples/benchmark_support.h\<close> and the
    order statistics of \<open>examples/payload_benchmark.cpp\<close>; \<open>Mutex_Logger\<close>: the baseline \<open>MutexAsyncLogger\<close> of
    the benchmarks as a step relation.
  \<^item> \<open>Benchmark_Run\<close>: \<open>RunBenchmark\<close> of \<open>examples/compare_benchmark.cpp\<close> over any logger that satisfies the contract
    \<open>countable_logger\<close>; \<open>Benchmark_Cas\<close> and \<open>Benchmark_Mutex\<close> interpret it for \<open>AsyncLogger\<close> and for
    \<open>MutexAsyncLogger\<close>; \<open>Benchmark_Compare\<close>: the statistics, the output and \<open>main\<close>.  \<open>Benchmark_Latency\<close>:
    \<open>RunLatencyBenchmark\<close> of \<open>examples/payload_benchmark.cpp\<close> and \<open>examples/latency_benchmark.cpp\<close>;
    \<open>Benchmark_Report\<close>: the loggers these measure, the summaries, the output and both \<open>main\<close> functions.

  \<^bold>\<open>What the lemmas show.\<close>  The end to end property is \<open>logger_writes_file\<close>: whatever the interleaving and
  whatever calls of the operating system fail, the file of a logger holds the lines of the messages in the
  order their places in the queue were claimed, up to some point; once the worker has ended without a failure it
  holds all that the worker has taken, and so all that was claimed if the queue is empty.  It rests on the order of the worker's writes (\<open>logger_fifo\<close>), on the
  contract of the file sink (\<open>FileSink_calls_log\<close>) and on the ring buffer (\<open>ring_fifo\<close>,
  \<open>ring_refines_slots\<close>), and \<open>ring_logger_refines\<close> carries the properties of the logger over to the logger with its
  ring.  Around it: what a successful \<open>Flush\<close> means, what a failure of the sink does to
  every caller, what the counters say, the limits and the losses of rotation, the equivalence of compiled
  patterns with their reading, and for the service the fate of every connection, the absence of lost
  wakeups, the termination of the send loop and the well-formedness of every loaded configuration.
  For the benchmarks, that both loggers have written every message when the comparison reads their counters,
  whatever the schedule, and what the measured durations can be.
  Three properties are schedules that show unwanted behaviour of the logger: a message accepted during
  \<open>Stop\<close> that is never written, and two ways in which \<open>Flush\<close> may wait for ever.

  \<^bold>\<open>Bounds and fuel.\<close>  Atomics of the logger are words of 64 bits and wrap.  The theorems on tickets need
  fewer than \<open>2 ^ 64\<close> calls of \<open>Flush\<close>, those on the gate fewer than \<open>2 ^ 63\<close> threads, those on the ring fewer
  than \<open>2 ^ 63\<close> positions less the capacity.  Loops are recursive functions with termination proofs; the
  sequential runs of the ring take the outcome of each access as a list, which is also their fuel; five accesses and two
  for each spurious failure of a compare-exchange are enough (\<open>ring_alone_is_list_queue\<close>).  Loops of threads that may spin are steps of a relation, so nothing bounds them.

  \<^bold>\<open>Not modelled.\<close>  Memory is sequentially consistent: the weaker orders the code asks for are not
  distinguished.
  Concurrent calls of \<open>Stop\<close> race on the thread handle, which the model leaves out by joining in one step.
  Allocation does not fail.  The text of floating-point and streamed arguments and the conversion of
  seconds to local time are parameters.  The macros of \<open>async_logger.h\<close> only pass source locations on.
  The arithmetic of \<open>double\<close> in the benchmarks, the text it is printed as and the elapsed times are parameters,
  and creating their threads does not fail.  \<open>file_sink_benchmark.cpp\<close>, \<open>benchmark_main.cpp\<close> and
  \<open>spdlog_compare_benchmark.cpp\<close> (which needs a third-party library) are left out.
\<close>

end
